(* ===== verification/Prelude.thy ===== *)
theory Prelude
  imports Main "HOL-Library.Word"
begin

text \<open>
  The types, the panic datatype, the result combinators and the generic lemmas that every
  component of the kernel model shares.

  The kernel is compiled with \<^verbatim>\<open>cargo build --release\<close> (\<^verbatim>\<open>src/os/Makefile\<close>), so the arithmetic of
  \<^verbatim>\<open>usize\<close> wraps around and is the arithmetic of \<open>64 word\<close>.  A panic of the kernel prints a
  message and shuts the machine down (\<^verbatim>\<open>src/os/src/lang_items.rs\<close>); it is the left value of a sum,
  and no state survives it.  Code that threads state takes the state as its last argument and
  returns it updated beside its result.
\<close>

unbundle bit_operations_syntax

subsection \<open>Machine integers\<close>

type_synonym u8 = "8 word"
type_synonym u32 = "32 word"
type_synonym i32 = "32 word"
type_synonym usize = "64 word"
type_synonym isize = "64 word"

subsection \<open>Panics and results\<close>

text \<open>One constructor for each way the modelled code can panic.\<close>

datatype panic =
    UnwrapNone \<comment> \<open>\<open>unwrap()\<close> of a \<open>None\<close> or of an \<open>Err\<close>\<close>
  | NotAligned usize \<comment> \<open>\<open>assert_eq!(v.page_offset(), 0)\<close>\<close>
  | BadRange usize usize \<comment> \<open>\<open>assert!(start <= end)\<close> of \<open>SimpleRange::new\<close>\<close>
  | SliceIndex usize usize \<comment> \<open>a slice \<open>[a..b]\<close> that is out of order or out of range\<close>
  | NotAllocated usize \<comment> \<open>\<open>Frame ppn has not been allocated!\<close>\<close>
  | MappedBefore usize \<comment> \<open>\<open>vpn is mapped before mapping\<close>\<close>
  | InvalidUnmap usize \<comment> \<open>\<open>vpn is invalid before unmapping\<close>\<close>
  | NotFramed \<comment> \<open>\<open>assert_eq!(self.map_type, MapType::Framed)\<close>\<close>
  | InvalidElf \<comment> \<open>\<open>invalid elf!\<close>\<close>
  | RemapFailed \<comment> \<open>an assertion of \<open>remap_test\<close>\<close>
  | PidNotAllocated usize \<comment> \<open>\<open>assert!(pid < self.current)\<close>\<close>
  | PidDeallocated usize \<comment> \<open>\<open>pid has been deallocated!\<close>\<close>
  | AlreadyBorrowed \<comment> \<open>\<open>RefCell::borrow_mut\<close> of a borrowed cell\<close>
  | StrongCount nat \<comment> \<open>\<open>assert_eq!(Arc::strong_count(&child), 1)\<close>\<close>
  | AppId usize \<comment> \<open>\<open>assert!(app_id < num_app)\<close>\<close>
  | IndexOutOfBounds nat \<comment> \<open>an index of a vector or slice that is out of range\<close>
  | UnsupportedFd usize \<comment> \<open>\<open>Unsupported fd\<close> of \<open>sys_read\<close> and \<open>sys_write\<close>\<close>
  | UnsupportedLen usize \<comment> \<open>\<open>Only support len = 1 in sys_read!\<close>\<close>
  | UnsupportedSyscall usize \<comment> \<open>\<open>Unsupported syscall_id\<close>\<close>
  | UnsupportedTrap \<comment> \<open>\<open>Unsupported trap\<close>\<close>
  | UseAfterFree \<comment> \<open>an \<open>Arc\<close> whose cell is gone; excluded by the types of Rust and, here, by invariants\<close>
  | StackOverflow \<comment> \<open>a drop nested deeper than there are cells; excluded by invariants\<close>
  | Unreachable \<comment> \<open>\<open>Unreachable in sys_exit!\<close>\<close>
  | KernelTrap \<comment> \<open>\<open>a trap from kernel!\<close>\<close>

type_synonym 'a result = "panic + 'a"

text \<open>
  \<open>bind r f\<close> runs \<open>f\<close> on the value of \<open>r\<close>; a panic of \<open>r\<close> is the panic of the whole.
\<close>

definition bind :: "'a result \<Rightarrow> ('a \<Rightarrow> 'b result) \<Rightarrow> 'b result" where
  "bind r f = (case r of Inl e \<Rightarrow> Inl e | Inr a \<Rightarrow> f a)"

text \<open>
  A computation that may also run forever: \<open>None\<close> is not returning.
\<close>

definition obind :: "'a result option \<Rightarrow> ('a \<Rightarrow> 'b result option) \<Rightarrow> 'b result option" where
  "obind r f = (case r of None \<Rightarrow> None | Some (Inl e) \<Rightarrow> Some (Inl e) | Some (Inr a) \<Rightarrow> f a)"

definition unwrap :: "'a option \<Rightarrow> 'a result" where
  "unwrap x = (case x of None \<Rightarrow> Inl UnwrapNone | Some a \<Rightarrow> Inr a)"

definition assert_that :: "bool \<Rightarrow> panic \<Rightarrow> unit result" where
  "assert_that b e = (if b then Inr () else Inl e)"

text \<open>A \<open>for\<close> loop over the items of a list, stopped by the first panic.\<close>

fun for_each :: "('a \<Rightarrow> 's \<Rightarrow> 's result) \<Rightarrow> 'a list \<Rightarrow> 's \<Rightarrow> 's result" where
  "for_each f [] s = Inr s"
| "for_each f (x # xs) s = bind (f x s) (for_each f xs)"

text \<open>The collections: \<open>res_simps\<close> evaluates results, \<open>word_facts\<close> holds the facts on words.\<close>

named_theorems res_simps
named_theorems word_facts

lemma bind_Inl [simp]: "bind (Inl e) f = Inl e"
  by (simp add: bind_def)

lemma bind_Inr [simp]: "bind (Inr a) f = f a"
  by (simp add: bind_def)

lemma bind_Inr_right [simp]: "bind r Inr = r"
  by (simp add: bind_def split: sum.splits)

lemma bind_assoc: "bind (bind r f) g = bind r (\<lambda>x. bind (f x) g)"
  by (simp add: bind_def split: sum.splits)

lemma bind_cong: "r = r' \<Longrightarrow> (\<And>a. r' = Inr a \<Longrightarrow> f a = g a) \<Longrightarrow> bind r f = bind r' g"
  by (simp add: bind_def split: sum.splits)

lemma bind_eq_Inr_iff: "bind r f = Inr b \<longleftrightarrow> (\<exists>a. r = Inr a \<and> f a = Inr b)"
  by (auto simp: bind_def split: sum.splits)

lemma bind_eq_Inl_iff: "bind r f = Inl e \<longleftrightarrow> r = Inl e \<or> (\<exists>a. r = Inr a \<and> f a = Inl e)"
  by (auto simp: bind_def split: sum.splits)

lemma bind_InrE:
  assumes "bind r f = Inr b"
  obtains a where "r = Inr a" and "f a = Inr b"
  using assms by (auto simp: bind_eq_Inr_iff)

lemma obind_simps [simp]:
  "obind None f = None" "obind (Some (Inl e)) f = Some (Inl e)" "obind (Some (Inr a)) f = f a"
  by (simp_all add: obind_def)

lemma obind_eq_Inr_iff: "obind r f = Some (Inr b) \<longleftrightarrow> (\<exists>a. r = Some (Inr a) \<and> f a = Some (Inr b))"
  by (auto simp: obind_def split: option.splits sum.splits)

lemma unwrap_None [simp]: "unwrap None = Inl UnwrapNone"
  by (simp add: unwrap_def)

lemma unwrap_Some [simp]: "unwrap (Some a) = Inr a"
  by (simp add: unwrap_def)

lemma unwrap_eq_Inr_iff [simp]: "unwrap x = Inr a \<longleftrightarrow> x = Some a"
  by (simp add: unwrap_def split: option.splits)

lemma unwrap_eq_Inl_iff [simp]: "unwrap x = Inl e \<longleftrightarrow> x = None \<and> e = UnwrapNone"
  by (auto simp: unwrap_def split: option.splits)

lemma assert_that_True [simp]: "assert_that True e = Inr ()"
  by (simp add: assert_that_def)

lemma assert_that_False [simp]: "assert_that False e = Inl e"
  by (simp add: assert_that_def)

lemma assert_that_eq_Inr_iff [simp]: "assert_that b e = Inr u \<longleftrightarrow> b"
  by (simp add: assert_that_def)

lemma assert_that_eq_Inl_iff [simp]: "assert_that b e = Inl e' \<longleftrightarrow> \<not> b \<and> e' = e"
  by (auto simp: assert_that_def)

lemmas [res_simps] = bind_eq_Inr_iff bind_eq_Inl_iff bind_assoc

lemma for_each_append:
  "for_each f (xs @ ys) s = bind (for_each f xs s) (for_each f ys)"
  by (induction xs arbitrary: s) (simp_all add: bind_assoc cong: bind_cong)

text \<open>The loop rule: an invariant over the items done so far holds after the loop.\<close>

lemma for_each_invariant:
  assumes "for_each f xs s = Inr t" and "I [] s"
    and "\<And>done x rest s t. xs = done @ x # rest \<Longrightarrow> I done s \<Longrightarrow> f x s = Inr t \<Longrightarrow> I (done @ [x]) t"
  shows "I xs t"
proof -
  have "I (done @ ys) t" if "for_each f ys u = Inr t" "I done u" "xs = done @ ys" for "done" ys u
    using that
  proof (induction ys arbitrary: "done" u)
    case Nil
    then show ?case by simp
  next
    case (Cons y ys)
    from Cons.prems(1) obtain v where v: "f y u = Inr v" "for_each f ys v = Inr t"
      by (auto simp: bind_eq_Inr_iff)
    have "I (done @ [y]) v"
      using assms(3) [OF Cons.prems(3,2) v(1)] .
    from Cons.IH [OF v(2) this] Cons.prems(3) show ?case by simp
  qed
  from this [OF assms(1), of "[]"] assms(2) show ?thesis by simp
qed

text \<open>Enough fuel: if every step succeeds under the invariant, so does the loop.\<close>

lemma for_each_total:
  assumes "I [] s"
    and "\<And>done x rest s. xs = done @ x # rest \<Longrightarrow> I done s \<Longrightarrow> \<exists>t. f x s = Inr t \<and> I (done @ [x]) t"
  shows "\<exists>t. for_each f xs s = Inr t \<and> I xs t"
proof -
  have "\<exists>t. for_each f ys u = Inr t \<and> I xs t" if "I done u" "xs = done @ ys" for "done" ys u
    using that
  proof (induction ys arbitrary: "done" u)
    case Nil
    then show ?case by simp
  next
    case (Cons y ys)
    from assms(2) [OF Cons.prems(2,1)] obtain v where v: "f y u = Inr v" "I (done @ [y]) v"
      by blast
    from Cons.IH [OF v(2)] Cons.prems(2) v(1) show ?case by simp
  qed
  from this [OF assms(1), of xs] show ?thesis by simp
qed

subsection \<open>\<open>Vec\<close>: a list whose end is the top\<close>

definition vec_push :: "'a list \<Rightarrow> 'a \<Rightarrow> 'a list" where
  [simp]: "vec_push xs x = xs @ [x]"

definition vec_pop :: "'a list \<Rightarrow> 'a option \<times> 'a list" where
  "vec_pop xs = (if xs = [] then (None, []) else (Some (last xs), butlast xs))"

lemma vec_pop_Nil [simp]: "vec_pop [] = (None, [])"
  by (simp add: vec_pop_def)

lemma vec_pop_snoc [simp]: "vec_pop (xs @ [x]) = (Some x, xs)"
  by (simp add: vec_pop_def)

lemma vec_pop_Some: "vec_pop xs = (Some x, ys) \<longleftrightarrow> xs = ys @ [x]"
  by (cases xs rule: rev_cases) (auto simp: vec_pop_def)

lemma vec_pop_None: "vec_pop xs = (None, ys) \<longleftrightarrow> xs = [] \<and> ys = []"
  by (auto simp: vec_pop_def)

subsection \<open>Words as natural numbers\<close>

lemma unat_take_bit [word_facts]: "unat (take_bit n w) = unat w mod 2 ^ n"
  by (simp add: unsigned_take_bit_eq flip: take_bit_eq_mod)

lemma unat_drop_bit [word_facts]: "unat (drop_bit n w) = unat w div 2 ^ n"
  by (simp only: unat_drop_bit_eq) (simp add: drop_bit_eq_div)

lemma unat_push_bit:
  "unat w * 2 ^ n < 2 ^ LENGTH('a) \<Longrightarrow> unat (push_bit n w) = unat w * 2 ^ n"
  for w :: "'a::len word"
  by (simp only: unsigned_push_bit_eq) (simp add: push_bit_eq_mult take_bit_nat_eq_self)

lemma and_low_bits [simp]: "w AND (push_bit n 1 - 1) = take_bit n w" for w :: "'a::len word"
  by (simp add: take_bit_eq_mask mask_eq_exp_minus_1 push_bit_eq_mult)

lemma take_bit_eq_self_if_less: "unat w < 2 ^ n \<Longrightarrow> take_bit n w = w" for w :: "'a::len word"
  by (rule word_unat_eq_iff [THEN iffD2]) (simp add: unat_take_bit)

lemma unat_add_less:
  "unat a + unat b < 2 ^ LENGTH('a) \<Longrightarrow> unat (a + b) = unat a + unat b"
  for a b :: "'a::len word"
  by (simp add: unat_word_ariths)

lemma unat_minus_1: "w \<noteq> 0 \<Longrightarrow> unat (w - 1) = unat w - 1" for w :: usize
  by (simp add: unat_sub word_le_nat_alt Suc_leI unat_gt_0)

lemma unat_of_nat_less [simp]: "k < 2 ^ 64 \<Longrightarrow> unat (of_nat k :: usize) = k"
  by (simp add: unat_of_nat take_bit_nat_eq_self)

lemma unat_usize_less: "unat w < 2 ^ 64" for w :: usize
proof -
  have "unat w < 2 ^ LENGTH(64)" by (rule unsigned_less)
  then show ?thesis by simp
qed

lemma take_bit_usize [simp]: "take_bit 64 w = w" for w :: usize
  by (simp add: take_bit_word_eq_self)

lemma round_up_nat:
  "(n + 4095) div 4096 = n div 4096 + (if n mod 4096 = 0 then 0 else 1)" for n :: nat
proof -
  have "n + 4095 = (n mod 4096 + 4095) + 4096 * (n div 4096)" by simp
  then have "(n + 4095) div 4096 = (n mod 4096 + 4095) div 4096 + n div 4096"
    by (simp only: div_mult_self2)
  moreover have "n mod 4096 < 4096" by simp
  ultimately show ?thesis by (auto simp: div_nat_eqI)
qed

lemma same_page_nat:
  assumes "n mod 4096 + k < (4096 :: nat)"
  shows "(n + k) div 4096 = n div 4096" and "(n + k) mod 4096 = n mod 4096 + k"
proof -
  have "n + k = (n mod 4096 + k) + 4096 * (n div 4096)" by simp
  then show "(n + k) div 4096 = n div 4096" and "(n + k) mod 4096 = n mod 4096 + k"
    using assms by (simp_all only: div_mult_self2 mod_mult_self2) simp_all
qed

lemma upt_split: "[0..<a + b] = [0..<a] @ map (\<lambda>i. a + i) [0..<b]"
  by (induction b) simp_all

subsection \<open>Little-endian bytes\<close>

text \<open>The bytes of a word in the order memory holds them, and the word of a list of bytes.\<close>

fun le_bytes :: "nat \<Rightarrow> 'a::len word \<Rightarrow> u8 list" where
  "le_bytes 0 w = []"
| "le_bytes (Suc n) w = ucast w # le_bytes n (drop_bit 8 w)"

fun of_le_bytes :: "u8 list \<Rightarrow> 'a::len word" where
  "of_le_bytes [] = 0"
| "of_le_bytes (b # bs) = ucast b OR push_bit 8 (of_le_bytes bs)"

lemma length_le_bytes [simp]: "length (le_bytes n w) = n"
  by (induction n arbitrary: w) simp_all

lemma of_le_bytes_le_bytes: "of_le_bytes (le_bytes n w) = take_bit (8 * n) w"
proof (induction n arbitrary: w)
  case 0
  then show ?case by simp
next
  case (Suc n)
  have "(ucast (ucast w :: u8) :: 'a word) OR push_bit 8 (take_bit (8 * n) (drop_bit 8 w))
      = take_bit (8 * Suc n) w"
    by (rule bit_word_eqI) (auto simp: bit_simps)
  with Suc show ?case by simp
qed

lemma of_le_bytes_zero: "of_le_bytes (replicate n 0) = 0"
  by (induction n) simp_all

lemma list_all2_in_set2: "list_all2 P xs ys \<Longrightarrow> y \<in> set ys \<Longrightarrow> \<exists>x \<in> set xs. P x y"
  by (induction rule: list_all2_induct) auto

end
