(* ===== verification/Config.thy ===== *)
theory Config
  imports Prelude
begin

text \<open>
  The constants of \<^verbatim>\<open>src/os/src/config.rs\<close> and the placement of the kernel stacks
  (\<open>kernel_stack_position\<close>, which \<^verbatim>\<open>src/os/src/task/pid.rs\<close> repeats).  The lemmas show that
  the stacks of different processes are apart by a guard page, also after the truncation to
  39 bits that \<open>VirtAddr::from\<close> performs, and that they stay above the identity-mapped memory.
\<close>

definition USER_STACK_SIZE :: usize where
  [simp]: "USER_STACK_SIZE = 4096 * 2"

definition KERNEL_STACK_SIZE :: usize where
  [simp]: "KERNEL_STACK_SIZE = 4096 * 2"

definition KERNEL_HEAP_SIZE :: usize where
  [simp]: "KERNEL_HEAP_SIZE = 0x300000"

definition MEMORY_END :: usize where
  [simp]: "MEMORY_END = 0x80800000"

definition PAGE_SIZE :: usize where
  [simp]: "PAGE_SIZE = 0x1000"

definition PAGE_SIZE_BITS :: nat where
  [simp]: "PAGE_SIZE_BITS = 0xc"

text \<open>\<open>usize::MAX - PAGE_SIZE + 1\<close>, the highest page, and the page below it.\<close>

definition TRAMPOLINE :: usize where
  "TRAMPOLINE = - 1 - PAGE_SIZE + 1"

definition TRAP_CONTEXT :: usize where
  "TRAP_CONTEXT = TRAMPOLINE - PAGE_SIZE"

definition kernel_stack_position :: "usize \<Rightarrow> usize \<times> usize" where
  "kernel_stack_position app_id =
     (let top = TRAMPOLINE - app_id * (KERNEL_STACK_SIZE + PAGE_SIZE);
          bottom = top - KERNEL_STACK_SIZE
      in (bottom, top))"

lemma TRAMPOLINE_eq [simp]: "TRAMPOLINE = 0xFFFFFFFFFFFFF000"
  by (simp add: TRAMPOLINE_def)

lemma TRAP_CONTEXT_eq [simp]: "TRAP_CONTEXT = 0xFFFFFFFFFFFFE000"
  by (simp add: TRAP_CONTEXT_def)

text \<open>
  The pids for which the whole stack and its guard page lie above the kernel's identity-mapped
  memory in the 39-bit address space.
\<close>

definition stack_pid :: "usize \<Rightarrow> bool" where
  "stack_pid p \<longleftrightarrow> unat p * 12288 + 12288 + unat MEMORY_END \<le> 2 ^ 39 - 4096"

lemma unat_stack_offset:
  assumes "stack_pid p"
  shows "unat (p * 0x3000) = unat p * 12288"
proof -
  have "unat p * unat (0x3000 :: usize) < 2 ^ 64"
    using assms by (simp add: stack_pid_def)
  then show ?thesis by (simp add: unat_word_ariths)
qed

lemma unat_stack_top:
  assumes "stack_pid p"
  shows "unat (snd (kernel_stack_position p)) = 2 ^ 64 - 4096 - unat p * 12288"
proof -
  have le: "p * 0x3000 \<le> (0xFFFFFFFFFFFFF000 :: usize)"
    using assms unat_stack_offset [OF assms] by (simp add: word_le_nat_alt stack_pid_def)
  show ?thesis
    using unat_stack_offset [OF assms] unat_sub [OF le]
    by (simp add: kernel_stack_position_def)
qed

lemma unat_stack_bottom:
  assumes "stack_pid p"
  shows "unat (fst (kernel_stack_position p)) = 2 ^ 64 - 4096 - unat p * 12288 - 8192"
proof -
  let ?t = "snd (kernel_stack_position p)"
  have le: "0x2000 \<le> ?t"
    using unat_stack_top [OF assms] assms by (simp add: word_le_nat_alt stack_pid_def)
  have "fst (kernel_stack_position p) = ?t - 0x2000"
    by (simp add: kernel_stack_position_def)
  then show ?thesis
    using unat_sub [OF le] unat_stack_top [OF assms] by simp
qed

lemma take_bit_stack:
  assumes "stack_pid p"
  shows "unat (take_bit 39 (snd (kernel_stack_position p))) = 2 ^ 39 - 4096 - unat p * 12288"
    and "unat (take_bit 39 (fst (kernel_stack_position p))) = 2 ^ 39 - 4096 - unat p * 12288 - 8192"
proof -
  let ?k = "unat p * 12288"
  have k: "?k + 12288 \<le> 2 ^ 39 - 4096"
    using assms by (simp add: stack_pid_def)
  have "(2 ^ 64 - 4096 - ?k) mod 2 ^ 39 = (2 ^ 39 - 4096 - ?k :: nat)"
  proof -
    have "2 ^ 64 - 4096 - ?k = (2 ^ 39 - 4096 - ?k) + (2 ^ 25 - 1) * 2 ^ 39"
      using k by simp
    then show ?thesis using k by (simp only: mod_mult_self1) simp
  qed
  moreover have "(2 ^ 64 - 4096 - ?k - 8192) mod 2 ^ 39 = (2 ^ 39 - 4096 - ?k - 8192 :: nat)"
  proof -
    have "2 ^ 64 - 4096 - ?k - 8192 = (2 ^ 39 - 4096 - ?k - 8192) + (2 ^ 25 - 1) * 2 ^ 39"
      using k by simp
    then show ?thesis using k by (simp only: mod_mult_self1) simp
  qed
  ultimately show "unat (take_bit 39 (snd (kernel_stack_position p))) = 2 ^ 39 - 4096 - ?k"
    and "unat (take_bit 39 (fst (kernel_stack_position p))) = 2 ^ 39 - 4096 - ?k - 8192"
    using unat_stack_top [OF assms] unat_stack_bottom [OF assms]
    by (simp_all only: unat_take_bit)
qed

end
