(* ===== verification/Address.thy ===== *)
theory Address
  imports Config
begin

text \<open>
  The address and page-number types of \<^verbatim>\<open>src/os/src/mm/address.rs\<close>: conversions from and to
  \<open>usize\<close>, rounding, the three page-table indexes of a virtual page number, and the range
  \<open>VPNRange\<close> with its iterator.  The lemmas show that rounding and the conversions are inverse
  where the code relies on it, that the indexes determine the low 27 bits of a page number, and
  that the iterator yields the pages of the range in order.
\<close>

subsection \<open>The four tuple structs and their derived order\<close>

definition PA_WIDTH_SV39 :: nat where
  [simp]: "PA_WIDTH_SV39 = 56"

definition PPN_WIDTH_SV39 :: nat where
  [simp]: "PPN_WIDTH_SV39 = PA_WIDTH_SV39 - PAGE_SIZE_BITS"

definition VA_WIDTH_SV39 :: nat where
  [simp]: "VA_WIDTH_SV39 = 39"

definition VPN_WIDTH_SV39 :: nat where
  [simp]: "VPN_WIDTH_SV39 = VA_WIDTH_SV39 - PAGE_SIZE_BITS"

datatype PhysAddr = PhysAddr (pa_bits: usize)
datatype VirtAddr = VirtAddr (va_bits: usize)
datatype PhysPageNum = PhysPageNum (ppn_bits: usize)
datatype VirtPageNum = VirtPageNum (vpn_bits: usize)

instantiation PhysAddr :: linorder
begin
definition less_eq_PhysAddr :: "PhysAddr \<Rightarrow> PhysAddr \<Rightarrow> bool" where
  "less_eq_PhysAddr a b \<longleftrightarrow> pa_bits a \<le> pa_bits b"
definition less_PhysAddr :: "PhysAddr \<Rightarrow> PhysAddr \<Rightarrow> bool" where
  "less_PhysAddr a b \<longleftrightarrow> pa_bits a < pa_bits b"
instance
  by standard (auto simp: less_eq_PhysAddr_def less_PhysAddr_def PhysAddr.expand)
end

instantiation VirtAddr :: linorder
begin
definition less_eq_VirtAddr :: "VirtAddr \<Rightarrow> VirtAddr \<Rightarrow> bool" where
  "less_eq_VirtAddr a b \<longleftrightarrow> va_bits a \<le> va_bits b"
definition less_VirtAddr :: "VirtAddr \<Rightarrow> VirtAddr \<Rightarrow> bool" where
  "less_VirtAddr a b \<longleftrightarrow> va_bits a < va_bits b"
instance
  by standard (auto simp: less_eq_VirtAddr_def less_VirtAddr_def VirtAddr.expand)
end

instantiation PhysPageNum :: linorder
begin
definition less_eq_PhysPageNum :: "PhysPageNum \<Rightarrow> PhysPageNum \<Rightarrow> bool" where
  "less_eq_PhysPageNum a b \<longleftrightarrow> ppn_bits a \<le> ppn_bits b"
definition less_PhysPageNum :: "PhysPageNum \<Rightarrow> PhysPageNum \<Rightarrow> bool" where
  "less_PhysPageNum a b \<longleftrightarrow> ppn_bits a < ppn_bits b"
instance
  by standard (auto simp: less_eq_PhysPageNum_def less_PhysPageNum_def PhysPageNum.expand)
end

instantiation VirtPageNum :: linorder
begin
definition less_eq_VirtPageNum :: "VirtPageNum \<Rightarrow> VirtPageNum \<Rightarrow> bool" where
  "less_eq_VirtPageNum a b \<longleftrightarrow> vpn_bits a \<le> vpn_bits b"
definition less_VirtPageNum :: "VirtPageNum \<Rightarrow> VirtPageNum \<Rightarrow> bool" where
  "less_VirtPageNum a b \<longleftrightarrow> vpn_bits a < vpn_bits b"
instance
  by standard (auto simp: less_eq_VirtPageNum_def less_VirtPageNum_def VirtPageNum.expand)
end

subsection \<open>Conversions from \<open>usize\<close>\<close>

definition PhysAddr_from :: "usize \<Rightarrow> PhysAddr" where
  "PhysAddr_from v = PhysAddr (v AND (push_bit PA_WIDTH_SV39 1 - 1))"

definition PhysPageNum_from :: "usize \<Rightarrow> PhysPageNum" where
  "PhysPageNum_from v = PhysPageNum (v AND (push_bit PPN_WIDTH_SV39 1 - 1))"

definition VirtAddr_from :: "usize \<Rightarrow> VirtAddr" where
  "VirtAddr_from v = VirtAddr (v AND (push_bit VA_WIDTH_SV39 1 - 1))"

definition VirtPageNum_from :: "usize \<Rightarrow> VirtPageNum" where
  "VirtPageNum_from v = VirtPageNum (v AND (push_bit VPN_WIDTH_SV39 1 - 1))"

subsection \<open>Rounding and offsets\<close>

definition va_floor :: "VirtAddr \<Rightarrow> VirtPageNum" where
  "va_floor a = VirtPageNum (va_bits a div PAGE_SIZE)"

definition va_ceil :: "VirtAddr \<Rightarrow> VirtPageNum" where
  "va_ceil a = VirtPageNum ((va_bits a + PAGE_SIZE - 1) div PAGE_SIZE)"

definition va_page_offset :: "VirtAddr \<Rightarrow> usize" where
  "va_page_offset a = va_bits a AND (PAGE_SIZE - 1)"

definition va_aligned :: "VirtAddr \<Rightarrow> bool" where
  "va_aligned a \<longleftrightarrow> va_page_offset a = 0"

definition VirtPageNum_from_va :: "VirtAddr \<Rightarrow> VirtPageNum result" where
  "VirtPageNum_from_va v =
     bind (assert_that (va_page_offset v = 0) (NotAligned (va_page_offset v))) (\<lambda>_. Inr (va_floor v))"

definition VirtAddr_from_vpn :: "VirtPageNum \<Rightarrow> VirtAddr" where
  "VirtAddr_from_vpn v = VirtAddr (push_bit PAGE_SIZE_BITS (vpn_bits v))"

definition pa_floor :: "PhysAddr \<Rightarrow> PhysPageNum" where
  "pa_floor a = PhysPageNum (pa_bits a div PAGE_SIZE)"

definition pa_ceil :: "PhysAddr \<Rightarrow> PhysPageNum" where
  "pa_ceil a = PhysPageNum ((pa_bits a + PAGE_SIZE - 1) div PAGE_SIZE)"

definition pa_page_offset :: "PhysAddr \<Rightarrow> usize" where
  "pa_page_offset a = pa_bits a AND (PAGE_SIZE - 1)"

definition pa_aligned :: "PhysAddr \<Rightarrow> bool" where
  "pa_aligned a \<longleftrightarrow> pa_page_offset a = 0"

definition PhysPageNum_from_pa :: "PhysAddr \<Rightarrow> PhysPageNum result" where
  "PhysPageNum_from_pa v =
     bind (assert_that (pa_page_offset v = 0) (NotAligned (pa_page_offset v))) (\<lambda>_. Inr (pa_floor v))"

definition PhysAddr_from_ppn :: "PhysPageNum \<Rightarrow> PhysAddr" where
  "PhysAddr_from_ppn v = PhysAddr (push_bit PAGE_SIZE_BITS (ppn_bits v))"

subsection \<open>The page-table indexes of a virtual page number\<close>

text \<open>
  The loop runs over \<open>i = 2, 1, 0\<close>: it stores the low nine bits at \<open>idx[i]\<close> and shifts.
\<close>

fun indexes_loop :: "nat \<Rightarrow> usize \<Rightarrow> usize list \<Rightarrow> usize list" where
  "indexes_loop 0 vpn idx = idx"
| "indexes_loop (Suc i) vpn idx = indexes_loop i (drop_bit 9 vpn) (idx[i := vpn AND 511])"

definition indexes :: "VirtPageNum \<Rightarrow> usize list" where
  "indexes v = indexes_loop 3 (vpn_bits v) [0, 0, 0]"

subsection \<open>Ranges of virtual pages and their iterator\<close>

definition vpn_step :: "VirtPageNum \<Rightarrow> VirtPageNum" where
  "vpn_step v = VirtPageNum (vpn_bits v + 1)"

record VPNRange =
  range_l :: VirtPageNum
  range_r :: VirtPageNum

definition VPNRange_new :: "VirtPageNum \<Rightarrow> VirtPageNum \<Rightarrow> VPNRange result" where
  "VPNRange_new start end =
     bind (assert_that (start \<le> end) (BadRange (vpn_bits start) (vpn_bits end)))
       (\<lambda>_. Inr \<lparr>range_l = start, range_r = end\<rparr>)"

definition get_start :: "VPNRange \<Rightarrow> VirtPageNum" where
  "get_start r = range_l r"

definition get_end :: "VPNRange \<Rightarrow> VirtPageNum" where
  "get_end r = range_r r"

record VPNRangeIterator =
  it_current :: VirtPageNum
  it_end :: VirtPageNum

definition into_iter :: "VPNRange \<Rightarrow> VPNRangeIterator" where
  "into_iter r = \<lparr>it_current = range_l r, it_end = range_r r\<rparr>"

definition iter_next :: "VPNRangeIterator \<Rightarrow> VirtPageNum option \<times> VPNRangeIterator" where
  "iter_next it =
     (if it_current it = it_end it then (None, it)
      else (Some (it_current it), it\<lparr>it_current := vpn_step (it_current it)\<rparr>))"

text \<open>The items a \<open>for\<close> loop takes from the iterator until it returns \<open>None\<close>.\<close>

function iter_items :: "VPNRangeIterator \<Rightarrow> VirtPageNum list" where
  "iter_items it =
     (case iter_next it of (None, _) \<Rightarrow> [] | (Some v, it') \<Rightarrow> v # iter_items it')"
  by pat_completeness auto

termination iter_items
proof (relation "measure (\<lambda>it. unat (vpn_bits (it_end it) - vpn_bits (it_current it)))", goal_cases)
  case 1
  then show ?case by simp
next
  case (2 it o' it' v)
  then have ne: "it_current it \<noteq> it_end it" and it': "it' = it\<lparr>it_current := vpn_step (it_current it)\<rparr>"
    by (auto simp: iter_next_def split: if_splits)
  let ?d = "vpn_bits (it_end it) - vpn_bits (it_current it)"
  have "?d \<noteq> 0"
    using ne by (metis VirtPageNum.expand right_minus_eq)
  then have "unat (?d - 1) < unat ?d"
    by (simp add: unat_minus_1 unat_gt_0)
  then show ?case
    using it' by (simp add: vpn_step_def algebra_simps)
qed

declare iter_items.simps [simp del]

definition range_items :: "VPNRange \<Rightarrow> VirtPageNum list" where
  "range_items r = iter_items (into_iter r)"

subsection \<open>Values as natural numbers\<close>

named_theorems addr_simps

lemma PhysAddr_from_bits [simp]: "pa_bits (PhysAddr_from v) = take_bit 56 v"
  by (simp only: PhysAddr_from_def and_low_bits) simp

lemma PhysPageNum_from_bits [simp]: "ppn_bits (PhysPageNum_from v) = take_bit 44 v"
  by (simp only: PhysPageNum_from_def and_low_bits) simp

lemma VirtAddr_from_bits [simp]: "va_bits (VirtAddr_from v) = take_bit 39 v"
  by (simp only: VirtAddr_from_def and_low_bits) simp

lemma VirtPageNum_from_bits [simp]: "vpn_bits (VirtPageNum_from v) = take_bit 27 v"
  by (simp only: VirtPageNum_from_def and_low_bits) simp

lemma PhysPageNum_from_id: "unat v < 2 ^ 44 \<Longrightarrow> PhysPageNum_from v = PhysPageNum v"
  by (rule PhysPageNum.expand) (simp add: take_bit_eq_self_if_less)

lemma and_0xFFF [simp]: "w AND 0xFFF = take_bit 12 w" for w :: usize
  using and_low_bits [of w 12] by simp

lemma va_page_offset_take [simp]: "va_page_offset a = take_bit 12 (va_bits a)"
  by (simp add: va_page_offset_def)

lemma pa_page_offset_take [simp]: "pa_page_offset a = take_bit 12 (pa_bits a)"
  by (simp add: pa_page_offset_def)

lemma unat_va_floor [addr_simps]: "unat (vpn_bits (va_floor a)) = unat (va_bits a) div 4096"
  by (simp add: va_floor_def unat_div)

lemma unat_pa_floor [addr_simps]: "unat (ppn_bits (pa_floor a)) = unat (pa_bits a) div 4096"
  by (simp add: pa_floor_def unat_div)

lemma unat_round_up:
  assumes "unat w + 4096 \<le> 2 ^ 64"
  shows "unat ((w + PAGE_SIZE - 1) div PAGE_SIZE) = (unat w + 4095) div 4096"
proof -
  have "w + PAGE_SIZE - 1 = w + 0xFFF"
    by simp
  moreover have "unat (w + 0xFFF) = unat w + 4095"
    using assms by (subst unat_add_less) simp_all
  ultimately show ?thesis
    by (simp only: unat_div) simp
qed

lemma unat_va_ceil [addr_simps]:
  "unat (va_bits a) + 4096 \<le> 2 ^ 64 \<Longrightarrow> unat (vpn_bits (va_ceil a)) = (unat (va_bits a) + 4095) div 4096"
  by (simp only: va_ceil_def VirtPageNum.sel unat_round_up)

lemma unat_pa_ceil [addr_simps]:
  "unat (pa_bits a) + 4096 \<le> 2 ^ 64 \<Longrightarrow> unat (ppn_bits (pa_ceil a)) = (unat (pa_bits a) + 4095) div 4096"
  by (simp only: pa_ceil_def PhysPageNum.sel unat_round_up)

lemma unat_page_base:
  "unat w < 2 ^ 52 \<Longrightarrow> unat (push_bit PAGE_SIZE_BITS w) = unat w * 4096" for w :: usize
  by (simp add: unat_push_bit)

lemma unat_VirtAddr_from_vpn [addr_simps]:
  "unat (vpn_bits v) < 2 ^ 52 \<Longrightarrow> unat (va_bits (VirtAddr_from_vpn v)) = unat (vpn_bits v) * 4096"
  by (simp only: VirtAddr_from_vpn_def VirtAddr.sel unat_page_base)

lemma unat_PhysAddr_from_ppn [addr_simps]:
  "unat (ppn_bits v) < 2 ^ 52 \<Longrightarrow> unat (pa_bits (PhysAddr_from_ppn v)) = unat (ppn_bits v) * 4096"
  by (simp only: PhysAddr_from_ppn_def PhysAddr.sel unat_page_base)

text \<open>Two values are equal when their numbers are: the rule that ends the proofs below.\<close>

lemma VirtPageNum_eqI: "unat (vpn_bits a) = unat (vpn_bits b) \<Longrightarrow> a = b"
  by (simp add: VirtPageNum.expand word_unat_eq_iff)

lemma VirtAddr_eqI: "unat (va_bits a) = unat (va_bits b) \<Longrightarrow> a = b"
  by (simp add: VirtAddr.expand word_unat_eq_iff)

lemma PhysPageNum_eqI: "unat (ppn_bits a) = unat (ppn_bits b) \<Longrightarrow> a = b"
  by (simp add: PhysPageNum.expand word_unat_eq_iff)

lemma take_bit_12_eq_0_iff: "take_bit 12 w = 0 \<longleftrightarrow> unat w mod 4096 = 0" for w :: usize
  by (simp add: word_unat_eq_iff unat_take_bit)

lemma va_split: "unat (va_bits a) = unat (vpn_bits (va_floor a)) * 4096 + unat (va_page_offset a)"
  by (simp add: addr_simps word_facts)

lemma va_floor_le_ceil:
  "unat (va_bits a) + 4096 \<le> 2 ^ 64 \<Longrightarrow> va_floor a \<le> va_ceil a"
  by (simp add: less_eq_VirtPageNum_def word_le_nat_alt addr_simps div_le_mono)

lemma va_ceil_aligned:
  assumes "unat (va_bits a) + 4096 \<le> 2 ^ 64"
  shows "va_ceil a = va_floor a \<longleftrightarrow> va_aligned a"
proof -
  have "va_ceil a = va_floor a \<longleftrightarrow> (unat (va_bits a) + 4095) div 4096 = unat (va_bits a) div 4096"
    using assms by (metis unat_va_ceil unat_va_floor VirtPageNum_eqI)
  also have "\<dots> \<longleftrightarrow> unat (va_bits a) mod 4096 = 0"
    by (simp add: round_up_nat)
  finally show ?thesis
    by (simp add: va_aligned_def take_bit_12_eq_0_iff)
qed

subsection \<open>Conversions between addresses and page numbers\<close>

lemma VirtPageNum_from_va_aligned:
  "va_aligned v \<Longrightarrow> VirtPageNum_from_va v = Inr (va_floor v)"
  by (simp add: VirtPageNum_from_va_def va_aligned_def)

lemma VirtPageNum_from_va_unaligned:
  "\<not> va_aligned v \<Longrightarrow> VirtPageNum_from_va v = Inl (NotAligned (va_page_offset v))"
  by (simp add: VirtPageNum_from_va_def va_aligned_def)

lemma vpn_va_vpn:
  assumes "unat (vpn_bits v) < 2 ^ 52"
  shows "VirtPageNum_from_va (VirtAddr_from_vpn v) = Inr v"
proof -
  have n: "unat (va_bits (VirtAddr_from_vpn v)) = unat (vpn_bits v) * 4096"
    using assms by (simp add: addr_simps)
  have "va_aligned (VirtAddr_from_vpn v)"
    by (simp add: va_aligned_def take_bit_12_eq_0_iff n)
  moreover have "va_floor (VirtAddr_from_vpn v) = v"
    by (rule VirtPageNum_eqI) (simp add: unat_va_floor n)
  ultimately show ?thesis
    by (simp add: VirtPageNum_from_va_aligned)
qed

lemma va_vpn_va:
  assumes "va_aligned v"
  shows "VirtAddr_from_vpn (va_floor v) = v"
proof -
  have mod: "unat (va_bits v) mod 4096 = 0"
    using assms by (simp add: va_aligned_def take_bit_12_eq_0_iff)
  have "unat (vpn_bits (va_floor v)) < 2 ^ 52"
    using unat_usize_less [of "va_bits v"] by (simp add: unat_va_floor less_mult_imp_div_less)
  then show ?thesis
    using mod div_mult_mod_eq [of "unat (va_bits v)" 4096]
    by (intro VirtAddr_eqI) (simp add: unat_VirtAddr_from_vpn unat_va_floor)
qed

lemma ppn_pa_ppn:
  assumes "unat (ppn_bits v) < 2 ^ 52"
  shows "PhysPageNum_from_pa (PhysAddr_from_ppn v) = Inr v"
proof -
  have n: "unat (pa_bits (PhysAddr_from_ppn v)) = unat (ppn_bits v) * 4096"
    using assms by (simp add: addr_simps)
  have "take_bit 12 (pa_bits (PhysAddr_from_ppn v)) = 0"
    by (simp add: take_bit_12_eq_0_iff n)
  moreover have "pa_floor (PhysAddr_from_ppn v) = v"
    by (rule PhysPageNum_eqI) (simp add: unat_pa_floor n)
  ultimately show ?thesis
    by (simp add: PhysPageNum_from_pa_def)
qed

subsection \<open>Indexes\<close>

lemma and_511 [simp]: "w AND 511 = take_bit 9 w" for w :: usize
  using and_low_bits [of w 9] by simp

lemma indexes_eq:
  "indexes v =
     [take_bit 9 (drop_bit 18 (vpn_bits v)), take_bit 9 (drop_bit 9 (vpn_bits v)), take_bit 9 (vpn_bits v)]"
  by (simp add: indexes_def numeral_3_eq_3)

lemma length_indexes [simp]: "length (indexes v) = 3"
  by (simp add: indexes_eq)

lemma take_bit_9_less: "unat (take_bit 9 w) < 512" for w :: usize
  by (simp add: unat_take_bit)

lemma indexes_less: "i \<in> set (indexes v) \<Longrightarrow> unat i < 512"
  by (auto simp: indexes_eq take_bit_9_less)

lemma indexes_recompose:
  "push_bit 18 (indexes v ! 0) OR push_bit 9 (indexes v ! 1) OR indexes v ! 2 = take_bit 27 (vpn_bits v)"
proof -
  have "push_bit 18 (take_bit 9 (drop_bit 18 w)) OR push_bit 9 (take_bit 9 (drop_bit 9 w)) OR take_bit 9 w
      = take_bit 27 w" for w :: usize
  proof (rule bit_word_eqI)
    fix n :: nat
    consider "n < 9" | "9 \<le> n" "n < 18" | "18 \<le> n" by linarith
    then show "bit (push_bit 18 (take_bit 9 (drop_bit 18 w)) OR push_bit 9 (take_bit 9 (drop_bit 9 w)) OR
        take_bit 9 w) n = bit (take_bit 27 w) n"
      by cases (auto simp: bit_simps)
  qed
  then show ?thesis by (simp add: indexes_eq)
qed

lemma indexes_inject:
  "indexes v = indexes w \<longleftrightarrow> take_bit 27 (vpn_bits v) = take_bit 27 (vpn_bits w)"
proof
  assume "indexes v = indexes w"
  then show "take_bit 27 (vpn_bits v) = take_bit 27 (vpn_bits w)"
    by (metis indexes_recompose)
next
  have *: "indexes u = indexes (VirtPageNum (take_bit 27 (vpn_bits u)))" for u
    by (simp add: indexes_eq) (auto intro!: bit_word_eqI simp: bit_simps)
  assume "take_bit 27 (vpn_bits v) = take_bit 27 (vpn_bits w)"
  then show "indexes v = indexes w"
    using * [of v] * [of w] by simp
qed

text \<open>The page numbers that Sv39 can address, on which the indexes are a key.\<close>

definition vpn_ok :: "VirtPageNum \<Rightarrow> bool" where
  "vpn_ok v \<longleftrightarrow> unat (vpn_bits v) < 2 ^ 27"

lemma indexes_eq_iff: "vpn_ok v \<Longrightarrow> vpn_ok w \<Longrightarrow> indexes v = indexes w \<longleftrightarrow> v = w"
  unfolding vpn_ok_def
  by (simp only: indexes_inject take_bit_eq_self_if_less) (auto intro: VirtPageNum.expand)

subsection \<open>Ranges\<close>

lemma iter_items_upt:
  assumes "unat (vpn_bits l) \<le> unat (vpn_bits r)"
  shows "iter_items \<lparr>it_current = l, it_end = r\<rparr> =
     map (\<lambda>k. VirtPageNum (of_nat k)) [unat (vpn_bits l)..<unat (vpn_bits r)]"
  using assms
proof (induction "unat (vpn_bits r) - unat (vpn_bits l)" arbitrary: l)
  case 0
  then have "l = r" by (intro VirtPageNum_eqI) simp
  then show ?case by (simp add: iter_items.simps iter_next_def)
next
  case (Suc d)
  then have lt: "unat (vpn_bits l) < unat (vpn_bits r)" and ne: "l \<noteq> r" by auto
  have step: "unat (vpn_bits (vpn_step l)) = Suc (unat (vpn_bits l))"
  proof -
    have "unat (vpn_bits l) + 1 < 2 ^ 64"
      using lt unat_usize_less [of "vpn_bits r"] by simp
    then show ?thesis
      by (simp add: vpn_step_def unat_add_less)
  qed
  have "iter_items \<lparr>it_current = vpn_step l, it_end = r\<rparr> =
      map (\<lambda>k. VirtPageNum (of_nat k)) [Suc (unat (vpn_bits l))..<unat (vpn_bits r)]"
    using Suc(1) [of "vpn_step l"] Suc(2) lt step by simp
  then show ?case
    using ne lt by (simp add: iter_items.simps [of "\<lparr>it_current = l, it_end = r\<rparr>"] iter_next_def upt_conv_Cons)
qed

lemma VPNRange_new_Inr:
  "VPNRange_new s e = Inr r \<longleftrightarrow> s \<le> e \<and> r = \<lparr>range_l = s, range_r = e\<rparr>"
  by (auto simp: VPNRange_new_def res_simps)

lemma range_items_upt:
  "range_l r \<le> range_r r \<Longrightarrow>
   range_items r = map (\<lambda>k. VirtPageNum (of_nat k)) [unat (vpn_bits (range_l r))..<unat (vpn_bits (range_r r))]"
  by (simp add: range_items_def into_iter_def iter_items_upt less_eq_VirtPageNum_def word_le_nat_alt)

lemma set_range_items:
  assumes "range_l r \<le> range_r r"
  shows "set (range_items r) = {v. range_l r \<le> v \<and> v < range_r r}"
proof -
  have "v \<in> set (range_items r) \<longleftrightarrow> range_l r \<le> v \<and> v < range_r r" for v
  proof -
    have v: "v = VirtPageNum (of_nat k) \<longleftrightarrow> k = unat (vpn_bits v)" if "k < unat (vpn_bits (range_r r))" for k
      using that unat_usize_less [of "vpn_bits (range_r r)"] by (cases v) auto
    have "v \<in> set (range_items r) \<longleftrightarrow>
        (\<exists>k. unat (vpn_bits (range_l r)) \<le> k \<and> k < unat (vpn_bits (range_r r)) \<and> k = unat (vpn_bits v))"
      using assms v by (auto simp: range_items_upt image_iff)
    then show ?thesis
      by (auto simp: less_eq_VirtPageNum_def less_VirtPageNum_def word_le_nat_alt word_less_nat_alt)
  qed
  then show ?thesis by blast
qed

lemma distinct_range_items:
  assumes "range_l r \<le> range_r r"
  shows "distinct (range_items r)"
proof -
  have "inj_on (\<lambda>k. VirtPageNum (of_nat k)) {unat (vpn_bits (range_l r))..<unat (vpn_bits (range_r r))}"
  proof (rule inj_onI)
    fix x y
    assume "x \<in> {unat (vpn_bits (range_l r))..<unat (vpn_bits (range_r r))}"
      and "y \<in> {unat (vpn_bits (range_l r))..<unat (vpn_bits (range_r r))}"
      and eq: "VirtPageNum (of_nat x) = VirtPageNum (of_nat y)"
    then have "x < 2 ^ 64" "y < 2 ^ 64"
      using unat_usize_less [of "vpn_bits (range_r r)"] by auto
    with eq show "x = y"
      by (metis VirtPageNum.inject unat_of_nat_less)
  qed
  with assms show ?thesis
    by (simp add: range_items_upt distinct_map)
qed

lemma length_range_items:
  "range_l r \<le> range_r r \<Longrightarrow>
   length (range_items r) = unat (vpn_bits (range_r r)) - unat (vpn_bits (range_l r))"
  by (simp add: range_items_upt)

text \<open>The ranges that \<open>MapArea::new\<close> builds from 39-bit addresses.\<close>

definition range_ok :: "VPNRange \<Rightarrow> bool" where
  "range_ok r \<longleftrightarrow> range_l r \<le> range_r r \<and> unat (vpn_bits (range_r r)) \<le> 2 ^ 27"

lemma range_items_ok:
  assumes "range_ok r"
  shows "distinct (range_items r)" and "v \<in> set (range_items r) \<Longrightarrow> vpn_ok v"
    and "range_items r = vs @ v # ws \<Longrightarrow> \<forall>k \<in> set vs. k < v"
    and "i < length (range_items r) \<Longrightarrow> range_items r ! i = VirtPageNum (vpn_bits (range_l r) + of_nat i)"
proof -
  have r: "range_l r \<le> range_r r" and b: "unat (vpn_bits (range_r r)) \<le> 2 ^ 27"
    using assms by (auto simp: range_ok_def)
  show d: "distinct (range_items r)" using r by (rule distinct_range_items)
  show "vpn_ok v" if "v \<in> set (range_items r)"
    using that b unfolding set_range_items [OF r] vpn_ok_def
    by (simp add: less_VirtPageNum_def word_less_nat_alt)
  show nth: "range_items r ! i = VirtPageNum (vpn_bits (range_l r) + of_nat i)" if "i < length (range_items r)" for i
    using that r by (simp add: range_items_upt)
  have num: "unat (vpn_bits (range_items r ! i)) = unat (vpn_bits (range_l r)) + i" if "i < length (range_items r)" for i
    using that r b nth [OF that] length_range_items [OF r]
    by (simp add: unat_add_less)
  show "\<forall>k \<in> set vs. k < v" if eq: "range_items r = vs @ v # ws"
  proof
    fix k
    assume "k \<in> set vs"
    then obtain i where i: "i < length vs" "vs ! i = k" by (auto simp: in_set_conv_nth)
    have "unat (vpn_bits k) = unat (vpn_bits (range_l r)) + i" "unat (vpn_bits v) = unat (vpn_bits (range_l r)) + length vs"
      using num [of i] num [of "length vs"] eq i by (auto simp: nth_append)
    with i(1) show "k < v" by (simp add: less_VirtPageNum_def word_less_nat_alt)
  qed
qed

end
