(* ===== verification/Phys_Memory.thy ===== *)
theory Phys_Memory
  imports Address
begin

text \<open>
  Physical memory as the kernel sees it through the identity mapping: one byte at every address.
  The raw views of \<^verbatim>\<open>src/os/src/mm/address.rs\<close> (\<open>get_bytes_array\<close>, \<open>get_pte_array\<close>, \<open>get_mut\<close>)
  are addresses into it, and a slice \<open>&mut [u8]\<close> is a pointer with a length.  The machine is
  little-endian.  The lemmas are the frame rules of the development: what a write to one page or
  one page-table slot leaves as it was.
\<close>

type_synonym memory = "usize \<Rightarrow> u8"

definition read_bytes :: "memory \<Rightarrow> usize \<Rightarrow> nat \<Rightarrow> u8 list" where
  "read_bytes m a n = map (\<lambda>k. m (a + of_nat k)) [0..<n]"

definition write_bytes :: "memory \<Rightarrow> usize \<Rightarrow> u8 list \<Rightarrow> memory" where
  "write_bytes m a bs = (\<lambda>x. if unat (x - a) < length bs then bs ! unat (x - a) else m x)"

definition read_u64 :: "memory \<Rightarrow> usize \<Rightarrow> usize" where
  "read_u64 m a = of_le_bytes (read_bytes m a 8)"

definition write_u64 :: "memory \<Rightarrow> usize \<Rightarrow> usize \<Rightarrow> memory" where
  "write_u64 m a w = write_bytes m a (le_bytes 8 w)"

subsection \<open>Slices\<close>

record slice =
  slice_ptr :: usize
  slice_len :: usize

definition slice_read :: "memory \<Rightarrow> slice \<Rightarrow> u8 list" where
  "slice_read m s = read_bytes m (slice_ptr s) (unat (slice_len s))"

text \<open>\<open>for i in s { *i = b }\<close>\<close>

definition slice_fill :: "memory \<Rightarrow> slice \<Rightarrow> u8 \<Rightarrow> memory" where
  "slice_fill m s b = (\<lambda>x. if unat (x - slice_ptr s) < unat (slice_len s) then b else m x)"

text \<open>\<open>&s[a..b]\<close>, \<open>&s[a..]\<close> and \<open>&s[..b]\<close>\<close>

definition slice_range :: "slice \<Rightarrow> usize \<Rightarrow> usize \<Rightarrow> slice result" where
  "slice_range s a b =
     (if a \<le> b \<and> b \<le> slice_len s then Inr \<lparr>slice_ptr = slice_ptr s + a, slice_len = b - a\<rparr>
      else Inl (SliceIndex a b))"

definition slice_from :: "slice \<Rightarrow> usize \<Rightarrow> slice result" where
  "slice_from s a = slice_range s a (slice_len s)"

definition slice_to :: "slice \<Rightarrow> usize \<Rightarrow> slice result" where
  "slice_to s b = slice_range s 0 b"

text \<open>\<open>dst.copy_from_slice(src)\<close> panics when the lengths differ.\<close>

definition copy_from_slice :: "memory \<Rightarrow> slice \<Rightarrow> u8 list \<Rightarrow> memory result" where
  "copy_from_slice m dst src =
     (if unat (slice_len dst) = length src then Inr (write_bytes m (slice_ptr dst) src)
      else Inl (SliceIndex (slice_len dst) (of_nat (length src))))"

subsection \<open>Views of a physical page\<close>

definition page_base :: "PhysPageNum \<Rightarrow> usize" where
  "page_base p = pa_bits (PhysAddr_from_ppn p)"

definition get_bytes_array :: "PhysPageNum \<Rightarrow> slice" where
  "get_bytes_array p = \<lparr>slice_ptr = page_base p, slice_len = 4096\<rparr>"

text \<open>
  The address of entry \<open>i\<close> of \<open>get_pte_array()\<close>: 512 entries of eight bytes.  The code indexes
  the array with values of \<open>indexes\<close> only, which are below 512 (\<open>indexes_less\<close>).
\<close>

definition get_pte_array :: "PhysPageNum \<Rightarrow> usize \<Rightarrow> usize" where
  "get_pte_array p i = page_base p + 8 * i"

text \<open>\<open>(addr as *mut T).as_mut().unwrap()\<close>: the null pointer gives \<open>None\<close>.\<close>

definition as_mut_unwrap :: "usize \<Rightarrow> usize result" where
  "as_mut_unwrap a = unwrap (if a = 0 then None else Some a)"

definition pa_get_mut :: "PhysAddr \<Rightarrow> usize result" where
  "pa_get_mut p = as_mut_unwrap (pa_bits p)"

definition ppn_get_mut :: "PhysPageNum \<Rightarrow> usize result" where
  "ppn_get_mut p = (let pa = PhysAddr_from_ppn p in as_mut_unwrap (pa_bits pa))"

subsection \<open>Reading what was written\<close>

lemma length_read_bytes [simp]: "length (read_bytes m a n) = n"
  by (simp add: read_bytes_def)

lemma nth_read_bytes [simp]: "k < n \<Longrightarrow> read_bytes m a n ! k = m (a + of_nat k)"
  by (simp add: read_bytes_def)

lemma read_write_bytes:
  assumes "length bs < 2 ^ 64"
  shows "read_bytes (write_bytes m a bs) a (length bs) = bs"
  using assms by (intro nth_equalityI) (simp_all add: write_bytes_def)

lemma read_bytes_cong: "(\<And>k. k < n \<Longrightarrow> m (a + of_nat k) = m' (a + of_nat k)) \<Longrightarrow> read_bytes m a n = read_bytes m' a n"
  by (simp add: read_bytes_def)

lemma unat_diff_less_iff:
  fixes a x :: usize
  assumes "unat a + n \<le> 2 ^ 64" and "n < 2 ^ 64"
  shows "unat (x - a) < n \<longleftrightarrow> unat a \<le> unat x \<and> unat x < unat a + n"
proof (cases "a \<le> x")
  case True
  then show ?thesis
    by (auto simp: unat_sub word_le_nat_alt)
next
  case False
  then have "unat (x - a) = 2 ^ 64 - unat a + unat x"
    using unat_usize_less [of a] by (simp add: unat_sub_if' word_le_nat_alt)
  with False assms show ?thesis
    by (simp add: word_le_nat_alt)
qed

subsection \<open>Pages\<close>

text \<open>The page numbers whose addresses fit \<open>usize\<close>: \<open>ppn_ok\<close> holds of every 44-bit number.\<close>

definition ppn_ok :: "PhysPageNum \<Rightarrow> bool" where
  "ppn_ok p \<longleftrightarrow> unat (ppn_bits p) < 2 ^ 44"

definition in_page :: "PhysPageNum \<Rightarrow> usize \<Rightarrow> bool" where
  "in_page p a \<longleftrightarrow> unat a div 4096 = unat (ppn_bits p)"

lemma unat_page_base_ok: "ppn_ok p \<Longrightarrow> unat (page_base p) = unat (ppn_bits p) * 4096"
  by (simp add: page_base_def ppn_ok_def addr_simps)

lemma unat_page_base_plus:
  assumes "ppn_ok p" and "unat off < 4096"
  shows "unat (page_base p + off) = unat (ppn_bits p) * 4096 + unat off"
  using assms by (subst unat_add_less) (simp_all add: unat_page_base_ok ppn_ok_def)

lemma in_page_base_plus:
  assumes "ppn_ok p" and "unat off < 4096"
  shows "in_page p (page_base p + off)"
  by (simp add: in_page_def unat_page_base_plus assms)

lemma in_page_inj: "in_page p a \<Longrightarrow> in_page q a \<Longrightarrow> p = q"
  by (auto simp: in_page_def intro: PhysPageNum_eqI)

lemma in_page_bytes_iff:
  assumes "ppn_ok p"
  shows "unat (x - page_base p) < 4096 \<longleftrightarrow> in_page p x"
proof -
  have "unat (page_base p) + 4096 \<le> 2 ^ 64"
    using assms by (simp add: unat_page_base_ok ppn_ok_def)
  then have "unat (x - page_base p) < 4096 \<longleftrightarrow>
      unat (ppn_bits p) * 4096 \<le> unat x \<and> unat x < unat (ppn_bits p) * 4096 + 4096"
    using assms by (simp add: unat_diff_less_iff unat_page_base_ok)
  also have "\<dots> \<longleftrightarrow> unat x div 4096 = unat (ppn_bits p)"
    by (auto intro: div_nat_eqI simp: dividend_less_times_div)
  finally show ?thesis by (simp add: in_page_def)
qed

text \<open>A memory changed only inside the pages of a set.\<close>

definition same_outside :: "PhysPageNum set \<Rightarrow> memory \<Rightarrow> memory \<Rightarrow> bool" where
  "same_outside P m m' \<longleftrightarrow> (\<forall>a. (\<forall>p \<in> P. \<not> in_page p a) \<longrightarrow> m' a = m a)"

lemma same_outside_refl [simp]: "same_outside P m m"
  by (simp add: same_outside_def)

lemma same_outside_trans: "same_outside P m m' \<Longrightarrow> same_outside P m' m'' \<Longrightarrow> same_outside P m m''"
  by (simp add: same_outside_def)

lemma same_outside_mono: "same_outside P m m' \<Longrightarrow> P \<subseteq> Q \<Longrightarrow> same_outside Q m m'"
  by (auto simp: same_outside_def)

lemma same_outside_write:
  assumes "ppn_ok p" and "unat off + length bs \<le> 4096"
  shows "same_outside {p} m (write_bytes m (page_base p + off) bs)"
  unfolding same_outside_def
proof (intro allI impI)
  fix a
  assume "\<forall>q \<in> {p}. \<not> in_page q a"
  then have out: "\<not> in_page p a" by simp
  show "write_bytes m (page_base p + off) bs a = m a"
  proof (cases "bs = []")
    case False
    have off: "unat off < 4096" using assms False by (cases bs) auto
    have base: "unat (page_base p + off) = unat (ppn_bits p) * 4096 + unat off"
      using assms(1) off by (rule unat_page_base_plus)
    have "\<not> unat (a - (page_base p + off)) < length bs"
    proof
      assume "unat (a - (page_base p + off)) < length bs"
      moreover have "unat (page_base p + off) + length bs \<le> 2 ^ 64"
        using assms base by (simp add: ppn_ok_def)
      ultimately have "unat (ppn_bits p) * 4096 + unat off \<le> unat a"
        and "unat a < unat (ppn_bits p) * 4096 + unat off + length bs"
        using assms base by (auto simp: unat_diff_less_iff)
      then have "unat a div 4096 = unat (ppn_bits p)"
        using assms by (intro div_nat_eqI) auto
      with out show False by (simp add: in_page_def)
    qed
    then show ?thesis by (simp add: write_bytes_def)
  qed (simp add: write_bytes_def)
qed

lemma read_bytes_same_outside:
  assumes "same_outside P m m'" and "ppn_ok q" and "q \<notin> P" and "unat off + n \<le> 4096"
  shows "read_bytes m' (page_base q + off) n = read_bytes m (page_base q + off) n"
proof (rule read_bytes_cong)
  fix k
  assume k: "k < n"
  have "unat (off + of_nat k) = unat off + k"
    using k assms(4) by (subst unat_add_less) simp_all
  then have "in_page q (page_base q + (off + of_nat k))"
    using k assms(2,4) by (intro in_page_base_plus) auto
  then show "m' (page_base q + off + of_nat k) = m (page_base q + off + of_nat k)"
    using assms(1,3) in_page_inj by (fastforce simp: same_outside_def add.assoc)
qed

lemma same_outside_fill:
  assumes "ppn_ok p"
  shows "same_outside {p} m (slice_fill m (get_bytes_array p) b)"
  using assms by (simp add: same_outside_def slice_fill_def get_bytes_array_def in_page_bytes_iff)

text \<open>The bytes of a whole page.\<close>

abbreviation page_bytes :: "memory \<Rightarrow> PhysPageNum \<Rightarrow> u8 list" where
  "page_bytes m p \<equiv> slice_read m (get_bytes_array p)"

lemma page_bytes_eq: "page_bytes m p = read_bytes m (page_base p) 4096"
  by (simp add: slice_read_def get_bytes_array_def)

lemma length_page_bytes [simp]: "length (page_bytes m p) = 4096"
  by (simp add: page_bytes_eq)

lemma page_bytes_same_outside:
  assumes "same_outside P m m'" and "ppn_ok q" and "q \<notin> P"
  shows "page_bytes m' q = page_bytes m q"
  using read_bytes_same_outside [OF assms, of 0 4096] by (simp add: page_bytes_eq)

lemma page_bytes_fill:
  "page_bytes (slice_fill m (get_bytes_array p) b) p = replicate 4096 b"
  unfolding page_bytes_eq by (rule nth_equalityI) (simp_all add: slice_fill_def get_bytes_array_def)

lemma page_bytes_write_prefix:
  assumes "length bs \<le> 4096"
  shows "page_bytes (write_bytes m (page_base p) bs) p = bs @ drop (length bs) (page_bytes m p)"
  unfolding page_bytes_eq
  by (rule nth_equalityI) (use assms in \<open>auto simp: write_bytes_def nth_append\<close>)

lemma page_bytes_write:
  "length bs = 4096 \<Longrightarrow> page_bytes (write_bytes m (page_base p) bs) p = bs"
  using read_write_bytes [of bs m "page_base p"] by (simp add: page_bytes_eq)

subsection \<open>Page-table slots\<close>

text \<open>The word in slot \<open>i\<close> of page \<open>p\<close>.\<close>

definition slot :: "memory \<Rightarrow> PhysPageNum \<Rightarrow> usize \<Rightarrow> usize" where
  "slot m p i = read_u64 m (get_pte_array p i)"

lemma unat_slot_off: "unat i < 512 \<Longrightarrow> unat (8 * i) = 8 * unat i" for i :: usize
  by (simp add: unat_word_ariths)

lemma slot_same_outside:
  assumes "same_outside P m m'" and "ppn_ok q" and "q \<notin> P" and "unat i < 512"
  shows "slot m' q i = slot m q i"
  using assms by (simp add: slot_def read_u64_def get_pte_array_def read_bytes_same_outside unat_slot_off)

lemma slot_write_same:
  "slot (write_u64 m (get_pte_array p i) w) p i = w"
proof -
  have "read_bytes (write_bytes m a (le_bytes 8 w)) a 8 = le_bytes 8 w" for a
    using read_write_bytes [of "le_bytes 8 w" m a] by simp
  then show ?thesis
    by (simp add: slot_def read_u64_def write_u64_def of_le_bytes_le_bytes)
qed

lemma same_outside_slot_write:
  assumes "ppn_ok p" and "unat i < 512"
  shows "same_outside {p} m (write_u64 m (get_pte_array p i) w)"
  using assms unfolding write_u64_def get_pte_array_def
  by (intro same_outside_write) (simp_all add: unat_slot_off)

lemma slot_write_other:
  assumes "ppn_ok p" "ppn_ok q" "unat i < 512" "unat j < 512" "(p, i) \<noteq> (q, j)"
  shows "slot (write_u64 m (get_pte_array p i) w) q j = slot m q j"
proof (cases "p = q")
  case False
  then show ?thesis
    using assms same_outside_slot_write [of p i m w] by (intro slot_same_outside) auto
next
  case True
  with assms have ij: "unat i \<noteq> unat j" by (auto simp: word_unat_eq_iff)
  have "read_bytes (write_bytes m (get_pte_array p i) (le_bytes 8 w)) (get_pte_array p j) 8
      = read_bytes m (get_pte_array p j) 8"
  proof (rule read_bytes_cong)
    fix k :: nat
    assume k: "k < 8"
    have oj: "unat (8 * j + of_nat k) = 8 * unat j + k"
      using assms k by (subst unat_add_less) (simp_all add: unat_slot_off)
    have x: "unat (get_pte_array p j + of_nat k) = unat (ppn_bits p) * 4096 + (8 * unat j + k)"
      using assms k unat_page_base_plus [of p "8 * j + of_nat k"] by (simp add: get_pte_array_def add.assoc oj)
    have a: "unat (get_pte_array p i) = unat (ppn_bits p) * 4096 + 8 * unat i"
      using assms unat_page_base_plus [of p "8 * i"] by (simp add: get_pte_array_def unat_slot_off)
    have "unat (get_pte_array p i) + 8 \<le> 2 ^ 64"
      using assms by (simp add: a ppn_ok_def)
    then have "\<not> unat (get_pte_array p j + of_nat k - get_pte_array p i) < 8"
      using ij k by (subst unat_diff_less_iff) (auto simp: x a)
    then show "write_bytes m (get_pte_array p i) (le_bytes 8 w) (get_pte_array p j + of_nat k) =
        m (get_pte_array p j + of_nat k)"
      by (simp add: write_bytes_def)
  qed
  with True show ?thesis
    by (simp add: slot_def read_u64_def write_u64_def)
qed

lemma slot_fill_zero:
  assumes "ppn_ok p" and "unat i < 512"
  shows "slot (slice_fill m (get_bytes_array p) 0) p i = 0"
proof -
  have "read_bytes (slice_fill m (get_bytes_array p) 0) (get_pte_array p i) 8 = replicate 8 0"
  proof (rule nth_equalityI)
    fix k
    assume "k < length (read_bytes (slice_fill m (get_bytes_array p) 0) (get_pte_array p i) 8)"
    then have k: "k < 8" by simp
    have "unat (8 * i + of_nat k) = 8 * unat i + k"
      using assms k by (subst unat_add_less) (simp_all add: unat_slot_off)
    then have "in_page p (page_base p + (8 * i + of_nat k))"
      using assms k by (intro in_page_base_plus) auto
    then have "unat (get_pte_array p i + of_nat k - page_base p) < 4096"
      using assms by (subst in_page_bytes_iff) (simp_all add: get_pte_array_def add.assoc)
    with k show "read_bytes (slice_fill m (get_bytes_array p) 0) (get_pte_array p i) 8 ! k = replicate 8 0 ! k"
      by (simp add: slice_fill_def get_bytes_array_def)
  qed simp
  then show ?thesis
    by (simp add: slot_def read_u64_def of_le_bytes_zero)
qed

end
