(* ===== verification/Allocator_Spec.thy ===== *)
theory Allocator_Spec
  imports Prelude
begin

text \<open>
  The contract of the kernel's two recycling allocators: physical frames
  (\<^verbatim>\<open>src/os/src/mm/frame_allocator.rs\<close>) and process identifiers (\<^verbatim>\<open>src/os/src/task/pid.rs\<close>).
  An allocator has a set of identifiers in use; \<open>alloc\<close> hands out one that is not in use, and
  \<open>dealloc\<close> takes one back and panics on one that is not in use.  The locale proves once what
  the owners rely on: a vector of handles can be dropped exactly when the handles are distinct
  and in use, and then it gives back exactly these.
\<close>

text \<open>Dropping a vector of handles: the elements are dropped in order.\<close>

definition drop_all :: "('s \<Rightarrow> 'id \<Rightarrow> 's result) \<Rightarrow> 'id list \<Rightarrow> 's \<Rightarrow> 's result" where
  "drop_all dealloc xs s = for_each (\<lambda>x s. dealloc s x) xs s"

lemma drop_all_Nil [simp]: "drop_all d [] s = Inr s"
  by (simp add: drop_all_def)

lemma drop_all_Cons [simp]: "drop_all d (x # xs) s = bind (d s x) (drop_all d xs)"
  by (simp add: drop_all_def [abs_def])

lemma drop_all_append: "drop_all d (xs @ ys) s = bind (drop_all d xs s) (drop_all d ys)"
  by (simp add: drop_all_def [abs_def] for_each_append)

locale recycling_allocator =
  fixes alloc :: "'s \<Rightarrow> 'id option \<times> 's"
    and dealloc :: "'s \<Rightarrow> 'id \<Rightarrow> 's result"
    and in_use :: "'s \<Rightarrow> 'id set"
    and inv :: "'s \<Rightarrow> bool"
    and room :: "'s \<Rightarrow> bool"
  assumes alloc_fresh: "inv s \<Longrightarrow> room s \<Longrightarrow> alloc s = (Some x, s') \<Longrightarrow> x \<notin> in_use s"
    and alloc_in_use: "inv s \<Longrightarrow> room s \<Longrightarrow> alloc s = (Some x, s') \<Longrightarrow> in_use s' = insert x (in_use s)"
    and alloc_inv: "inv s \<Longrightarrow> room s \<Longrightarrow> alloc s = (Some x, s') \<Longrightarrow> inv s'"
    and dealloc_ok: "inv s \<Longrightarrow> x \<in> in_use s \<Longrightarrow>
      \<exists>s'. dealloc s x = Inr s' \<and> in_use s' = in_use s - {x} \<and> inv s'"
    and dealloc_panics: "inv s \<Longrightarrow> x \<notin> in_use s \<Longrightarrow> \<exists>e. dealloc s x = Inl e"
begin

lemma dealloc_Inr:
  assumes "inv s" and "dealloc s x = Inr s'"
  shows "x \<in> in_use s" and "in_use s' = in_use s - {x}" and "inv s'"
proof -
  show x: "x \<in> in_use s"
    using assms dealloc_panics by fastforce
  from dealloc_ok [OF assms(1) x] assms(2)
  show "in_use s' = in_use s - {x}" and "inv s'" by auto
qed

lemma double_dealloc_panics:
  assumes "inv s" and "dealloc s x = Inr s'"
  shows "\<exists>e. dealloc s' x = Inl e"
  using dealloc_Inr [OF assms] by (intro dealloc_panics) auto

lemma alloc_then_dealloc:
  assumes "inv s" and "room s" and "alloc s = (Some x, s')"
  shows "\<exists>s''. dealloc s' x = Inr s'' \<and> in_use s'' = in_use s \<and> inv s''"
  using dealloc_ok [OF alloc_inv [OF assms], of x] alloc_in_use [OF assms] alloc_fresh [OF assms]
  by auto

lemma alloc_distinct:
  assumes "inv s" and "room s" and "alloc s = (Some x, s')" and "room s'" and "alloc s' = (Some y, s'')"
  shows "x \<noteq> y"
  using alloc_fresh [OF alloc_inv [OF assms(1-3)] assms(4,5)] alloc_in_use [OF assms(1-3)] by auto

lemma drop_all_ok:
  assumes "inv s" and "distinct xs" and "set xs \<subseteq> in_use s"
  shows "\<exists>s'. drop_all dealloc xs s = Inr s' \<and> in_use s' = in_use s - set xs \<and> inv s'"
  using assms
proof (induction xs arbitrary: s)
  case Nil
  then show ?case by simp
next
  case (Cons x xs)
  then obtain t where t: "dealloc s x = Inr t" "in_use t = in_use s - {x}" "inv t"
    using dealloc_ok [of s x] by auto
  with Cons.IH [of t] Cons.prems obtain u where
    "drop_all dealloc xs t = Inr u" "in_use u = in_use t - set xs" "inv u"
    by auto
  with t show ?case by auto
qed

lemma drop_all_Inr:
  assumes "inv s" and "drop_all dealloc xs s = Inr s'"
  shows "distinct xs \<and> set xs \<subseteq> in_use s \<and> in_use s' = in_use s - set xs \<and> inv s'"
  using assms
proof (induction xs arbitrary: s)
  case Nil
  then show ?case by simp
next
  case (Cons x xs)
  from Cons.prems(2) obtain t where t: "dealloc s x = Inr t" "drop_all dealloc xs t = Inr s'"
    by (auto simp: res_simps)
  note x = dealloc_Inr [OF Cons.prems(1) t(1)]
  from Cons.IH [OF x(3) t(2)] x show ?case by auto
qed

end

end
