(* ===== verification/Frame_Allocator.thy ===== *)
theory Frame_Allocator
  imports Phys_Memory Allocator_Spec
begin

text \<open>
  The physical frame allocator of \<^verbatim>\<open>src/os/src/mm/frame_allocator.rs\<close>: \<open>StackFrameAllocator\<close>, the
  global \<open>FRAME_ALLOCATOR\<close>, and \<open>FrameTracker\<close>, whose construction clears the page and whose
  \<open>drop\<close> gives it back.  The allocator meets the contract of \<open>Allocator_Spec\<close> and refines the
  abstract allocator that only keeps the set of free frames.
\<close>

subsection \<open>\<open>StackFrameAllocator\<close>\<close>

record StackFrameAllocator =
  fa_current :: usize
  fa_end :: usize
  fa_recycled :: "usize list"

definition sfa_new :: StackFrameAllocator where
  "sfa_new = \<lparr>fa_current = 0, fa_end = 0, fa_recycled = []\<rparr>"

definition sfa_init :: "PhysPageNum \<Rightarrow> PhysPageNum \<Rightarrow> StackFrameAllocator \<Rightarrow> StackFrameAllocator" where
  "sfa_init l r a = a\<lparr>fa_current := ppn_bits l, fa_end := ppn_bits r\<rparr>"

definition sfa_alloc :: "StackFrameAllocator \<Rightarrow> PhysPageNum option \<times> StackFrameAllocator" where
  "sfa_alloc a =
     (case vec_pop (fa_recycled a) of
        (Some ppn, rest) \<Rightarrow> (Some (PhysPageNum_from ppn), a\<lparr>fa_recycled := rest\<rparr>)
      | (None, _) \<Rightarrow>
          if fa_current a = fa_end a then (None, a)
          else (let a' = a\<lparr>fa_current := fa_current a + 1\<rparr>
                in (Some (PhysPageNum_from (fa_current a' - 1)), a')))"

definition sfa_dealloc :: "StackFrameAllocator \<Rightarrow> PhysPageNum \<Rightarrow> StackFrameAllocator result" where
  "sfa_dealloc a p =
     (let ppn = ppn_bits p
      in if ppn \<ge> fa_current a \<or> find (\<lambda>v. v = ppn) (fa_recycled a) \<noteq> None
         then Inl (NotAllocated ppn)
         else Inr (a\<lparr>fa_recycled := vec_push (fa_recycled a) ppn\<rparr>))"

subsection \<open>The memory-management state and \<open>FrameTracker\<close>\<close>

text \<open>Physical memory and the global \<open>FRAME_ALLOCATOR\<close>.\<close>

record mm_state =
  mm_mem :: memory
  FRAME_ALLOCATOR :: StackFrameAllocator

datatype FrameTracker = FrameTracker (ft_ppn: PhysPageNum)

definition FrameTracker_new :: "PhysPageNum \<Rightarrow> memory \<Rightarrow> FrameTracker \<times> memory" where
  "FrameTracker_new p m = (FrameTracker p, slice_fill m (get_bytes_array p) 0)"

text \<open>\<open>ekernel\<close> is the symbol the linker script places at the end of the kernel.\<close>

definition init_frame_allocator :: "usize \<Rightarrow> mm_state \<Rightarrow> mm_state" where
  "init_frame_allocator ekernel st =
     st\<lparr>FRAME_ALLOCATOR :=
          sfa_init (pa_ceil (PhysAddr_from ekernel)) (pa_floor (PhysAddr_from MEMORY_END)) (FRAME_ALLOCATOR st)\<rparr>"

definition frame_alloc :: "mm_state \<Rightarrow> FrameTracker option \<times> mm_state" where
  "frame_alloc st =
     (case sfa_alloc (FRAME_ALLOCATOR st) of
        (None, a) \<Rightarrow> (None, st\<lparr>FRAME_ALLOCATOR := a\<rparr>)
      | (Some ppn, a) \<Rightarrow>
          (let (t, m) = FrameTracker_new ppn (mm_mem st)
           in (Some t, st\<lparr>FRAME_ALLOCATOR := a, mm_mem := m\<rparr>)))"

definition frame_dealloc :: "mm_state \<Rightarrow> PhysPageNum \<Rightarrow> mm_state result" where
  "frame_dealloc st p = bind (sfa_dealloc (FRAME_ALLOCATOR st) p) (\<lambda>a. Inr (st\<lparr>FRAME_ALLOCATOR := a\<rparr>))"

text \<open>\<open>Drop for FrameTracker\<close>\<close>

definition FrameTracker_drop :: "mm_state \<Rightarrow> FrameTracker \<Rightarrow> mm_state result" where
  "FrameTracker_drop st t = frame_dealloc st (ft_ppn t)"

text \<open>\<open>frame_alloc().unwrap()\<close>, as every caller writes it.\<close>

definition frame_alloc_unwrap :: "mm_state \<Rightarrow> (FrameTracker \<times> mm_state) result" where
  "frame_alloc_unwrap st =
     (case frame_alloc st of (t, st') \<Rightarrow> bind (unwrap t) (\<lambda>t. Inr (t, st')))"

text \<open>
  \<open>frame_allocator_test\<close>: five frames are allocated and dropped by \<open>v.clear()\<close>, then five more
  are allocated and dropped with \<open>v\<close>.
\<close>

fun alloc_frames :: "nat \<Rightarrow> FrameTracker list \<Rightarrow> mm_state \<Rightarrow> (FrameTracker list \<times> mm_state) result" where
  "alloc_frames 0 v st = Inr (v, st)"
| "alloc_frames (Suc n) v st =
     bind (frame_alloc_unwrap st) (\<lambda>(frame, st). alloc_frames n (vec_push v frame) st)"

definition frame_allocator_test :: "mm_state \<Rightarrow> mm_state result" where
  "frame_allocator_test st =
     bind (alloc_frames 5 [] st) (\<lambda>(v, st).
     bind (drop_all FrameTracker_drop v st) (\<lambda>st.
     bind (alloc_frames 5 [] st) (\<lambda>(v, st).
     drop_all FrameTracker_drop v st)))"

subsection \<open>The invariant of the allocator\<close>

definition sfa_inv :: "StackFrameAllocator \<Rightarrow> bool" where
  "sfa_inv a \<longleftrightarrow> distinct (fa_recycled a) \<and> (\<forall>x \<in> set (fa_recycled a). x < fa_current a) \<and>
     fa_current a \<le> fa_end a \<and> unat (fa_end a) \<le> 2 ^ 44"

text \<open>The frames in use: below \<open>current\<close> and not recycled.  The kernel's own image is among them.\<close>

definition sfa_in_use :: "StackFrameAllocator \<Rightarrow> PhysPageNum set" where
  "sfa_in_use a = {p. ppn_bits p < fa_current a \<and> ppn_bits p \<notin> set (fa_recycled a)}"

definition sfa_free :: "StackFrameAllocator \<Rightarrow> PhysPageNum set" where
  "sfa_free a = {p. ppn_bits p \<in> set (fa_recycled a) \<or> (fa_current a \<le> ppn_bits p \<and> ppn_bits p < fa_end a)}"

definition sfa_left :: "StackFrameAllocator \<Rightarrow> nat" where
  "sfa_left a = length (fa_recycled a) + (unat (fa_end a) - unat (fa_current a))"

text \<open>The two ways an allocation succeeds, as the cases of every proof about it.\<close>

lemma sfa_alloc_cases:
  assumes "sfa_inv a"
  obtains (recycled) x rest where "fa_recycled a = rest @ [x]"
      and "sfa_alloc a = (Some (PhysPageNum x), a\<lparr>fa_recycled := rest\<rparr>)" and "unat x < 2 ^ 44"
    | (full) "fa_recycled a = []" and "fa_current a = fa_end a" and "sfa_alloc a = (None, a)"
    | (bump) "fa_recycled a = []" and "unat (fa_current a) < unat (fa_end a)"
      and "unat (fa_current a + 1) = unat (fa_current a) + 1" and "unat (fa_current a) < 2 ^ 44"
      and "sfa_alloc a = (Some (PhysPageNum (fa_current a)), a\<lparr>fa_current := fa_current a + 1\<rparr>)"
proof (cases "fa_recycled a" rule: rev_cases)
  case (snoc rest x)
  with assms have "unat x < unat (fa_current a)" "unat (fa_current a) \<le> 2 ^ 44"
    by (auto simp: sfa_inv_def word_less_nat_alt word_le_nat_alt)
  then have "unat x < 2 ^ 44" by simp
  with snoc show ?thesis
    using recycled [of rest x] by (simp add: sfa_alloc_def PhysPageNum_from_id)
next
  case Nil
  show ?thesis
  proof (cases "fa_current a = fa_end a")
    case True
    with Nil full show ?thesis by (simp add: sfa_alloc_def)
  next
    case False
    with assms have lt: "unat (fa_current a) < unat (fa_end a)" "unat (fa_end a) \<le> 2 ^ 44"
      by (auto simp: sfa_inv_def word_le_nat_alt word_unat_eq_iff)
    then have "unat (fa_current a + 1) = unat (fa_current a) + 1" and "unat (fa_current a) < 2 ^ 44"
      by (auto simp: unat_add_less)
    with Nil False lt show ?thesis
      using bump by (simp add: sfa_alloc_def PhysPageNum_from_id)
  qed
qed

lemma sfa_alloc_Some:
  assumes "sfa_inv a" and "sfa_alloc a = (Some p, a')"
  shows "p \<notin> sfa_in_use a" and "sfa_in_use a' = insert p (sfa_in_use a)" and "sfa_inv a'"
    and "ppn_ok p" and "p \<in> sfa_free a" and "sfa_free a' = sfa_free a - {p}"
    and "sfa_left a = Suc (sfa_left a')"
proof -
  have "p \<notin> sfa_in_use a \<and> sfa_in_use a' = insert p (sfa_in_use a) \<and> sfa_inv a' \<and> ppn_ok p \<and>
      p \<in> sfa_free a \<and> sfa_free a' = sfa_free a - {p} \<and> sfa_left a = Suc (sfa_left a')"
    using assms(1)
  proof (cases rule: sfa_alloc_cases)
    case (recycled x rest)
    with assms have p: "p = PhysPageNum x" and a': "a' = a\<lparr>fa_recycled := rest\<rparr>" by auto
    have "x < fa_current a" "x \<notin> set rest" "\<forall>y \<in> set rest. y < fa_current a" "distinct rest"
      using assms(1) recycled(1) by (auto simp: sfa_inv_def)
    with recycled assms(1) p a' show ?thesis
      by (auto simp: sfa_inv_def sfa_in_use_def sfa_free_def sfa_left_def ppn_ok_def PhysPageNum.expand)
  next
    case full
    with assms show ?thesis by simp
  next
    case bump
    with assms have p: "p = PhysPageNum (fa_current a)" and a': "a' = a\<lparr>fa_current := fa_current a + 1\<rparr>"
      by auto
    have lt: "y < fa_current a + 1 \<longleftrightarrow> y < fa_current a \<or> y = fa_current a" for y
      using bump(3) by (auto simp: word_less_nat_alt word_unat_eq_iff)
    have le: "fa_current a + 1 \<le> y \<longleftrightarrow> fa_current a \<le> y \<and> y \<noteq> fa_current a" for y
      using bump(3) by (auto simp: word_le_nat_alt word_unat_eq_iff)
    have eq: "x = p \<longleftrightarrow> ppn_bits x = fa_current a" for x
      by (cases x) (simp add: p)
    have "p \<notin> sfa_in_use a" "sfa_in_use a' = insert p (sfa_in_use a)"
      using bump(1) a' by (auto simp: sfa_in_use_def lt p eq [unfolded p])
    moreover have "sfa_inv a'"
      using bump assms(1) a' by (simp add: sfa_inv_def word_le_nat_alt)
    moreover have "p \<in> sfa_free a" "sfa_free a' = sfa_free a - {p}"
      using bump(1,2) a' by (auto simp: sfa_free_def le eq p word_less_nat_alt [of "fa_current a"] eq [unfolded p])
    moreover have "sfa_left a = Suc (sfa_left a')"
      using bump a' by (simp add: sfa_left_def)
    ultimately show ?thesis
      using bump(4) by (simp add: ppn_ok_def p)
  qed
  then show "p \<notin> sfa_in_use a" and "sfa_in_use a' = insert p (sfa_in_use a)" and "sfa_inv a'"
    and "ppn_ok p" and "p \<in> sfa_free a" and "sfa_free a' = sfa_free a - {p}"
    and "sfa_left a = Suc (sfa_left a')"
    by auto
qed

lemma sfa_alloc_None_iff:
  assumes "sfa_inv a"
  shows "sfa_alloc a = (None, a') \<longleftrightarrow> sfa_left a = 0 \<and> a' = a"
  using assms by (cases rule: sfa_alloc_cases) (auto simp: sfa_left_def)

lemma sfa_left_0_iff:
  assumes "sfa_inv a"
  shows "sfa_left a = 0 \<longleftrightarrow> sfa_free a = {}"
proof
  assume "sfa_left a = 0"
  then have "fa_recycled a = []" and "unat (fa_end a) \<le> unat (fa_current a)"
    by (auto simp: sfa_left_def)
  then show "sfa_free a = {}"
    by (auto simp: sfa_free_def word_le_nat_alt word_less_nat_alt)
next
  assume empty: "sfa_free a = {}"
  have "PhysPageNum x \<notin> sfa_free a" for x
    using empty by simp
  then have "fa_recycled a = []" and "\<not> fa_current a < fa_end a"
    by (cases "fa_recycled a"; fastforce simp: sfa_free_def)+
  then show "sfa_left a = 0"
    by (simp add: sfa_left_def word_less_nat_alt)
qed

lemma sfa_dealloc_in_use:
  assumes "sfa_inv a" and "p \<in> sfa_in_use a"
  shows "sfa_dealloc a p = Inr (a\<lparr>fa_recycled := fa_recycled a @ [ppn_bits p]\<rparr>)"
    and "sfa_in_use (a\<lparr>fa_recycled := fa_recycled a @ [ppn_bits p]\<rparr>) = sfa_in_use a - {p}"
    and "sfa_inv (a\<lparr>fa_recycled := fa_recycled a @ [ppn_bits p]\<rparr>)"
    and "sfa_left (a\<lparr>fa_recycled := fa_recycled a @ [ppn_bits p]\<rparr>) = Suc (sfa_left a)"
    and "sfa_free (a\<lparr>fa_recycled := fa_recycled a @ [ppn_bits p]\<rparr>) = insert p (sfa_free a)"
  using assms
  by (auto simp: sfa_dealloc_def sfa_in_use_def sfa_inv_def sfa_left_def sfa_free_def find_None_iff
      Let_def not_le PhysPageNum.expand)

lemma sfa_dealloc_not_in_use:
  "p \<notin> sfa_in_use a \<Longrightarrow> sfa_dealloc a p = Inl (NotAllocated (ppn_bits p))"
  by (auto simp: sfa_dealloc_def sfa_in_use_def find_None_iff Let_def not_less)

interpretation frames: recycling_allocator sfa_alloc sfa_dealloc sfa_in_use sfa_inv "\<lambda>_. True"
  by unfold_locales
    (auto simp: sfa_alloc_Some sfa_dealloc_in_use sfa_dealloc_not_in_use dest: sfa_alloc_Some(1))

subsection \<open>The global allocator\<close>

abbreviation mm_inv :: "mm_state \<Rightarrow> bool" where
  "mm_inv st \<equiv> sfa_inv (FRAME_ALLOCATOR st)"

abbreviation in_use :: "mm_state \<Rightarrow> PhysPageNum set" where
  "in_use st \<equiv> sfa_in_use (FRAME_ALLOCATOR st)"

abbreviation frames_left :: "mm_state \<Rightarrow> nat" where
  "frames_left st \<equiv> sfa_left (FRAME_ALLOCATOR st)"

lemma in_use_ok: "mm_inv st \<Longrightarrow> p \<in> in_use st \<Longrightarrow> ppn_ok p"
  by (auto simp: sfa_inv_def sfa_in_use_def ppn_ok_def word_less_nat_alt word_le_nat_alt)

text \<open>What a caller of \<open>frame_alloc().unwrap()\<close> knows of the tracker it gets.\<close>

lemma frame_alloc_unwrap_Inr:
  assumes "mm_inv st" and "frame_alloc_unwrap st = Inr (t, st')"
  shows "ft_ppn t \<notin> in_use st" and "in_use st' = insert (ft_ppn t) (in_use st)" and "mm_inv st'"
    and "ppn_ok (ft_ppn t)" and "mm_mem st' = slice_fill (mm_mem st) (get_bytes_array (ft_ppn t)) 0"
    and "frames_left st = Suc (frames_left st')"
proof -
  obtain p a' where a: "sfa_alloc (FRAME_ALLOCATOR st) = (Some p, a')"
    and t: "t = FrameTracker p"
    and st': "st' = st\<lparr>FRAME_ALLOCATOR := a', mm_mem := slice_fill (mm_mem st) (get_bytes_array p) 0\<rparr>"
    using assms(2)
    by (auto simp: frame_alloc_unwrap_def frame_alloc_def FrameTracker_new_def split: prod.splits option.splits)
  note facts = sfa_alloc_Some [OF assms(1) a]
  show "ft_ppn t \<notin> in_use st" and "in_use st' = insert (ft_ppn t) (in_use st)" and "mm_inv st'"
    and "ppn_ok (ft_ppn t)" and "mm_mem st' = slice_fill (mm_mem st) (get_bytes_array (ft_ppn t)) 0"
    and "frames_left st = Suc (frames_left st')"
    using facts by (simp_all add: t st')
qed

lemma frame_alloc_unwrap_same_outside:
  assumes "mm_inv st" and "frame_alloc_unwrap st = Inr (t, st')"
  shows "same_outside {ft_ppn t} (mm_mem st) (mm_mem st')"
  using frame_alloc_unwrap_Inr [OF assms] by (simp add: same_outside_fill)

lemma frame_alloc_unwrap_zero:
  assumes "mm_inv st" and "frame_alloc_unwrap st = Inr (t, st')" and "unat i < 512"
  shows "slot (mm_mem st') (ft_ppn t) i = 0"
  using frame_alloc_unwrap_Inr [OF assms(1,2)] assms(3) by (simp add: slot_fill_zero)

lemma frame_alloc_unwrap_total:
  assumes "mm_inv st" and "0 < frames_left st"
  shows "\<exists>t st'. frame_alloc_unwrap st = Inr (t, st')"
proof -
  obtain p a' where "sfa_alloc (FRAME_ALLOCATOR st) = (Some p, a')"
    using assms sfa_alloc_None_iff [OF assms(1)] by (metis less_numeral_extra(3) option.exhaust surj_pair)
  then show ?thesis
    by (simp add: frame_alloc_unwrap_def frame_alloc_def FrameTracker_new_def)
qed

lemma frame_alloc_unwrap_full:
  assumes "mm_inv st" and "frames_left st = 0"
  shows "frame_alloc_unwrap st = Inl UnwrapNone"
proof -
  have "sfa_alloc (FRAME_ALLOCATOR st) = (None, FRAME_ALLOCATOR st)"
    using assms sfa_alloc_None_iff by simp
  then show ?thesis
    by (simp add: frame_alloc_unwrap_def frame_alloc_def)
qed

text \<open>The trackers of the frames in use; \<open>FrameTracker\<close> is again a recycling allocator.\<close>

definition live_trackers :: "mm_state \<Rightarrow> FrameTracker set" where
  "live_trackers st = {t. ft_ppn t \<in> in_use st}"

lemma ft_eq_iff: "t = u \<longleftrightarrow> ft_ppn t = ft_ppn u"
  by (cases t; cases u) simp

lemma frame_alloc_Some:
  "frame_alloc st = (Some t, st') \<longleftrightarrow> frame_alloc_unwrap st = Inr (t, st')"
  by (auto simp: frame_alloc_unwrap_def res_simps split: prod.splits)

lemma FrameTracker_drop_ok:
  assumes "mm_inv st" and "ft_ppn t \<in> in_use st"
  shows "\<exists>st'. FrameTracker_drop st t = Inr st' \<and> in_use st' = in_use st - {ft_ppn t} \<and> mm_inv st' \<and>
    mm_mem st' = mm_mem st \<and> frames_left st' = Suc (frames_left st)"
  using sfa_dealloc_in_use [OF assms] by (simp add: FrameTracker_drop_def frame_dealloc_def)

lemma FrameTracker_drop_panics:
  "ft_ppn t \<notin> in_use st \<Longrightarrow> FrameTracker_drop st t = Inl (NotAllocated (ppn_bits (ft_ppn t)))"
  by (simp add: FrameTracker_drop_def frame_dealloc_def sfa_dealloc_not_in_use)

interpretation trackers: recycling_allocator frame_alloc FrameTracker_drop live_trackers
  "\<lambda>st. mm_inv st" "\<lambda>_. True"
proof (unfold_locales, goal_cases)
  case (1 s x s')
  then show ?case
    by (simp add: frame_alloc_Some live_trackers_def frame_alloc_unwrap_Inr(1))
next
  case (2 s x s')
  then have "in_use s' = insert (ft_ppn x) (in_use s)"
    by (simp add: frame_alloc_Some frame_alloc_unwrap_Inr(2))
  then show ?case
    by (auto simp: live_trackers_def ft_eq_iff)
next
  case (3 s x s')
  then show ?case
    by (simp add: frame_alloc_Some frame_alloc_unwrap_Inr(3))
next
  case (4 s x)
  then have "ft_ppn x \<in> in_use s" by (simp add: live_trackers_def)
  from FrameTracker_drop_ok [OF 4(1) this] obtain s' where
    s': "FrameTracker_drop s x = Inr s'" "in_use s' = in_use s - {ft_ppn x}" "mm_inv s'" by blast
  have "live_trackers s' = live_trackers s - {x}"
    using s'(2) by (simp add: live_trackers_def set_eq_iff) (simp add: ft_eq_iff)
  with s' show ?case by blast
next
  case (5 s x)
  then show ?case
    by (simp add: live_trackers_def FrameTracker_drop_panics)
qed

lemma live_trackers_subset: "set ts \<subseteq> live_trackers st \<longleftrightarrow> ft_ppn ` set ts \<subseteq> in_use st"
  by (auto simp: live_trackers_def)

lemma drop_trackers_memory:
  assumes "mm_inv st" and "drop_all FrameTracker_drop ts st = Inr st'"
  shows "mm_mem st' = mm_mem st \<and> frames_left st' = frames_left st + length ts \<and>
    in_use st' = in_use st - ft_ppn ` set ts \<and> mm_inv st'"
  using assms
proof (induction ts arbitrary: st)
  case Nil
  then show ?case by simp
next
  case (Cons t ts)
  from Cons.prems(2) obtain u where u: "FrameTracker_drop st t = Inr u" "drop_all FrameTracker_drop ts u = Inr st'"
    by (auto simp: res_simps)
  have "ft_ppn t \<in> in_use st"
    using u(1) FrameTracker_drop_panics by fastforce
  from FrameTracker_drop_ok [OF Cons.prems(1) this] u(1)
  have t: "in_use u = in_use st - {ft_ppn t}" "mm_inv u" "mm_mem u = mm_mem st" "frames_left u = Suc (frames_left st)"
    by auto
  from Cons.IH [OF t(2) u(2)] t show ?case by auto
qed

text \<open>A vector of trackers of distinct frames in use is dropped without a panic.\<close>

lemma drop_trackers_total:
  assumes "mm_inv st" and "distinct ts" and "ft_ppn ` set ts \<subseteq> in_use st"
  shows "\<exists>st'. drop_all FrameTracker_drop ts st = Inr st' \<and> mm_mem st' = mm_mem st \<and>
    frames_left st' = frames_left st + length ts \<and> in_use st' = in_use st - ft_ppn ` set ts \<and> mm_inv st'"
proof -
  obtain st' where "drop_all FrameTracker_drop ts st = Inr st'"
    using trackers.drop_all_ok [OF assms(1,2)] assms(3) by (auto simp: live_trackers_subset)
  with drop_trackers_memory [OF assms(1) this] show ?thesis by blast
qed

lemma alloc_frames_total:
  assumes "mm_inv st" and "n \<le> frames_left st"
  shows "\<exists>ts st'. alloc_frames n v st = Inr (v @ ts, st') \<and> length ts = n \<and> distinct ts \<and>
    ft_ppn ` set ts \<inter> in_use st = {} \<and> in_use st' = in_use st \<union> ft_ppn ` set ts \<and> mm_inv st' \<and>
    frames_left st = frames_left st' + n"
  using assms
proof (induction n arbitrary: v st)
  case 0
  then show ?case by simp
next
  case (Suc n)
  then obtain t u where t: "frame_alloc_unwrap st = Inr (t, u)"
    using frame_alloc_unwrap_total by fastforce
  note facts = frame_alloc_unwrap_Inr [OF Suc.prems(1) t]
  from Suc.IH [OF facts(3), of "v @ [t]"] Suc.prems(2) facts(6) obtain ts st' where
    ts: "alloc_frames n (v @ [t]) u = Inr (v @ t # ts, st')" "length ts = n" "distinct ts"
      "ft_ppn ` set ts \<inter> in_use u = {}" "in_use st' = in_use u \<union> ft_ppn ` set ts" "mm_inv st'"
      "frames_left u = frames_left st' + n"
    by auto
  then have "alloc_frames (Suc n) v st = Inr (v @ t # ts, st')"
    using t by simp
  moreover have "distinct (t # ts)"
    using ts(3,4) facts(2) by auto
  ultimately show ?case
    using ts facts by (intro exI [of _ "t # ts"] exI [of _ st']) auto
qed

text \<open>A concrete state, on which the witnesses evaluate: memory is zero and 1024 frames are free.\<close>

definition ex_mm :: mm_state where
  "ex_mm = \<lparr>mm_mem = \<lambda>_. 0, FRAME_ALLOCATOR = \<lparr>fa_current = 0x80400, fa_end = 0x80800, fa_recycled = []\<rparr>\<rparr>"

lemma ex_mm_inv: "mm_inv ex_mm"
  by (simp add: ex_mm_def sfa_inv_def)

lemma ex_mm_left: "frames_left ex_mm = 1024"
  by (simp add: ex_mm_def sfa_left_def)

subsection \<open>The abstract allocator and the properties of the frames\<close>

text \<open>The specification: an allocator is the set of its free frames.\<close>

definition abs_alloc :: "PhysPageNum set \<Rightarrow> PhysPageNum option \<Rightarrow> PhysPageNum set \<Rightarrow> bool" where
  "abs_alloc F r F' \<longleftrightarrow> (case r of None \<Rightarrow> F = {} \<and> F' = F | Some p \<Rightarrow> p \<in> F \<and> F' = F - {p})"

definition abs_dealloc :: "PhysPageNum set \<Rightarrow> PhysPageNum \<Rightarrow> PhysPageNum set \<Rightarrow> bool" where
  "abs_dealloc F p F' \<longleftrightarrow> p \<notin> F \<and> F' = insert p F"

text \<open>
  C4: the frame allocator refines the set of free frames.  An allocation returns a member of the
  set and removes it, and returns \<open>None\<close> only when the set is empty; a deallocation of a frame in
  use puts it back, and a deallocation of any other frame panics; the invariant is kept.
\<close>

theorem frame_allocator_refines:
  assumes "sfa_inv a"
  shows "(case sfa_alloc a of (r, a') \<Rightarrow> abs_alloc (sfa_free a) r (sfa_free a') \<and> sfa_inv a') \<and>
    (case sfa_dealloc a p of
        Inl e \<Rightarrow> p \<notin> sfa_in_use a \<and> e = NotAllocated (ppn_bits p)
      | Inr a' \<Rightarrow> p \<in> sfa_in_use a \<and> abs_dealloc (sfa_free a) p (sfa_free a') \<and> sfa_inv a')"
proof (rule conjI)
  obtain r a' where r: "sfa_alloc a = (r, a')" by fastforce
  show "case sfa_alloc a of (r, a') \<Rightarrow> abs_alloc (sfa_free a) r (sfa_free a') \<and> sfa_inv a'"
  proof (cases r)
    case None
    then have "sfa_free a = {}" and "a' = a"
      using r sfa_alloc_None_iff [OF assms] sfa_left_0_iff [OF assms] by auto
    with None assms r show ?thesis by (simp add: abs_alloc_def)
  next
    case (Some q)
    with r sfa_alloc_Some [OF assms, of q a'] show ?thesis
      by (simp add: abs_alloc_def)
  qed
  show "case sfa_dealloc a p of
      Inl e \<Rightarrow> p \<notin> sfa_in_use a \<and> e = NotAllocated (ppn_bits p)
    | Inr a' \<Rightarrow> p \<in> sfa_in_use a \<and> abs_dealloc (sfa_free a) p (sfa_free a') \<and> sfa_inv a'"
  proof (cases "p \<in> sfa_in_use a")
    case True
    moreover have "p \<notin> sfa_free a"
      using True by (auto simp: sfa_in_use_def sfa_free_def)
    ultimately show ?thesis
      using sfa_dealloc_in_use [OF assms True] by (simp add: abs_dealloc_def)
  next
    case False
    then show ?thesis by (simp add: sfa_dealloc_not_in_use)
  qed
qed

theorem frame_allocator_refines_witness:
  "let a = \<lparr>fa_current = 3, fa_end = 9, fa_recycled = [1]\<rparr>
   in sfa_inv a \<and>
      (case sfa_alloc a of (r, a') \<Rightarrow> abs_alloc (sfa_free a) r (sfa_free a') \<and> sfa_inv a') \<and>
      (case sfa_dealloc a (PhysPageNum 2) of
          Inl e \<Rightarrow> PhysPageNum 2 \<notin> sfa_in_use a \<and> e = NotAllocated (ppn_bits (PhysPageNum 2))
        | Inr a' \<Rightarrow> PhysPageNum 2 \<in> sfa_in_use a \<and> abs_dealloc (sfa_free a) (PhysPageNum 2) (sfa_free a') \<and> sfa_inv a')"
proof -
  have "sfa_inv \<lparr>fa_current = 3, fa_end = 9, fa_recycled = [1]\<rparr>"
    by (simp add: sfa_inv_def)
  from this frame_allocator_refines [OF this, of "PhysPageNum 2"] show ?thesis
    unfolding Let_def by (rule conjI)
qed

text \<open>
  C32: a frame handed out by \<open>frame_alloc\<close> was not in use, is in use afterwards, is all zero, and
  the pages of all other frames are as they were.
\<close>

theorem frame_alloc_fresh_zero:
  assumes "mm_inv st" and "frame_alloc st = (Some t, st')"
  shows "ft_ppn t \<notin> in_use st \<and> in_use st' = insert (ft_ppn t) (in_use st) \<and> mm_inv st' \<and>
    page_bytes (mm_mem st') (ft_ppn t) = replicate 4096 0 \<and>
    (\<forall>q. ppn_ok q \<longrightarrow> q \<noteq> ft_ppn t \<longrightarrow> page_bytes (mm_mem st') q = page_bytes (mm_mem st) q)"
proof -
  have a: "frame_alloc_unwrap st = Inr (t, st')"
    using assms(2) by (simp add: frame_alloc_Some)
  note facts = frame_alloc_unwrap_Inr [OF assms(1) a]
  have "page_bytes (mm_mem st') q = page_bytes (mm_mem st) q" if "ppn_ok q" "q \<noteq> ft_ppn t" for q
    using page_bytes_same_outside [OF frame_alloc_unwrap_same_outside [OF assms(1) a] that(1)] that(2) by simp
  moreover have "page_bytes (mm_mem st') (ft_ppn t) = replicate 4096 0"
    by (simp only: facts(5) page_bytes_fill)
  ultimately show ?thesis
    using facts(1-3) by blast
qed

theorem frame_alloc_fresh_zero_witness:
  "\<exists>t st'. mm_inv ex_mm \<and> frame_alloc ex_mm = (Some t, st') \<and>
    ft_ppn t \<notin> in_use ex_mm \<and> in_use st' = insert (ft_ppn t) (in_use ex_mm) \<and> mm_inv st' \<and>
    page_bytes (mm_mem st') (ft_ppn t) = replicate 4096 0 \<and>
    (\<forall>q. ppn_ok q \<longrightarrow> q \<noteq> ft_ppn t \<longrightarrow> page_bytes (mm_mem st') q = page_bytes (mm_mem ex_mm) q)"
proof -
  obtain t st' where a: "frame_alloc ex_mm = (Some t, st')"
    using frame_alloc_unwrap_total [OF ex_mm_inv] by (auto simp: ex_mm_left frame_alloc_Some)
  from a ex_mm_inv frame_alloc_fresh_zero [OF ex_mm_inv a] show ?thesis by blast
qed

text \<open>
  The free list is a stack.  A frame that was just deallocated is the next one handed out, and
  the allocator is then as it was before.
\<close>

lemma frame_dealloc_then_alloc:
  assumes "sfa_inv a" and "sfa_dealloc a p = Inr a'"
  shows "sfa_alloc a' = (Some p, a)"
proof -
  have p: "p \<in> sfa_in_use a"
    using assms(2) sfa_dealloc_not_in_use by fastforce
  have "unat (ppn_bits p) < 2 ^ 44"
    using in_use_ok [of "\<lparr>mm_mem = \<lambda>_. 0, FRAME_ALLOCATOR = a\<rparr>" p] assms(1) p by (simp add: ppn_ok_def)
  then show ?thesis
    using assms(2) sfa_dealloc_in_use(1) [OF assms(1) p] by (auto simp: sfa_alloc_def PhysPageNum_from_id)
qed

text \<open>
  Freeing a frame twice panics: after a successful deallocation, a second one of the same
  frame is refused.
\<close>

lemma frame_double_free_panics:
  assumes "sfa_inv a" and "sfa_dealloc a p = Inr a'"
  shows "\<exists>e. sfa_dealloc a' p = Inl e"
  using assms by (rule frames.double_dealloc_panics)

text \<open>
  The self-test of the allocator passes whenever five frames are free, and it leaves the same
  frames in use.
\<close>

lemma frame_allocator_test_passes:
  assumes "mm_inv st" and "5 \<le> frames_left st"
  shows "\<exists>st'. frame_allocator_test st = Inr st' \<and> in_use st' = in_use st \<and>
    frames_left st' = frames_left st \<and> mm_inv st'"
proof -
  have round: "\<exists>ts u w. alloc_frames 5 [] s = Inr (ts, u) \<and> drop_all FrameTracker_drop ts u = Inr w \<and>
      in_use w = in_use s \<and> frames_left w = frames_left s \<and> mm_inv w"
    if s: "mm_inv s" "5 \<le> frames_left s" for s
  proof -
    obtain ts u where ts: "alloc_frames 5 [] s = Inr (ts, u)" "length ts = 5" "distinct ts"
        "ft_ppn ` set ts \<inter> in_use s = {}" "in_use u = in_use s \<union> ft_ppn ` set ts" "mm_inv u"
        "frames_left s = frames_left u + 5"
      using alloc_frames_total [OF s, of "[]"] by auto
    obtain w where "drop_all FrameTracker_drop ts u = Inr w" "frames_left w = frames_left u + 5"
        "in_use w = in_use u - ft_ppn ` set ts" "mm_inv w"
      using drop_trackers_total [OF ts(6,3)] ts(2,5) by auto
    with ts show ?thesis by auto
  qed
  obtain ts u w where 1: "alloc_frames 5 [] st = Inr (ts, u)" "drop_all FrameTracker_drop ts u = Inr w"
      "in_use w = in_use st" "frames_left w = frames_left st" "mm_inv w"
    using round [OF assms] by blast
  obtain ts' u' w' where "alloc_frames 5 [] w = Inr (ts', u')" "drop_all FrameTracker_drop ts' u' = Inr w'"
      "in_use w' = in_use w" "frames_left w' = frames_left w" "mm_inv w'"
    using round [OF 1(5)] 1(4) assms(2) by auto
  with 1 show ?thesis
    by (simp add: frame_allocator_test_def)
qed

lemma init_frame_allocator_ok:
  assumes "FRAME_ALLOCATOR st = sfa_new" and "ekernel \<le> MEMORY_END"
  shows "mm_inv (init_frame_allocator ekernel st) \<and>
    sfa_free (FRAME_ALLOCATOR (init_frame_allocator ekernel st)) =
      {p. unat ekernel \<le> unat (ppn_bits p) * 4096 \<and> unat (ppn_bits p) * 4096 + 4096 \<le> unat MEMORY_END} \<and>
    frames_left (init_frame_allocator ekernel st) = 0x80800 - (unat ekernel + 4095) div 4096"
proof -
  have e: "unat ekernel \<le> 0x80800000"
    using assms(2) by (simp add: word_le_nat_alt)
  have "unat (pa_bits (PhysAddr_from ekernel)) = unat ekernel"
    using e by (simp add: unat_take_bit)
  then have l: "unat (ppn_bits (pa_ceil (PhysAddr_from ekernel))) = (unat ekernel + 4095) div 4096"
    using e by (subst unat_pa_ceil) simp_all
  have r: "unat (ppn_bits (pa_floor (PhysAddr_from 0x80800000))) = 0x80800"
    by (simp add: unat_pa_floor unat_take_bit)
  have le: "(unat ekernel + 4095) div 4096 \<le> 0x80800"
    using div_le_mono [of "unat ekernel + 4095" "0x80800000 + 4095" 4096] e by simp
  have iff: "(unat ekernel + 4095) div 4096 \<le> n \<longleftrightarrow> unat ekernel \<le> n * 4096" for n
    using div_less_iff_less_mult [of 4096 "unat ekernel + 4095" "Suc n"] by (auto simp: less_Suc_eq_le)
  show ?thesis
    using assms(1) le by (auto simp: init_frame_allocator_def sfa_init_def sfa_new_def sfa_inv_def
        sfa_left_def sfa_free_def word_le_nat_alt word_less_nat_alt l r iff)
qed

text \<open>
  The initialisation makes exactly the whole pages between the end of the kernel and
  \<open>MEMORY_END\<close> free: every free frame lies after \<open>ekernel\<close> and ends at or before
  \<open>MEMORY_END\<close>, and their number is the number of whole pages in between.
\<close>

lemma init_frame_allocator_range:
  assumes "FRAME_ALLOCATOR st = sfa_new" and "ekernel \<le> MEMORY_END"
  shows "mm_inv (init_frame_allocator ekernel st) \<and>
    sfa_free (FRAME_ALLOCATOR (init_frame_allocator ekernel st)) =
      {p. unat ekernel \<le> unat (ppn_bits p) * 4096 \<and> unat (ppn_bits p) * 4096 + 4096 \<le> unat MEMORY_END} \<and>
    frames_left (init_frame_allocator ekernel st) = 0x80800 - (unat ekernel + 4095) div 4096"
  using assms by (rule init_frame_allocator_ok)

end
