(* ===== verification/Page_Map_Spec.thy ===== *)
theory Page_Map_Spec
  imports Address
begin

text \<open>
  The contract between a page table and the code that fills it (\<open>MapArea\<close>, \<open>MemorySet\<close> and
  \<open>KernelStack\<close> of the kernel): a table is a partial map from page numbers to entries, two page
  numbers are the same key when their three indexes agree, an insertion is refused when the key
  is present and a removal when it is absent.  The locale proves once what holds of sequences of
  insertions and removals.
\<close>

locale page_map =
  fixes lookup :: "'s \<Rightarrow> VirtPageNum \<Rightarrow> 'e option"
    and put :: "VirtPageNum \<Rightarrow> 'p \<Rightarrow> 's \<Rightarrow> 's result"
    and remove :: "VirtPageNum \<Rightarrow> 's \<Rightarrow> 's result"
    and entry :: "'p \<Rightarrow> 'e"
    and inv :: "'s \<Rightarrow> bool"
  assumes put_inv: "inv s \<Longrightarrow> put v p s = Inr s' \<Longrightarrow> inv s'"
    and put_absent: "inv s \<Longrightarrow> put v p s = Inr s' \<Longrightarrow> lookup s v = None"
    and put_lookup: "inv s \<Longrightarrow> put v p s = Inr s' \<Longrightarrow>
      lookup s' w = (if indexes w = indexes v then Some (entry p) else lookup s w)"
    and put_present: "lookup s v \<noteq> None \<Longrightarrow> \<exists>x. put v p s = Inl x"
    and remove_present: "inv s \<Longrightarrow> lookup s v \<noteq> None \<Longrightarrow>
      \<exists>s'. remove v s = Inr s' \<and> inv s' \<and> (\<forall>w. lookup s' w = (if indexes w = indexes v then None else lookup s w))"
    and remove_absent: "lookup s v = None \<Longrightarrow> \<exists>x. remove v s = Inl x"
    and lookup_key: "indexes v = indexes w \<Longrightarrow> lookup s v = lookup s w"
begin

lemma remove_Inr:
  assumes "inv s" and "remove v s = Inr s'"
  shows "lookup s v \<noteq> None" and "inv s'"
    and "lookup s' w = (if indexes w = indexes v then None else lookup s w)"
proof -
  show v: "lookup s v \<noteq> None" using remove_absent assms(2) by fastforce
  show "inv s'" and "lookup s' w = (if indexes w = indexes v then None else lookup s w)"
    using remove_present [OF assms(1) v] assms(2) by auto
qed

lemma put_twice: "inv s \<Longrightarrow> put v p s = Inr s' \<Longrightarrow> \<exists>x. put v q s' = Inl x"
  by (simp add: put_lookup put_present)

lemma put_remove:
  assumes "inv s" and "put v p s = Inr s'"
  shows "\<exists>s''. remove v s' = Inr s'' \<and> inv s'' \<and> lookup s'' = lookup s"
proof -
  obtain s'' where s'': "remove v s' = Inr s''" "inv s''"
      "\<forall>w. lookup s'' w = (if indexes w = indexes v then None else lookup s' w)"
    using remove_present [OF put_inv [OF assms], of v] by (auto simp: put_lookup [OF assms])
  have "lookup s'' w = lookup s w" for w
    using s''(3) put_lookup [OF assms] put_absent [OF assms] lookup_key [of w v s] by simp
  with s'' show ?thesis by blast
qed

text \<open>Insertions of a list of pages succeed only when all keys are new, and insert exactly these.\<close>

lemma put_all:
  assumes "for_each (\<lambda>(v, p). put v p) xs s = Inr s'" and "inv s"
  shows "inv s' \<and> distinct (map (indexes \<circ> fst) xs) \<and> (\<forall>(v, p) \<in> set xs. lookup s v = None) \<and>
    (\<forall>w. lookup s' w = (case map_of (map (map_prod indexes entry) xs) (indexes w) of
        None \<Rightarrow> lookup s w | Some e \<Rightarrow> Some e))"
  using assms
proof (induction xs arbitrary: s)
  case Nil
  then show ?case by simp
next
  case (Cons x xs)
  obtain v p where x: "x = (v, p)" by fastforce
  with Cons.prems(1) obtain t where t: "put v p s = Inr t" "for_each (\<lambda>(v, p). put v p) xs t = Inr s'"
    by (auto simp: res_simps)
  note IH = Cons.IH [OF t(2) put_inv [OF Cons.prems(2) t(1)]]
  have l: "lookup t w = (if indexes w = indexes v then Some (entry p) else lookup s w)" for w
    using put_lookup [OF Cons.prems(2) t(1)] .
  have new: "indexes w \<noteq> indexes v \<and> lookup s w = None" if "(w, q) \<in> set xs" for w q
    using IH that l [of w] by (auto split: if_splits)
  have "indexes v \<notin> set (map (indexes \<circ> fst) xs)"
    using new by force
  moreover from this have "map_of (map (map_prod indexes entry) xs) (indexes v) = None"
    by (force simp: map_of_eq_None_iff)
  ultimately show ?case
    using IH new put_absent [OF Cons.prems(2) t(1)] l by (auto simp: x split: option.splits)
qed

lemma remove_all:
  assumes "inv s" and "distinct (map indexes vs)" and "\<forall>v \<in> set vs. lookup s v \<noteq> None"
  shows "\<exists>s'. for_each remove vs s = Inr s' \<and> inv s' \<and>
    (\<forall>w. lookup s' w = (if indexes w \<in> indexes ` set vs then None else lookup s w))"
  using assms
proof (induction vs arbitrary: s)
  case Nil
  then show ?case by simp
next
  case (Cons v vs)
  obtain t where t: "remove v s = Inr t" "inv t"
      "\<forall>w. lookup t w = (if indexes w = indexes v then None else lookup s w)"
    using remove_present [OF Cons.prems(1), of v] Cons.prems(3) by auto
  have "\<forall>w \<in> set vs. lookup t w \<noteq> None"
    using t(3) Cons.prems(2,3) by (metis distinct.simps(2) image_eqI list.set_intros(2) list.simps(9) set_map)
  with Cons.IH [OF t(2)] Cons.prems(2) obtain s' where
    "for_each remove vs t = Inr s'" "inv s'"
    "\<forall>w. lookup s' w = (if indexes w \<in> indexes ` set vs then None else lookup t w)"
    by auto
  with t show ?case by auto
qed

end

end
