(* ===== verification/Page_Table.thy ===== *)
theory Page_Table
  imports Frame_Allocator Page_Map_Spec
begin

text \<open>
  The three-level Sv39 page tables of \<^verbatim>\<open>src/os/src/mm/page_table.rs\<close>: page-table entries, the walk
  with and without creation of missing nodes, \<open>map\<close>, \<open>unmap\<close>, \<open>translate\<close> and \<open>translate_va\<close>.
  A table is read out of physical memory word by word, so the correctness of \<open>map\<close> and \<open>unmap\<close>
  rests on an invariant that keeps the nodes of the tree apart (\<open>table_wf\<close>); under it the table
  is a map from page numbers to entries.
\<close>

subsection \<open>Flags and entries\<close>

type_synonym PTEFlags = u8

definition PTE_V :: PTEFlags where "PTE_V = push_bit 0 1"
definition PTE_R :: PTEFlags where "PTE_R = push_bit 1 1"
definition PTE_W :: PTEFlags where "PTE_W = push_bit 2 1"
definition PTE_X :: PTEFlags where "PTE_X = push_bit 3 1"
definition PTE_U :: PTEFlags where "PTE_U = push_bit 4 1"
definition PTE_G :: PTEFlags where "PTE_G = push_bit 5 1"
definition PTE_A :: PTEFlags where "PTE_A = push_bit 6 1"
definition PTE_D :: PTEFlags where "PTE_D = push_bit 7 1"

text \<open>\<open>PTEFlags::from_bits\<close> refuses a byte that has a bit no constant declares.\<close>

definition PTEFlags_from_bits :: "u8 \<Rightarrow> PTEFlags option" where
  "PTEFlags_from_bits b =
     (if b AND NOT (PTE_V OR PTE_R OR PTE_W OR PTE_X OR PTE_U OR PTE_G OR PTE_A OR PTE_D) = 0
      then Some b else None)"

datatype PageTableEntry = PageTableEntry (pte_bits: usize)

definition PageTableEntry_new :: "PhysPageNum \<Rightarrow> PTEFlags \<Rightarrow> PageTableEntry" where
  "PageTableEntry_new ppn flags = PageTableEntry (push_bit 10 (ppn_bits ppn) OR ucast flags)"

definition PageTableEntry_empty :: PageTableEntry where
  "PageTableEntry_empty = PageTableEntry 0"

definition pte_ppn :: "PageTableEntry \<Rightarrow> PhysPageNum" where
  "pte_ppn e = PhysPageNum_from (drop_bit 10 (pte_bits e) AND (push_bit 44 1 - 1))"

text \<open>
  \<open>PTEFlags::from_bits(self.bits as u8).unwrap()\<close>: all eight bits are declared, so \<open>from_bits\<close>
  accepts every byte (\<open>PTEFlags_from_bits_total\<close>) and the \<open>unwrap\<close> cannot panic.
\<close>

definition pte_flags :: "PageTableEntry \<Rightarrow> PTEFlags" where
  "pte_flags e = the (PTEFlags_from_bits (ucast (pte_bits e)))"

definition is_valid :: "PageTableEntry \<Rightarrow> bool" where
  "is_valid e \<longleftrightarrow> pte_flags e AND PTE_V \<noteq> 0"

definition readable :: "PageTableEntry \<Rightarrow> bool" where
  "readable e \<longleftrightarrow> pte_flags e AND PTE_R \<noteq> 0"

definition writable :: "PageTableEntry \<Rightarrow> bool" where
  "writable e \<longleftrightarrow> pte_flags e AND PTE_W \<noteq> 0"

definition executable :: "PageTableEntry \<Rightarrow> bool" where
  "executable e \<longleftrightarrow> pte_flags e AND PTE_X \<noteq> 0"

subsection \<open>The page table\<close>

record PageTable =
  root_ppn :: PhysPageNum
  pt_frames :: "FrameTracker list"

text \<open>A reference \<open>&mut PageTableEntry\<close> is the address of the entry.\<close>

definition load_pte :: "memory \<Rightarrow> usize \<Rightarrow> PageTableEntry" where
  "load_pte m a = PageTableEntry (read_u64 m a)"

definition store_pte :: "usize \<Rightarrow> PageTableEntry \<Rightarrow> mm_state \<Rightarrow> mm_state" where
  "store_pte a e st = st\<lparr>mm_mem := write_u64 (mm_mem st) a (pte_bits e)\<rparr>"

definition PageTable_new :: "mm_state \<Rightarrow> (PageTable \<times> mm_state) result" where
  "PageTable_new st =
     bind (frame_alloc_unwrap st) (\<lambda>(frame, st).
     Inr (\<lparr>root_ppn = ft_ppn frame, pt_frames = [frame]\<rparr>, st))"

definition from_token :: "usize \<Rightarrow> PageTable" where
  "from_token satp = \<lparr>root_ppn = PhysPageNum_from (satp AND (push_bit 44 1 - 1)), pt_frames = []\<rparr>"

text \<open>
  The loop \<open>for i in 0..3\<close> of \<open>find_pte_create\<close> runs over the three indexes; the last of them is
  the iteration \<open>i == 2\<close>, which breaks with the entry.
\<close>

fun find_pte_create_loop ::
  "usize list \<Rightarrow> PhysPageNum \<Rightarrow> PageTable \<Rightarrow> mm_state \<Rightarrow> (usize option \<times> PageTable \<times> mm_state) result" where
  "find_pte_create_loop [] ppn pt st = Inr (None, pt, st)"
| "find_pte_create_loop [idx] ppn pt st = Inr (Some (get_pte_array ppn idx), pt, st)"
| "find_pte_create_loop (idx # idxs) ppn pt st =
     (let pte = get_pte_array ppn idx
      in bind
           (if \<not> is_valid (load_pte (mm_mem st) pte) then
              bind (frame_alloc_unwrap st) (\<lambda>(frame, st).
              let st = store_pte pte (PageTableEntry_new (ft_ppn frame) PTE_V) st;
                  pt = pt\<lparr>pt_frames := vec_push (pt_frames pt) frame\<rparr>
              in Inr (pt, st))
            else Inr (pt, st))
           (\<lambda>(pt, st). find_pte_create_loop idxs (pte_ppn (load_pte (mm_mem st) pte)) pt st))"

definition find_pte_create ::
  "VirtPageNum \<Rightarrow> PageTable \<Rightarrow> mm_state \<Rightarrow> (usize option \<times> PageTable \<times> mm_state) result" where
  "find_pte_create vpn pt st = find_pte_create_loop (indexes vpn) (root_ppn pt) pt st"

fun find_pte_loop :: "memory \<Rightarrow> usize list \<Rightarrow> PhysPageNum \<Rightarrow> usize option" where
  "find_pte_loop m [] ppn = None"
| "find_pte_loop m [idx] ppn = Some (get_pte_array ppn idx)"
| "find_pte_loop m (idx # idxs) ppn =
     (let pte = get_pte_array ppn idx
      in if \<not> is_valid (load_pte m pte) then None
         else find_pte_loop m idxs (pte_ppn (load_pte m pte)))"

definition find_pte :: "memory \<Rightarrow> PageTable \<Rightarrow> VirtPageNum \<Rightarrow> usize option" where
  "find_pte m pt vpn = find_pte_loop m (indexes vpn) (root_ppn pt)"

definition pt_map ::
  "VirtPageNum \<Rightarrow> PhysPageNum \<Rightarrow> PTEFlags \<Rightarrow> PageTable \<Rightarrow> mm_state \<Rightarrow> (PageTable \<times> mm_state) result" where
  "pt_map vpn ppn flags pt st =
     bind (find_pte_create vpn pt st) (\<lambda>(r, pt, st).
     bind (unwrap r) (\<lambda>pte.
     bind (assert_that (\<not> is_valid (load_pte (mm_mem st) pte)) (MappedBefore (vpn_bits vpn))) (\<lambda>_.
     Inr (pt, store_pte pte (PageTableEntry_new ppn (flags OR PTE_V)) st))))"

definition pt_unmap :: "VirtPageNum \<Rightarrow> PageTable \<Rightarrow> mm_state \<Rightarrow> mm_state result" where
  "pt_unmap vpn pt st =
     bind (unwrap (find_pte (mm_mem st) pt vpn)) (\<lambda>pte.
     bind (assert_that (is_valid (load_pte (mm_mem st) pte)) (InvalidUnmap (vpn_bits vpn))) (\<lambda>_.
     Inr (store_pte pte PageTableEntry_empty st)))"

definition translate :: "memory \<Rightarrow> PageTable \<Rightarrow> VirtPageNum \<Rightarrow> PageTableEntry option" where
  "translate m pt vpn = map_option (load_pte m) (find_pte m pt vpn)"

definition translate_va :: "memory \<Rightarrow> PageTable \<Rightarrow> VirtAddr \<Rightarrow> PhysAddr option" where
  "translate_va m pt va =
     map_option (\<lambda>pte.
       let aligned_pa = PhysAddr_from_ppn (pte_ppn (load_pte m pte));
           offset = va_page_offset va
       in PhysAddr_from (pa_bits aligned_pa + offset))
     (find_pte m pt (va_floor va))"

definition token :: "PageTable \<Rightarrow> usize" where
  "token pt = push_bit 60 8 OR ppn_bits (root_ppn pt)"

subsection \<open>Entries: what was packed is read back\<close>

named_theorems pte_simps

lemmas PTE_defs = PTE_V_def PTE_R_def PTE_W_def PTE_X_def PTE_U_def PTE_G_def PTE_A_def PTE_D_def

lemma PTEFlags_from_bits_total [pte_simps]: "PTEFlags_from_bits b = Some b"
proof -
  have all: "NOT (PTE_V OR PTE_R OR PTE_W OR PTE_X OR PTE_U OR PTE_G OR PTE_A OR PTE_D) = 0"
    by (simp add: PTE_defs)
  show ?thesis
    unfolding PTEFlags_from_bits_def all by simp
qed

lemma pte_flags_ucast [pte_simps]: "pte_flags e = ucast (pte_bits e)"
  by (simp add: pte_flags_def PTEFlags_from_bits_total)

lemma pte_ppn_bits [pte_simps]: "ppn_bits (pte_ppn e) = take_bit 44 (drop_bit 10 (pte_bits e))"
  by (simp only: pte_ppn_def and_low_bits) simp

lemma pte_ppn_ok [simp]: "ppn_ok (pte_ppn e)"
  by (simp add: ppn_ok_def pte_simps unat_take_bit)

lemma pte_ppn_new: "ppn_ok p \<Longrightarrow> pte_ppn (PageTableEntry_new p f) = p"
proof -
  assume ok: "ppn_ok p"
  have "take_bit 44 (drop_bit 10 (push_bit 10 w OR ucast f)) = take_bit 44 w" for w :: usize
    by (rule bit_word_eqI) (auto simp: bit_simps dest: bit_imp_le_length)
  then have "ppn_bits (pte_ppn (PageTableEntry_new p f)) = take_bit 44 (ppn_bits p)"
    by (simp add: pte_simps PageTableEntry_new_def)
  with ok show ?thesis
    by (simp add: ppn_ok_def take_bit_eq_self_if_less PhysPageNum.expand)
qed

lemma pte_flags_new: "pte_flags (PageTableEntry_new p f) = f"
proof -
  have "ucast (push_bit 10 w OR ucast f :: usize) = f" for w :: usize
    by (rule bit_word_eqI) (auto simp: bit_simps)
  then show ?thesis
    by (simp add: pte_simps PageTableEntry_new_def)
qed

lemma is_valid_iff: "is_valid e \<longleftrightarrow> bit (pte_bits e) 0"
proof -
  have "x AND 1 \<noteq> 0 \<longleftrightarrow> bit x 0" for x :: u8
    by (simp add: and_one_eq odd_iff_mod_2_eq_one bit_0)
  then show ?thesis
    by (simp add: is_valid_def pte_simps bit_simps PTE_V_def)
qed

lemma is_valid_new: "is_valid (PageTableEntry_new p f) \<longleftrightarrow> bit f 0"
  by (simp add: is_valid_iff PageTableEntry_new_def bit_simps)

lemma is_valid_new_V [simp]: "is_valid (PageTableEntry_new p (f OR PTE_V))" "is_valid (PageTableEntry_new p PTE_V)"
  by (simp_all add: is_valid_new bit_simps PTE_V_def)

lemma is_valid_empty [simp]: "\<not> is_valid PageTableEntry_empty" "\<not> is_valid (PageTableEntry 0)"
  by (simp_all add: is_valid_iff PageTableEntry_empty_def)

subsection \<open>The tree in memory\<close>

text \<open>
  The node below slot \<open>i\<close> of node \<open>p\<close>, the node at the end of a path of indexes, and the valid leaf
  entry at a path of three indexes.
\<close>

definition child :: "memory \<Rightarrow> PhysPageNum \<Rightarrow> usize \<Rightarrow> PhysPageNum option" where
  "child m p i = (let e = PageTableEntry (slot m p i) in if is_valid e then Some (pte_ppn e) else None)"

fun walk :: "memory \<Rightarrow> PhysPageNum \<Rightarrow> usize list \<Rightarrow> PhysPageNum option" where
  "walk m p [] = Some p"
| "walk m p (i # is) = (case child m p i of None \<Rightarrow> None | Some c \<Rightarrow> walk m c is)"

definition leaf :: "memory \<Rightarrow> PhysPageNum \<Rightarrow> usize list \<Rightarrow> PageTableEntry option" where
  "leaf m p ks =
     (case walk m p (butlast ks) of
        None \<Rightarrow> None
      | Some q \<Rightarrow> (let e = PageTableEntry (slot m q (last ks)) in if is_valid e then Some e else None))"

definition idxs_ok :: "usize list \<Rightarrow> bool" where
  "idxs_ok is \<longleftrightarrow> (\<forall>i \<in> set is. unat i < 512)"

text \<open>
  The invariant of a table with root \<open>r\<close> over a set \<open>F\<close> of frames: the nodes that paths of at most
  two indexes reach are frames of \<open>F\<close>, and different paths reach different nodes.
\<close>

definition table_wf :: "memory \<Rightarrow> PhysPageNum \<Rightarrow> PhysPageNum set \<Rightarrow> bool" where
  "table_wf m r F \<longleftrightarrow> r \<in> F \<and> (\<forall>p \<in> F. ppn_ok p) \<and>
     (\<forall>is p. idxs_ok is \<longrightarrow> length is \<le> 2 \<longrightarrow> walk m r is = Some p \<longrightarrow> p \<in> F) \<and>
     (\<forall>is js p. idxs_ok is \<longrightarrow> length is \<le> 2 \<longrightarrow> idxs_ok js \<longrightarrow> length js \<le> 2 \<longrightarrow>
        walk m r is = Some p \<longrightarrow> walk m r js = Some p \<longrightarrow> is = js)"

lemma idxs_ok_simps [simp]: "idxs_ok []" "idxs_ok (i # is) \<longleftrightarrow> unat i < 512 \<and> idxs_ok is"
  "idxs_ok (is @ js) \<longleftrightarrow> idxs_ok is \<and> idxs_ok js"
  by (auto simp: idxs_ok_def)

lemma idxs_ok_indexes [simp]: "idxs_ok (indexes v)"
  by (simp add: idxs_ok_def indexes_less)

lemma table_wfD:
  assumes "table_wf m r F"
  shows "r \<in> F" and "p \<in> F \<Longrightarrow> ppn_ok p"
    and "walk m r is = Some p \<Longrightarrow> idxs_ok is \<Longrightarrow> length is \<le> 2 \<Longrightarrow> p \<in> F"
    and "walk m r is = Some p \<Longrightarrow> walk m r js = Some p \<Longrightarrow> idxs_ok is \<Longrightarrow> length is \<le> 2 \<Longrightarrow>
      idxs_ok js \<Longrightarrow> length js \<le> 2 \<Longrightarrow> is = js"
  using assms unfolding table_wf_def by blast+

lemma walk_append: "walk m p (is @ js) = Option.bind (walk m p is) (\<lambda>q. walk m q js)"
  by (induction "is" arbitrary: p) (simp_all split: option.splits)

lemma walk_single: "walk m p [i] = child m p i"
  by (simp split: option.splits)

lemma walk_snoc: "walk m p (is @ [i]) = Option.bind (walk m p is) (\<lambda>q. child m q i)"
  by (simp only: walk_append walk_single)

text \<open>A change outside the frames of a table leaves the table as it is.\<close>

lemma child_same_outside:
  assumes "same_outside P m m'" and "ppn_ok p" and "p \<notin> P" and "unat i < 512"
  shows "child m' p i = child m p i"
  using slot_same_outside [OF assms] by (simp add: child_def)

lemma walk_same_outside:
  assumes "table_wf m r F" and "same_outside P m m'" and "P \<inter> F = {}" and "idxs_ok is" and "length is \<le> 2"
  shows "walk m' r is = walk m r is"
  using assms(4,5)
proof (induction "is" rule: rev_induct)
  case Nil
  then show ?case by simp
next
  case (snoc i "is")
  then have IH: "walk m' r is = walk m r is" by simp
  show ?case
  proof (cases "walk m r is")
    case None
    then show ?thesis by (simp add: walk_snoc IH)
  next
    case (Some p)
    then have "p \<in> F" using snoc.prems table_wfD(3) [OF assms(1)] by simp
    then have "ppn_ok p" "p \<notin> P" using assms(3) table_wfD(2) [OF assms(1)] by auto
    then show ?thesis
      using snoc.prems child_same_outside [OF assms(2)] by (simp add: walk_snoc IH Some)
  qed
qed

lemma table_wf_same_outside:
  assumes "table_wf m r F" and "same_outside P m m'" and "P \<inter> F = {}"
  shows "table_wf m' r F"
  using assms(1) walk_same_outside [OF assms] unfolding table_wf_def by simp

lemma leaf_same_outside:
  assumes "table_wf m r F" and "same_outside P m m'" and "P \<inter> F = {}" and "idxs_ok ks" and "length ks = 3"
  shows "leaf m' r ks = leaf m r ks"
proof -
  obtain is' i where ks: "ks = is' @ [i]" using assms(5) by (cases ks rule: rev_cases) auto
  have w: "walk m' r is' = walk m r is'"
    using walk_same_outside [OF assms(1-3)] assms(4,5) ks by simp
  have "slot m' p i = slot m p i" if "walk m r is' = Some p" for p
  proof -
    have "p \<in> F" using that table_wfD(3) [OF assms(1)] assms(4,5) ks by simp
    then show ?thesis
      using slot_same_outside [OF assms(2)] table_wfD(2) [OF assms(1)] assms(3,4) ks by auto
  qed
  then show ?thesis
    by (simp add: leaf_def ks w split: option.splits)
qed

subsection \<open>Storing an entry\<close>

text \<open>
  A store into slot \<open>i\<close> of the node at path \<open>is\<close> changes no path that does not go through this slot.
\<close>

lemma walk_store_other:
  assumes "table_wf m r F" and "walk m r is = Some g" and "idxs_ok (is @ [i])" and "length is \<le> 2"
    and "idxs_ok js" and "length js \<le> 2" and "\<nexists>zs. js = is @ i # zs"
  shows "walk (write_u64 m (get_pte_array g i) w) r js = walk m r js"
  using assms(5-7)
proof (induction js rule: rev_induct)
  case Nil
  then show ?case by simp
next
  case (snoc j js)
  have "\<nexists>zs. js = is @ i # zs"
    using snoc.prems(3) by auto
  then have IH: "walk (write_u64 m (get_pte_array g i) w) r js = walk m r js"
    using snoc.IH snoc.prems by simp
  show ?case
  proof (cases "walk m r js")
    case None
    then show ?thesis by (simp add: walk_snoc IH)
  next
    case (Some q)
    have "(g, i) \<noteq> (q, j)"
    proof
      assume "(g, i) = (q, j)"
      then have "is = js" and "i = j"
        using table_wfD(4) [OF assms(1,2)] Some assms(3,4) snoc.prems by auto
      with snoc.prems(3) show False by auto
    qed
    moreover have "ppn_ok g" "ppn_ok q"
      using table_wfD(2,3) [OF assms(1)] Some assms(2-4) snoc.prems by auto
    ultimately have "slot (write_u64 m (get_pte_array g i) w) q j = slot m q j"
      using assms(3) snoc.prems by (intro slot_write_other) auto
    then show ?thesis
      by (simp add: walk_snoc IH Some child_def)
  qed
qed

lemma table_wf_store_leaf:
  assumes "table_wf m r F" and "walk m r is = Some g" and "idxs_ok (is @ [i])" and "length is = 2"
  shows "table_wf (write_u64 m (get_pte_array g i) w) r F"
proof -
  have "walk (write_u64 m (get_pte_array g i) w) r js = walk m r js" if "idxs_ok js" "length js \<le> 2" for js
    using that assms(3,4) by (intro walk_store_other [OF assms(1,2)]) auto
  with assms(1) show ?thesis
    unfolding table_wf_def by simp
qed

lemma leaf_store_leaf:
  assumes "table_wf m r F" and "walk m r is = Some g" and "idxs_ok (is @ [i])" and "length is = 2"
    and "idxs_ok ks" and "length ks = 3"
  shows "leaf (write_u64 m (get_pte_array g i) w) r ks =
    (if ks = is @ [i] then (if is_valid (PageTableEntry w) then Some (PageTableEntry w) else None) else leaf m r ks)"
proof -
  obtain js j where ks: "ks = js @ [j]" using assms(6) by (cases ks rule: rev_cases) auto
  have js: "idxs_ok js" "length js = 2" "unat j < 512" using assms(5,6) ks by auto
  have w: "walk (write_u64 m (get_pte_array g i) w) r js = walk m r js"
    using js assms(3,4) by (intro walk_store_other [OF assms(1,2)]) auto
  show ?thesis
  proof (cases "ks = is @ [i]")
    case True
    then show ?thesis
      using w assms(2) ks by (simp add: leaf_def slot_write_same)
  next
    case False
    have "slot (write_u64 m (get_pte_array g i) w) q j = slot m q j" if q: "walk m r js = Some q" for q
    proof (rule slot_write_other)
      show "ppn_ok g" "ppn_ok q"
        using table_wfD(2,3) [OF assms(1)] assms(2-4) q js by auto
      show "(g, i) \<noteq> (q, j)"
        using table_wfD(4) [OF assms(1,2), of js] q js assms(3,4) False ks by auto
    qed (use assms(3) js in auto)
    then have "leaf (write_u64 m (get_pte_array g i) w) r ks = leaf m r ks"
      by (cases "walk m r js") (simp_all add: leaf_def ks w)
    with False show ?thesis by simp
  qed
qed

text \<open>
  Storing a pointer to a cleared frame \<open>c\<close> into an empty slot adds one path, the one to \<open>c\<close>, and
  no leaf.
\<close>

lemma walk_store_child:
  assumes "table_wf m r F" and "walk m r is = Some g" and "idxs_ok (is @ [i])" and "length is \<le> 1"
    and "child m g i = None" and "c \<notin> F" and "ppn_ok c" and "\<And>j. unat j < 512 \<Longrightarrow> slot m c j = 0"
    and "idxs_ok js" and "length js \<le> 2"
  shows "walk (write_u64 m (get_pte_array g i) (pte_bits (PageTableEntry_new c PTE_V))) r js =
    (if js = is @ [i] then Some c else walk m r js)"
proof (cases "\<exists>zs. js = is @ i # zs")
  case False
  then have "walk (write_u64 m (get_pte_array g i) w) r js = walk m r js" for w
    using assms by (intro walk_store_other [OF assms(1,2)]) auto
  with False show ?thesis by auto
next
  case True
  then obtain zs where js: "js = is @ i # zs" by blast
  let ?m = "write_u64 m (get_pte_array g i) (pte_bits (PageTableEntry_new c PTE_V))"
  have g: "g \<in> F" "ppn_ok g"
    using table_wfD [OF assms(1)] assms(2-4) by auto
  have "walk ?m r is = walk m r is"
    using assms(3,4) by (intro walk_store_other [OF assms(1,2)]) auto
  moreover have "child ?m g i = Some c"
    using assms(7) by (simp add: child_def slot_write_same pte_ppn_new)
  ultimately have m': "walk ?m r js = walk ?m c zs"
    using assms(2) by (simp add: js walk_append)
  have m: "walk m r js = None"
    using assms(2,5) by (simp add: js walk_append)
  show ?thesis
  proof (cases zs)
    case Nil
    with m' js show ?thesis by simp
  next
    case (Cons z zs')
    have z: "unat z < 512" using assms(9) js Cons by simp
    have "slot ?m c z = slot m c z"
      using g assms(3,6,7) z by (intro slot_write_other) auto
    then have "child ?m c z = None"
      using assms(8) [OF z] by (simp add: child_def)
    with m m' Cons js show ?thesis by simp
  qed
qed

lemma table_wf_store_child:
  assumes "table_wf m r F" and "walk m r is = Some g" and "idxs_ok (is @ [i])" and "length is \<le> 1"
    and "child m g i = None" and "c \<notin> F" and "ppn_ok c" and "\<And>j. unat j < 512 \<Longrightarrow> slot m c j = 0"
  shows "table_wf (write_u64 m (get_pte_array g i) (pte_bits (PageTableEntry_new c PTE_V))) r (insert c F)"
proof -
  let ?m = "write_u64 m (get_pte_array g i) (pte_bits (PageTableEntry_new c PTE_V))"
  have w: "walk ?m r js = (if js = is @ [i] then Some c else walk m r js)"
    if "idxs_ok js" "length js \<le> 2" for js
    using assms that by (rule walk_store_child)
  have nc: "walk m r js \<noteq> Some c" if "idxs_ok js" "length js \<le> 2" for js
    using that table_wfD(3) [OF assms(1)] assms(6) by blast
  show ?thesis
    unfolding table_wf_def
  proof (intro conjI allI impI)
    show "r \<in> insert c F" using table_wfD(1) [OF assms(1)] by simp
    show "\<forall>p \<in> insert c F. ppn_ok p" using table_wfD(2) [OF assms(1)] assms(7) by simp
  next
    fix js p
    assume "idxs_ok js" "length js \<le> 2" "walk ?m r js = Some p"
    then show "p \<in> insert c F"
      using table_wfD(3) [OF assms(1), of js p] w [of js] by (auto split: if_splits)
  next
    fix js ks p
    assume a: "idxs_ok js" "length js \<le> 2" "idxs_ok ks" "length ks \<le> 2"
      "walk ?m r js = Some p" "walk ?m r ks = Some p"
    then show "js = ks"
      using w [of js] w [of ks] nc [of js] nc [of ks] table_wfD(4) [OF assms(1), of js p ks]
      by (auto split: if_splits)
  qed
qed

lemma leaf_store_child:
  assumes "table_wf m r F" and "walk m r is = Some g" and "idxs_ok (is @ [i])" and "length is \<le> 1"
    and "child m g i = None" and "c \<notin> F" and "ppn_ok c" and "\<And>j. unat j < 512 \<Longrightarrow> slot m c j = 0"
    and "idxs_ok ks" and "length ks = 3"
  shows "leaf (write_u64 m (get_pte_array g i) (pte_bits (PageTableEntry_new c PTE_V))) r ks = leaf m r ks"
proof -
  let ?m = "write_u64 m (get_pte_array g i) (pte_bits (PageTableEntry_new c PTE_V))"
  obtain js j where ks: "ks = js @ [j]" using assms(10) by (cases ks rule: rev_cases) auto
  have js: "idxs_ok js" "length js = 2" "unat j < 512" using assms(9,10) ks by auto
  have w: "walk ?m r js = (if js = is @ [i] then Some c else walk m r js)"
    using js by (intro walk_store_child [OF assms(1-8)]) auto
  have g: "g \<in> F" "ppn_ok g"
    using table_wfD [OF assms(1)] assms(2-4) by auto
  show ?thesis
  proof (cases "js = is @ [i]")
    case True
    have "slot ?m c j = slot m c j"
      using g assms(3,6,7) js by (intro slot_write_other) auto
    moreover have "walk ?m r js = Some c"
      using True w by simp
    ultimately have "leaf ?m r ks = None"
      using assms(8) [OF js(3)] by (simp add: leaf_def ks)
    moreover have "walk m r js = None"
      using True assms(2,5) by (simp add: walk_append)
    then have "leaf m r ks = None" by (simp add: leaf_def ks)
    ultimately show ?thesis by simp
  next
    case False
    have "slot ?m q j = slot m q j" if q: "walk m r js = Some q" for q
    proof (rule slot_write_other)
      show "ppn_ok q" using table_wfD(2,3) [OF assms(1)] q js by auto
      show "(g, i) \<noteq> (q, j)"
        using table_wfD(4) [OF assms(1,2), of js] q js assms(3,4) by auto
    qed (use g assms(3) js in auto)
    with False w show ?thesis
      by (cases "walk m r js") (simp_all add: leaf_def ks)
  qed
qed

subsection \<open>The invariant of a page table and how operations change it\<close>

definition frames_of :: "PageTable \<Rightarrow> PhysPageNum set" where
  "frames_of pt = ft_ppn ` set (pt_frames pt)"

definition pt_inv :: "mm_state \<Rightarrow> PageTable \<Rightarrow> bool" where
  "pt_inv st pt \<longleftrightarrow> mm_inv st \<and> table_wf (mm_mem st) (root_ppn pt) (frames_of pt) \<and>
     frames_of pt \<subseteq> in_use st \<and> distinct (pt_frames pt)"

text \<open>
  The table has grown by the frames allocated in between, and memory has changed in its own
  frames only.
\<close>

definition pt_grows :: "mm_state \<Rightarrow> PageTable \<Rightarrow> mm_state \<Rightarrow> PageTable \<Rightarrow> bool" where
  "pt_grows st pt st' pt' \<longleftrightarrow> root_ppn pt' = root_ppn pt \<and> in_use st \<subseteq> in_use st' \<and>
     (\<exists>ts. pt_frames pt' = pt_frames pt @ ts \<and> ft_ppn ` set ts = in_use st' - in_use st \<and>
        frames_left st = frames_left st' + length ts) \<and>
     same_outside (frames_of pt') (mm_mem st) (mm_mem st')"

text \<open>The map a table stands for: the valid leaf entries by page number.\<close>

definition pt_lookup :: "memory \<Rightarrow> PageTable \<Rightarrow> VirtPageNum \<Rightarrow> PageTableEntry option" where
  "pt_lookup m pt vpn = leaf m (root_ppn pt) (indexes vpn)"

definition same_leaves :: "mm_state \<Rightarrow> PageTable \<Rightarrow> mm_state \<Rightarrow> PageTable \<Rightarrow> bool" where
  "same_leaves st pt st' pt' \<longleftrightarrow>
     (\<forall>ks. idxs_ok ks \<longrightarrow> length ks = 3 \<longrightarrow>
        leaf (mm_mem st') (root_ppn pt') ks = leaf (mm_mem st) (root_ppn pt) ks)"

lemma pt_grows_refl [simp]: "pt_grows st pt st pt"
  by (simp add: pt_grows_def)

lemma pt_grows_trans:
  assumes "pt_grows st pt st1 pt1" and "pt_grows st1 pt1 st2 pt2"
  shows "pt_grows st pt st2 pt2"
proof -
  obtain ts where ts: "pt_frames pt1 = pt_frames pt @ ts" "ft_ppn ` set ts = in_use st1 - in_use st"
      "frames_left st = frames_left st1 + length ts"
    using assms(1) by (auto simp: pt_grows_def)
  obtain us where us: "pt_frames pt2 = pt_frames pt1 @ us" "ft_ppn ` set us = in_use st2 - in_use st1"
      "frames_left st1 = frames_left st2 + length us"
    using assms(2) by (auto simp: pt_grows_def)
  have "frames_of pt1 \<subseteq> frames_of pt2"
    using us(1) by (auto simp: frames_of_def)
  then have "same_outside (frames_of pt2) (mm_mem st) (mm_mem st2)"
    using assms by (meson pt_grows_def same_outside_mono same_outside_trans)
  moreover have "ft_ppn ` set (ts @ us) = in_use st2 - in_use st"
    using ts(2) us(2) assms by (auto simp: pt_grows_def image_Un)
  ultimately show ?thesis
    using assms ts us unfolding pt_grows_def by (intro conjI exI [of _ "ts @ us"]) auto
qed

lemma same_leaves_refl [simp]: "same_leaves st pt st pt"
  by (simp add: same_leaves_def)

lemma same_leaves_trans:
  "same_leaves st pt st1 pt1 \<Longrightarrow> same_leaves st1 pt1 st2 pt2 \<Longrightarrow> same_leaves st pt st2 pt2"
  by (simp add: same_leaves_def)

lemma same_leaves_lookup:
  "same_leaves st pt st' pt' \<Longrightarrow> pt_lookup (mm_mem st') pt' v = pt_lookup (mm_mem st) pt v"
  by (simp add: same_leaves_def pt_lookup_def)

text \<open>One missing node is created: the frame is cleared, hung into the empty slot and recorded.\<close>

lemma create_child:
  assumes inv: "pt_inv st pt" and w: "walk (mm_mem st) (root_ppn pt) is = Some g"
    and ok: "idxs_ok (is @ [i])" "length is \<le> 1"
    and empty: "\<not> is_valid (load_pte (mm_mem st) (get_pte_array g i))"
    and a: "frame_alloc_unwrap st = Inr (t, st1)"
  defines "st2 \<equiv> store_pte (get_pte_array g i) (PageTableEntry_new (ft_ppn t) PTE_V) st1"
    and "pt2 \<equiv> pt\<lparr>pt_frames := pt_frames pt @ [t]\<rparr>"
  shows "pt_inv st2 pt2" and "pt_grows st pt st2 pt2" and "same_leaves st pt st2 pt2"
    and "walk (mm_mem st2) (root_ppn pt2) (is @ [i]) = Some (ft_ppn t)"
proof -
  let ?F = "frames_of pt" and ?r = "root_ppn pt" and ?c = "ft_ppn t"
  have mm: "mm_inv st" and wf: "table_wf (mm_mem st) ?r ?F" and use: "?F \<subseteq> in_use st"
    and dist: "distinct (pt_frames pt)"
    using inv by (auto simp: pt_inv_def)
  note fr = frame_alloc_unwrap_Inr [OF mm a]
  have c: "?c \<notin> ?F" using fr(1) use by blast
  have out: "same_outside {?c} (mm_mem st) (mm_mem st1)"
    using mm a by (rule frame_alloc_unwrap_same_outside)
  have g: "g \<in> ?F" "ppn_ok g" using table_wfD [OF wf] w ok by auto
  have wf1: "table_wf (mm_mem st1) ?r ?F" using c by (intro table_wf_same_outside [OF wf out]) simp
  have w1: "walk (mm_mem st1) ?r is = Some g"
    using w ok c by (subst walk_same_outside [OF wf out]) auto
  have "child (mm_mem st) g i = None"
    using empty by (simp add: child_def slot_def load_pte_def)
  then have e1: "child (mm_mem st1) g i = None"
    using g c ok by (subst child_same_outside [OF out]) auto
  have z: "slot (mm_mem st1) ?c j = 0" if "unat j < 512" for j
    using mm a that by (rule frame_alloc_unwrap_zero)
  have m2: "mm_mem st2 = write_u64 (mm_mem st1) (get_pte_array g i) (pte_bits (PageTableEntry_new ?c PTE_V))"
    and fa2: "FRAME_ALLOCATOR st2 = FRAME_ALLOCATOR st1"
    by (simp_all add: st2_def store_pte_def)
  have f2: "frames_of pt2 = insert ?c ?F" and r2: "root_ppn pt2 = ?r"
    by (auto simp: frames_of_def pt2_def)
  have p2: "pt_frames pt2 = pt_frames pt @ [t]" by (simp add: pt2_def)
  note child_facts = wf1 w1 ok e1 c fr(4) z
  have "table_wf (mm_mem st2) ?r (insert ?c ?F)"
    unfolding m2 using child_facts by (rule table_wf_store_child)
  moreover have "distinct (pt_frames pt2)"
    using dist c by (auto simp: pt2_def frames_of_def)
  ultimately show "pt_inv st2 pt2"
    using fr(2,3) use by (auto simp: pt_inv_def f2 r2 fa2)
  have "same_outside {g} (mm_mem st1) (mm_mem st2)"
    unfolding m2 using g ok by (intro same_outside_slot_write) auto
  then have "same_outside (insert ?c ?F) (mm_mem st) (mm_mem st2)"
    using out g(1) by (meson empty_subsetI insert_mono insert_subset same_outside_mono same_outside_trans subset_insertI2)
  then show "pt_grows st pt st2 pt2"
    using fr(1,2,6) by (auto simp: pt_grows_def f2 r2 fa2 p2)
  show "walk (mm_mem st2) (root_ppn pt2) (is @ [i]) = Some ?c"
    unfolding m2 r2 using ok by (subst walk_store_child [OF child_facts]) auto
  have "leaf (mm_mem st2) ?r ks = leaf (mm_mem st) ?r ks" if "idxs_ok ks" "length ks = 3" for ks
  proof -
    have "leaf (mm_mem st2) ?r ks = leaf (mm_mem st1) ?r ks"
      unfolding m2 using child_facts that by (rule leaf_store_child)
    also have "\<dots> = leaf (mm_mem st) ?r ks"
      using c that by (intro leaf_same_outside [OF wf out]) auto
    finally show ?thesis .
  qed
  then show "same_leaves st pt st2 pt2"
    by (simp add: same_leaves_def r2)
qed

lemma load_store_pte [simp]:
  "load_pte (mm_mem (store_pte (get_pte_array p i) e st)) (get_pte_array p i) = e"
  using slot_write_same [of "mm_mem st" p i "pte_bits e"] by (simp add: load_pte_def store_pte_def slot_def)

lemma FRAME_ALLOCATOR_store_pte [simp]: "FRAME_ALLOCATOR (store_pte a e st) = FRAME_ALLOCATOR st"
  by (simp add: store_pte_def)

text \<open>One iteration of the loop, on either branch, as a step of the walk.\<close>

lemma find_pte_create_loop_valid:
  assumes "is_valid (load_pte (mm_mem st) (get_pte_array ppn idx))" and "js \<noteq> []"
    and "walk (mm_mem st) (root_ppn pt) is = Some ppn"
  defines "n \<equiv> pte_ppn (load_pte (mm_mem st) (get_pte_array ppn idx))"
  shows "find_pte_create_loop (idx # js) ppn pt st = find_pte_create_loop js n pt st"
    and "walk (mm_mem st) (root_ppn pt) (is @ [idx]) = Some n"
proof -
  obtain j js' where "js = j # js'" using assms(2) by (cases js) auto
  then show "find_pte_create_loop (idx # js) ppn pt st = find_pte_create_loop js n pt st"
    using assms(1) by (simp add: Let_def n_def)
  show "walk (mm_mem st) (root_ppn pt) (is @ [idx]) = Some n"
    using assms by (simp add: walk_snoc child_def slot_def load_pte_def)
qed

lemma find_pte_create_loop_invalid:
  assumes "\<not> is_valid (load_pte (mm_mem st) (get_pte_array ppn idx))" and "js \<noteq> []" and "mm_inv st"
  shows "find_pte_create_loop (idx # js) ppn pt st =
    bind (frame_alloc_unwrap st) (\<lambda>(t, st1). find_pte_create_loop js (ft_ppn t)
      (pt\<lparr>pt_frames := pt_frames pt @ [t]\<rparr>)
      (store_pte (get_pte_array ppn idx) (PageTableEntry_new (ft_ppn t) PTE_V) st1))"
proof -
  obtain j js' where js: "js = j # js'" using assms(2) by (cases js) auto
  have "pte_ppn (PageTableEntry_new (ft_ppn (fst a)) PTE_V) = ft_ppn (fst a)" if "frame_alloc_unwrap st = Inr a" for a
    using frame_alloc_unwrap_Inr(4) [OF assms(3), of "fst a" "snd a"] that by (intro pte_ppn_new) simp
  with assms(1) show ?thesis
    by (simp add: js Let_def bind_assoc case_prod_unfold cong: bind_cong)
qed

text \<open>
  The walk with creation ends at the slot of the page number, keeps every leaf, and needs at most
  one frame for each level it passes.
\<close>

lemma find_pte_create_loop_Inr:
  assumes "find_pte_create_loop idxs ppn pt st = Inr (x, pt', st')"
    and "pt_inv st pt" and "walk (mm_mem st) (root_ppn pt) is = Some ppn"
    and "idxs_ok (is @ idxs)" and "length (is @ idxs) = 3" and "idxs \<noteq> []"
  shows "pt_inv st' pt' \<and> pt_grows st pt st' pt' \<and> same_leaves st pt st' pt' \<and>
    (\<exists>q. walk (mm_mem st') (root_ppn pt') (is @ butlast idxs) = Some q \<and> x = Some (get_pte_array q (last idxs))) \<and>
    frames_left st < frames_left st' + length idxs"
  using assms
proof (induction idxs arbitrary: "is" ppn pt st)
  case Nil
  then show ?case by simp
next
  case (Cons idx js)
  show ?case
  proof (cases "js = []")
    case True
    with Cons.prems show ?thesis by auto
  next
    case js: False
    have ok: "idxs_ok (is @ [idx])" "length is \<le> 1" using Cons.prems(4,5) js by (cases js; auto)+
    have mm: "mm_inv st" using Cons.prems(2) by (simp add: pt_inv_def)
    show ?thesis
    proof (cases "is_valid (load_pte (mm_mem st) (get_pte_array ppn idx))")
      case True
      note v = find_pte_create_loop_valid [OF True js Cons.prems(3)]
      show ?thesis
        using Cons.IH [OF _ Cons.prems(2) v(2) _ _ js] Cons.prems(1,4,5) js by (fastforce simp: v(1))
    next
      case False
      then obtain t st1 where a: "frame_alloc_unwrap st = Inr (t, st1)"
        and rest: "find_pte_create_loop js (ft_ppn t) (pt\<lparr>pt_frames := pt_frames pt @ [t]\<rparr>)
          (store_pte (get_pte_array ppn idx) (PageTableEntry_new (ft_ppn t) PTE_V) st1) = Inr (x, pt', st')"
        using Cons.prems(1) by (auto simp: find_pte_create_loop_invalid js mm res_simps)
      note c = create_child [OF Cons.prems(2,3) ok False a]
      show ?thesis
        using Cons.IH [OF rest c(1,4) _ _ js] Cons.prems(4,5) js c(2,3) frame_alloc_unwrap_Inr(6) [OF mm a]
        by (auto dest: pt_grows_trans same_leaves_trans)
    qed
  qed
qed

lemma find_pte_create_loop_total:
  assumes "pt_inv st pt" and "walk (mm_mem st) (root_ppn pt) is = Some ppn"
    and "idxs_ok (is @ idxs)" and "length (is @ idxs) = 3" and "idxs \<noteq> []"
    and "length idxs \<le> Suc (frames_left st)"
  shows "\<exists>y. find_pte_create_loop idxs ppn pt st = Inr y"
  using assms
proof (induction idxs arbitrary: "is" ppn pt st)
  case Nil
  then show ?case by simp
next
  case (Cons idx js)
  show ?case
  proof (cases "js = []")
    case True
    then show ?thesis by simp
  next
    case js: False
    have ok: "idxs_ok (is @ [idx])" "length is \<le> 1" using Cons.prems(3,4) js by (cases js; auto)+
    have mm: "mm_inv st" using Cons.prems(1) by (simp add: pt_inv_def)
    show ?thesis
    proof (cases "is_valid (load_pte (mm_mem st) (get_pte_array ppn idx))")
      case True
      note v = find_pte_create_loop_valid [OF True js Cons.prems(2)]
      show ?thesis
        using Cons.IH [OF Cons.prems(1) v(2) _ _ js] Cons.prems(3,4,6) by (simp add: v(1))
    next
      case False
      have "0 < frames_left st" using Cons.prems(6) js by (cases js) auto
      with mm obtain t st1 where a: "frame_alloc_unwrap st = Inr (t, st1)"
        using frame_alloc_unwrap_total by blast
      note c = create_child [OF Cons.prems(1,2) ok False a]
      show ?thesis
        using Cons.IH [OF c(1,4) _ _ js] Cons.prems(3,4,6) frame_alloc_unwrap_Inr(6) [OF mm a] a
        by (simp add: find_pte_create_loop_invalid False js mm)
    qed
  qed
qed

subsection \<open>Finding, mapping and unmapping\<close>

lemma find_pte_loop_walk:
  "find_pte_loop m (is @ [i]) p = map_option (\<lambda>q. get_pte_array q i) (walk m p is)"
proof (induction "is" arbitrary: p)
  case Nil
  then show ?case by simp
next
  case (Cons j js)
  obtain k ks where "js @ [i] = k # ks" by (cases "js @ [i]") auto
  with Cons show ?case
    by (simp add: Let_def child_def slot_def load_pte_def)
qed

lemma indexes_split: "indexes v = butlast (indexes v) @ [last (indexes v)]"
  by (simp add: indexes_eq)

lemma find_pte_walk:
  "find_pte m pt v = map_option (\<lambda>q. get_pte_array q (last (indexes v))) (walk m (root_ppn pt) (butlast (indexes v)))"
  unfolding find_pte_def by (subst indexes_split) (rule find_pte_loop_walk)

lemma pt_lookup_find:
  "pt_lookup m pt v =
     (case find_pte m pt v of None \<Rightarrow> None
      | Some a \<Rightarrow> if is_valid (load_pte m a) then Some (load_pte m a) else None)"
  by (simp add: pt_lookup_def leaf_def find_pte_walk load_pte_def slot_def Let_def split: option.splits)

lemma find_pte_create_loop_found:
  "find_pte_loop (mm_mem st) idxs ppn = Some a \<Longrightarrow> find_pte_create_loop idxs ppn pt st = Inr (Some a, pt, st)"
proof (induction idxs arbitrary: ppn)
  case Nil
  then show ?case by simp
next
  case (Cons i is')
  then show ?case by (cases is') (auto simp: Let_def split: if_splits)
qed

lemma find_pte_create_Inr:
  assumes "find_pte_create v pt st = Inr (x, pt', st')" and "pt_inv st pt"
  shows "pt_inv st' pt'" and "pt_grows st pt st' pt'" and "same_leaves st pt st' pt'"
    and "\<exists>q. walk (mm_mem st') (root_ppn pt') (butlast (indexes v)) = Some q \<and>
      x = Some (get_pte_array q (last (indexes v)))"
    and "frames_left st \<le> frames_left st' + 2"
  using find_pte_create_loop_Inr [of "indexes v" "root_ppn pt" pt st x pt' st' "[]"] assms
  by (auto simp: find_pte_create_def simp flip: length_greater_0_conv)

lemma find_pte_create_total:
  assumes "pt_inv st pt" and "2 \<le> frames_left st"
  shows "\<exists>y. find_pte_create v pt st = Inr y"
  using find_pte_create_loop_total [of st pt "[]" "root_ppn pt" "indexes v"] assms
  by (simp add: find_pte_create_def flip: length_greater_0_conv)

lemma indexes_pathD:
  "idxs_ok (butlast (indexes v))" "length (butlast (indexes v)) = 2" "unat (last (indexes v)) < 512"
  by (auto simp: indexes_eq take_bit_9_less)

text \<open>A store of an entry at the slot of page \<open>v\<close>: the new map and the kept invariant.\<close>

lemma store_at_slot:
  fixes e :: PageTableEntry
  assumes "pt_inv st pt" and "walk (mm_mem st) (root_ppn pt) (butlast (indexes v)) = Some q"
  defines "st' \<equiv> store_pte (get_pte_array q (last (indexes v))) e st"
  shows "pt_inv st' pt" and "pt_grows st pt st' pt"
    and "pt_lookup (mm_mem st') pt w =
      (if indexes w = indexes v then (if is_valid e then Some e else None) else pt_lookup (mm_mem st) pt w)"
proof -
  have wf: "table_wf (mm_mem st) (root_ppn pt) (frames_of pt)" using assms(1) by (simp add: pt_inv_def)
  have i: "idxs_ok (butlast (indexes v) @ [last (indexes v)])" using indexes_pathD by simp
  have q: "q \<in> frames_of pt" "ppn_ok q"
    using table_wfD [OF wf] assms(2) indexes_pathD by auto
  have m': "mm_mem st' = write_u64 (mm_mem st) (get_pte_array q (last (indexes v))) (pte_bits e)"
    by (simp add: st'_def store_pte_def)
  have "table_wf (mm_mem st') (root_ppn pt) (frames_of pt)"
    unfolding m' using wf assms(2) i indexes_pathD(2) by (rule table_wf_store_leaf)
  then show "pt_inv st' pt" using assms(1) by (simp add: pt_inv_def st'_def)
  have "same_outside {q} (mm_mem st) (mm_mem st')"
    unfolding m' using q indexes_pathD by (intro same_outside_slot_write) auto
  then show "pt_grows st pt st' pt"
    using q by (auto simp: pt_grows_def st'_def intro: same_outside_mono)
  show "pt_lookup (mm_mem st') pt w =
      (if indexes w = indexes v then (if is_valid e then Some e else None) else pt_lookup (mm_mem st) pt w)"
    unfolding m' pt_lookup_def using leaf_store_leaf [OF wf assms(2) i indexes_pathD(2), of "indexes w" "pte_bits e"]
    by (simp flip: indexes_split)
qed

lemma pt_map_Inr:
  assumes "pt_inv st pt" and "pt_map v p f pt st = Inr (pt', st')"
  shows "pt_inv st' pt'" and "pt_grows st pt st' pt'" and "pt_lookup (mm_mem st) pt v = None"
    and "pt_lookup (mm_mem st') pt' w =
      (if indexes w = indexes v then Some (PageTableEntry_new p (f OR PTE_V)) else pt_lookup (mm_mem st) pt w)"
    and "frames_left st \<le> frames_left st' + 2"
proof -
  obtain a st1 where c: "find_pte_create v pt st = Inr (Some a, pt', st1)"
    and nv: "\<not> is_valid (load_pte (mm_mem st1) a)"
    and st': "st' = store_pte a (PageTableEntry_new p (f OR PTE_V)) st1"
    using assms(2) by (auto simp: pt_map_def res_simps)
  note cr = find_pte_create_Inr [OF c assms(1)]
  obtain q where q: "walk (mm_mem st1) (root_ppn pt') (butlast (indexes v)) = Some q"
    and a: "a = get_pte_array q (last (indexes v))"
    using cr(4) by auto
  have "st' = store_pte (get_pte_array q (last (indexes v))) (PageTableEntry_new p (f OR PTE_V)) st1"
    using st' a by simp
  note s = store_at_slot [OF cr(1) q, where e = "PageTableEntry_new p (f OR PTE_V)", folded this]
  show "pt_inv st' pt'" by (rule s(1))
  show "pt_grows st pt st' pt'" using cr(2) s(2) by (rule pt_grows_trans)
  have "pt_lookup (mm_mem st1) pt' v = None"
    using nv q a by (simp add: pt_lookup_find find_pte_walk)
  then show "pt_lookup (mm_mem st) pt v = None"
    using same_leaves_lookup [OF cr(3)] by simp
  show "pt_lookup (mm_mem st') pt' w =
      (if indexes w = indexes v then Some (PageTableEntry_new p (f OR PTE_V)) else pt_lookup (mm_mem st) pt w)"
    using s(3) same_leaves_lookup [OF cr(3)] by simp
  show "frames_left st \<le> frames_left st' + 2"
    using cr(5) st' by simp
qed

lemma pt_map_total:
  assumes "pt_inv st pt" and "pt_lookup (mm_mem st) pt v = None" and "2 \<le> frames_left st"
  shows "\<exists>y. pt_map v p f pt st = Inr y"
proof -
  obtain x pt' st' where c: "find_pte_create v pt st = Inr (x, pt', st')"
    using find_pte_create_total [OF assms(1,3)] by (metis prod_cases3)
  note cr = find_pte_create_Inr [OF c assms(1)]
  obtain q where q: "walk (mm_mem st') (root_ppn pt') (butlast (indexes v)) = Some q"
    and x: "x = Some (get_pte_array q (last (indexes v)))"
    using cr(4) by auto
  have "pt_lookup (mm_mem st') pt' v = None"
    using same_leaves_lookup [OF cr(3)] assms(2) by simp
  then have "\<not> is_valid (load_pte (mm_mem st') (get_pte_array q (last (indexes v))))"
    using q by (auto simp: pt_lookup_find find_pte_walk split: if_splits)
  then show ?thesis
    using c x by (simp add: pt_map_def)
qed

text \<open>Beside a mapped page of the same lowest node no frame is needed.\<close>

lemma pt_map_shared:
  assumes "pt_lookup (mm_mem st) pt w \<noteq> None" and "butlast (indexes w) = butlast (indexes v)"
  shows "pt_map v p f pt st = Inr (pt', st') \<Longrightarrow> frames_left st' = frames_left st"
    and "pt_lookup (mm_mem st) pt v = None \<Longrightarrow> \<exists>y. pt_map v p f pt st = Inr y"
proof -
  obtain q where "walk (mm_mem st) (root_ppn pt) (butlast (indexes v)) = Some q"
    using assms by (auto simp: pt_lookup_def leaf_def split: option.splits)
  then have a: "find_pte (mm_mem st) pt v = Some (get_pte_array q (last (indexes v)))"
    by (simp add: find_pte_walk)
  then have c: "find_pte_create v pt st = Inr (Some (get_pte_array q (last (indexes v))), pt, st)"
    unfolding find_pte_create_def find_pte_def by (rule find_pte_create_loop_found)
  show "pt_map v p f pt st = Inr (pt', st') \<Longrightarrow> frames_left st' = frames_left st"
    using c by (auto simp: pt_map_def elim!: bind_InrE)
  show "pt_lookup (mm_mem st) pt v = None \<Longrightarrow> \<exists>y. pt_map v p f pt st = Inr y"
    using a c by (simp add: pt_map_def pt_lookup_find split: if_splits)
qed

lemma pt_map_mapped:
  assumes "pt_lookup (mm_mem st) pt v = Some e"
  shows "pt_map v p f pt st = Inl (MappedBefore (vpn_bits v))"
proof -
  obtain a where "find_pte (mm_mem st) pt v = Some a" and a: "is_valid (load_pte (mm_mem st) a)"
    using assms by (auto simp: pt_lookup_find split: option.splits if_splits)
  then have "find_pte_create v pt st = Inr (Some a, pt, st)"
    by (simp add: find_pte_create_def find_pte_def find_pte_create_loop_found)
  with a show ?thesis by (simp add: pt_map_def)
qed

lemma pt_unmap_mapped:
  assumes "pt_inv st pt" and "pt_lookup (mm_mem st) pt v = Some e"
  shows "\<exists>st'. pt_unmap v pt st = Inr st' \<and> pt_inv st' pt \<and> pt_grows st pt st' pt \<and>
    (\<forall>w. pt_lookup (mm_mem st') pt w = (if indexes w = indexes v then None else pt_lookup (mm_mem st) pt w))"
proof -
  obtain q where q: "walk (mm_mem st) (root_ppn pt) (butlast (indexes v)) = Some q"
    and v: "is_valid (load_pte (mm_mem st) (get_pte_array q (last (indexes v))))"
    using assms(2) by (auto simp: pt_lookup_find find_pte_walk split: if_splits option.splits)
  note s = store_at_slot [OF assms(1) q, where e = PageTableEntry_empty]
  have "pt_unmap v pt st = Inr (store_pte (get_pte_array q (last (indexes v))) PageTableEntry_empty st)"
    using q v by (simp add: pt_unmap_def find_pte_walk)
  with s show ?thesis by simp
qed

lemma pt_unmap_unmapped:
  assumes "pt_lookup (mm_mem st) pt v = None"
  shows "pt_unmap v pt st = Inl (if find_pte (mm_mem st) pt v = None then UnwrapNone else InvalidUnmap (vpn_bits v))"
  using assms by (auto simp: pt_unmap_def pt_lookup_find split: option.splits if_splits)

lemma PageTable_new_Inr:
  assumes "mm_inv st" and "PageTable_new st = Inr (pt, st')"
  shows "pt_inv st' pt" and "pt_lookup (mm_mem st') pt v = None" and "in_use st' = in_use st \<union> frames_of pt"
    and "frames_of pt \<inter> in_use st = {}" and "same_outside (frames_of pt) (mm_mem st) (mm_mem st')"
    and "frames_left st = Suc (frames_left st')"
proof -
  obtain t where a: "frame_alloc_unwrap st = Inr (t, st')" and pt: "pt = \<lparr>root_ppn = ft_ppn t, pt_frames = [t]\<rparr>"
    using assms(2) by (auto simp: PageTable_new_def res_simps)
  note fr = frame_alloc_unwrap_Inr [OF assms(1) a]
  have "child (mm_mem st') (ft_ppn t) i = None" if "unat i < 512" for i
    using frame_alloc_unwrap_zero [OF assms(1) a that] by (simp add: child_def)
  then have w: "walk (mm_mem st') (ft_ppn t) is = (if is = [] then Some (ft_ppn t) else None)" if "idxs_ok is" for "is"
    using that by (cases "is") auto
  have "table_wf (mm_mem st') (ft_ppn t) {ft_ppn t}"
    using fr(4) w by (auto simp: table_wf_def split: if_splits)
  then show "pt_inv st' pt"
    using fr(2,3) by (simp add: pt_inv_def pt frames_of_def)
  have "butlast (indexes v) \<noteq> []" by (simp add: indexes_eq)
  then show "pt_lookup (mm_mem st') pt v = None"
    using w [OF indexes_pathD(1)] by (simp add: pt_lookup_def leaf_def pt)
  show "in_use st' = in_use st \<union> frames_of pt" "frames_of pt \<inter> in_use st = {}"
    using fr(1,2) by (auto simp: pt frames_of_def)
  show "same_outside (frames_of pt) (mm_mem st) (mm_mem st')"
    using frame_alloc_unwrap_same_outside [OF assms(1) a] by (simp add: pt frames_of_def)
  show "frames_left st = Suc (frames_left st')" by (rule fr(6))
qed

subsection \<open>The page table as a map\<close>

interpretation pt: page_map
  "\<lambda>(pt, st). pt_lookup (mm_mem st) pt"
  "\<lambda>v (p, f) (pt, st). pt_map v p f pt st"
  "\<lambda>v (pt, st). bind (pt_unmap v pt st) (\<lambda>st. Inr (pt, st))"
  "\<lambda>(p, f). PageTableEntry_new p (f OR PTE_V)"
  "\<lambda>(pt, st). pt_inv st pt"
proof (unfold_locales, goal_cases)
  case (1 s v p s')
  then show ?case by (cases s; cases p; cases s') (auto dest: pt_map_Inr(1))
next
  case (2 s v p s')
  then show ?case by (cases s; cases p; cases s') (auto dest: pt_map_Inr(3))
next
  case (3 s v p s' w)
  then show ?case by (cases s; cases p; cases s') (auto simp: pt_map_Inr(4))
next
  case (4 s v p)
  then show ?case by (cases s; cases p) (auto simp: pt_map_mapped)
next
  case (5 s v)
  obtain pt st where s: "s = (pt, st)" by fastforce
  with 5 obtain e where "pt_lookup (mm_mem st) pt v = Some e" "pt_inv st pt" by auto
  from pt_unmap_mapped [OF this(2,1)] s show ?case by auto
next
  case (6 s v)
  then show ?case by (cases s) (auto simp: pt_unmap_unmapped)
next
  case (7 v w s)
  then show ?case by (cases s) (simp add: pt_lookup_def)
qed

subsection \<open>Other tables, tokens and addresses\<close>

text \<open>A change to one table leaves every table over other frames as it is.\<close>

lemma pt_inv_same_outside:
  assumes "pt_inv st pt" and "same_outside P (mm_mem st) (mm_mem st')" and "P \<inter> frames_of pt = {}"
    and "mm_inv st'" and "frames_of pt \<subseteq> in_use st'"
  shows "pt_inv st' pt" and "pt_lookup (mm_mem st') pt v = pt_lookup (mm_mem st) pt v"
proof -
  have wf: "table_wf (mm_mem st) (root_ppn pt) (frames_of pt)"
    using assms(1) by (simp add: pt_inv_def)
  show "pt_inv st' pt"
    using assms table_wf_same_outside [OF wf assms(2,3)] by (simp add: pt_inv_def)
  show "pt_lookup (mm_mem st') pt v = pt_lookup (mm_mem st) pt v"
    using leaf_same_outside [OF wf assms(2,3)] by (simp add: pt_lookup_def)
qed

lemma pt_grows_frames:
  assumes "pt_grows st pt st' pt'"
  shows "frames_of pt' = frames_of pt \<union> (in_use st' - in_use st)"
proof -
  obtain ts where "pt_frames pt' = pt_frames pt @ ts" and "ft_ppn ` set ts = in_use st' - in_use st"
    using assms by (auto simp: pt_grows_def)
  then show ?thesis by (simp add: frames_of_def image_Un)
qed

lemma pt_grows_other:
  assumes "pt_grows st pt st' pt'" and "mm_inv st'" and "pt_inv st pt2" and "frames_of pt \<inter> frames_of pt2 = {}"
  shows "pt_inv st' pt2" and "frames_of pt' \<inter> frames_of pt2 = {}"
    and "pt_lookup (mm_mem st') pt2 v = pt_lookup (mm_mem st) pt2 v"
proof -
  have use: "frames_of pt2 \<subseteq> in_use st" "in_use st \<subseteq> in_use st'"
    using assms(1,3) by (auto simp: pt_inv_def pt_grows_def)
  show dis: "frames_of pt' \<inter> frames_of pt2 = {}"
    using pt_grows_frames [OF assms(1)] use assms(4) by auto
  have out: "same_outside (frames_of pt') (mm_mem st) (mm_mem st')"
    using assms(1) by (simp add: pt_grows_def)
  show "pt_inv st' pt2" and "pt_lookup (mm_mem st') pt2 v = pt_lookup (mm_mem st) pt2 v"
    using pt_inv_same_outside [OF assms(3) out dis assms(2)] use by auto
qed

lemma root_ppn_ok: "pt_inv st pt \<Longrightarrow> ppn_ok (root_ppn pt)"
  using table_wfD(1,2) by (auto simp: pt_inv_def)

lemma from_token_token:
  assumes "ppn_ok (root_ppn pt)"
  shows "root_ppn (from_token (token pt)) = root_ppn pt"
proof -
  have "take_bit 44 (push_bit 60 8 OR w) = take_bit 44 w" for w :: usize
    by (rule bit_word_eqI) (auto simp: bit_simps)
  then have "ppn_bits (root_ppn (from_token (token pt))) = take_bit 44 (ppn_bits (root_ppn pt))"
    unfolding from_token_def token_def by (simp only: PageTable.simps and_low_bits PhysPageNum_from_bits) simp
  then show ?thesis
    using assms by (intro PhysPageNum_eqI) (simp add: ppn_ok_def take_bit_eq_self_if_less)
qed

lemma find_pte_root: "root_ppn pt = root_ppn pt' \<Longrightarrow> find_pte m pt v = find_pte m pt' v"
  by (simp add: find_pte_def)

lemma translate_lookup:
  "pt_lookup m pt v = (case translate m pt v of None \<Rightarrow> None | Some e \<Rightarrow> if is_valid e then Some e else None)"
  by (simp add: translate_def pt_lookup_find split: option.splits)

lemma translate_mapped: "pt_lookup m pt v = Some e \<Longrightarrow> translate m pt v = Some e"
  by (auto simp: translate_lookup split: option.splits if_splits)

text \<open>The address \<open>translate_va\<close> computes is the base of the entry's page plus the offset.\<close>

lemma translate_va_translate:
  "translate_va m pt va = map_option (\<lambda>e. PhysAddr (page_base (pte_ppn e) + va_page_offset va)) (translate m pt (va_floor va))"
proof -
  have "PhysAddr_from (pa_bits (PhysAddr_from_ppn (pte_ppn e)) + va_page_offset va) =
      PhysAddr (page_base (pte_ppn e) + va_page_offset va)" for e
  proof -
    have off: "unat (va_page_offset va) < 4096" by (simp add: unat_take_bit)
    have "unat (ppn_bits (pte_ppn e)) < 2 ^ 44"
      using pte_ppn_ok [of e] by (simp add: ppn_ok_def del: pte_ppn_ok)
    then have "unat (page_base (pte_ppn e) + va_page_offset va) < 2 ^ 56"
      using off by (subst unat_page_base_plus) auto
    then have "take_bit 56 (page_base (pte_ppn e) + va_page_offset va) = page_base (pte_ppn e) + va_page_offset va"
      by (rule take_bit_eq_self_if_less)
    then show ?thesis
      by (intro PhysAddr.expand) (simp only: PhysAddr_from_bits PhysAddr.sel page_base_def)
  qed
  then show ?thesis
    by (simp add: translate_va_def translate_def option.map_comp comp_def Let_def)
qed

text \<open>An empty table in the concrete state, for the witnesses.\<close>

lemma ex_table:
  obtains pt st where "PageTable_new ex_mm = Inr (pt, st)" and "pt_inv st pt"
    and "\<And>v. pt_lookup (mm_mem st) pt v = None" and "frames_left st = 1023"
proof -
  obtain t st where a: "frame_alloc_unwrap ex_mm = Inr (t, st)"
    using frame_alloc_unwrap_total [OF ex_mm_inv] by (auto simp: ex_mm_left)
  then have n: "PageTable_new ex_mm = Inr (\<lparr>root_ppn = ft_ppn t, pt_frames = [t]\<rparr>, st)"
    by (simp add: PageTable_new_def)
  note facts = PageTable_new_Inr [OF ex_mm_inv n]
  show ?thesis
    using that [OF n facts(1,2)] facts(6) by (simp add: ex_mm_left)
qed

text \<open>The same table with one page mapped.\<close>

lemma ex_mapped_table:
  obtains pt st where "pt_inv st pt" and "1000 \<le> frames_left st"
    and "\<And>w. pt_lookup (mm_mem st) pt w =
      (if indexes w = indexes (VirtPageNum 5) then Some (PageTableEntry_new (PhysPageNum 0x80500) (PTE_R OR PTE_V)) else None)"
proof -
  obtain pt st where pt: "pt_inv st pt" "\<And>v. pt_lookup (mm_mem st) pt v = None" "frames_left st = 1023"
    using ex_table by blast
  have room: "2 \<le> frames_left st" by (simp add: pt(3))
  obtain pt' st' where m: "pt_map (VirtPageNum 5) (PhysPageNum 0x80500) PTE_R pt st = Inr (pt', st')"
    using pt_map_total [OF pt(1) pt(2) room] by (metis surj_pair)
  note facts = pt_map_Inr [OF pt(1) m]
  have "1000 \<le> frames_left st'" using facts(5) pt(3) by simp
  with facts(4) pt(2) that [OF facts(1)] show ?thesis by simp
qed

subsection \<open>Properties of the page table\<close>

text \<open>
  C5: \<open>map\<close> on a page that is not mapped succeeds when two frames are free, adds exactly this
  translation, takes at most two frames, and changes no page but the table's own nodes; on a page
  that is mapped it panics.
\<close>

theorem pt_map_spec:
  assumes "pt_inv st pt" and "2 \<le> frames_left st"
  shows "case pt_lookup (mm_mem st) pt v of
      Some e \<Rightarrow> pt_map v p f pt st = Inl (MappedBefore (vpn_bits v))
    | None \<Rightarrow> (\<exists>pt' st'. pt_map v p f pt st = Inr (pt', st') \<and> pt_inv st' pt' \<and>
        (\<forall>w. pt_lookup (mm_mem st') pt' w =
          (if indexes w = indexes v then Some (PageTableEntry_new p (f OR PTE_V)) else pt_lookup (mm_mem st) pt w)) \<and>
        frames_of pt' = frames_of pt \<union> (in_use st' - in_use st) \<and> frames_left st \<le> frames_left st' + 2 \<and>
        same_outside (frames_of pt') (mm_mem st) (mm_mem st'))"
proof (cases "pt_lookup (mm_mem st) pt v")
  case (Some e)
  then show ?thesis by (simp add: pt_map_mapped)
next
  case None
  then obtain pt' st' where m: "pt_map v p f pt st = Inr (pt', st')"
    using pt_map_total [OF assms(1) None assms(2)] by (metis surj_pair)
  note facts = pt_map_Inr [OF assms(1) m]
  have "frames_of pt' = frames_of pt \<union> (in_use st' - in_use st)"
    using facts(2) by (rule pt_grows_frames)
  moreover have "same_outside (frames_of pt') (mm_mem st) (mm_mem st')"
    using facts(2) by (simp add: pt_grows_def)
  ultimately show ?thesis
    using None m facts(1,4,5) by auto
qed

theorem pt_map_spec_witness:
  "\<exists>pt st pt' st'. pt_inv st pt \<and> pt_lookup (mm_mem st) pt (VirtPageNum 9) = None \<and>
     pt_map (VirtPageNum 9) (PhysPageNum 0x80600) PTE_W pt st = Inr (pt', st') \<and>
     pt_lookup (mm_mem st') pt' (VirtPageNum 9) = Some (PageTableEntry_new (PhysPageNum 0x80600) (PTE_W OR PTE_V)) \<and>
     pt_map (VirtPageNum 5) (PhysPageNum 0x80600) PTE_W pt st = Inl (MappedBefore 5)"
proof -
  obtain pt st where pt: "pt_inv st pt" "1000 \<le> frames_left st"
    "\<And>w. pt_lookup (mm_mem st) pt w = (if indexes w = indexes (VirtPageNum 5)
       then Some (PageTableEntry_new (PhysPageNum 0x80500) (PTE_R OR PTE_V)) else None)"
    using ex_mapped_table by blast
  have "indexes (VirtPageNum 9) \<noteq> indexes (VirtPageNum 5)" by (simp add: indexes_eq)
  with pt pt_map_spec [of st pt "VirtPageNum 9" "PhysPageNum 0x80600" PTE_W]
    pt_map_spec [of st pt "VirtPageNum 5" "PhysPageNum 0x80600" PTE_W]
  show ?thesis by fastforce
qed

text \<open>
  C30: \<open>unmap\<close> removes exactly the given translation and allocates nothing; on a page that is not
  mapped it panics.
\<close>

theorem pt_unmap_spec:
  assumes "pt_inv st pt"
  shows "case pt_unmap v pt st of
      Inl e \<Rightarrow> pt_lookup (mm_mem st) pt v = None \<and> (e = UnwrapNone \<or> e = InvalidUnmap (vpn_bits v))
    | Inr st' \<Rightarrow> pt_lookup (mm_mem st) pt v \<noteq> None \<and> pt_inv st' pt \<and>
        (\<forall>w. pt_lookup (mm_mem st') pt w = (if indexes w = indexes v then None else pt_lookup (mm_mem st) pt w)) \<and>
        in_use st' = in_use st \<and> same_outside (frames_of pt) (mm_mem st) (mm_mem st')"
proof (cases "pt_lookup (mm_mem st) pt v")
  case None
  then show ?thesis by (simp add: pt_unmap_unmapped)
next
  case (Some e)
  from pt_unmap_mapped [OF assms this] obtain st' where st': "pt_unmap v pt st = Inr st'" "pt_inv st' pt"
    "pt_grows st pt st' pt" "\<forall>w. pt_lookup (mm_mem st') pt w = (if indexes w = indexes v then None else pt_lookup (mm_mem st) pt w)"
    by blast
  moreover have "in_use st' = in_use st" "same_outside (frames_of pt) (mm_mem st) (mm_mem st')"
    using st'(3) by (auto simp: pt_grows_def)
  ultimately show ?thesis using Some by auto
qed

theorem pt_unmap_spec_witness:
  "\<exists>pt st. pt_inv st pt \<and> (\<exists>st'. pt_unmap (VirtPageNum 5) pt st = Inr st' \<and>
     pt_lookup (mm_mem st') pt (VirtPageNum 5) = None) \<and> (\<exists>e. pt_unmap (VirtPageNum 9) pt st = Inl e)"
proof -
  obtain pt st where pt: "pt_inv st pt"
    "\<And>w. pt_lookup (mm_mem st) pt w = (if indexes w = indexes (VirtPageNum 5)
       then Some (PageTableEntry_new (PhysPageNum 0x80500) (PTE_R OR PTE_V)) else None)"
    using ex_mapped_table by blast
  have "indexes (VirtPageNum 9) \<noteq> indexes (VirtPageNum 5)" by (simp add: indexes_eq)
  with pt pt_unmap_spec [OF pt(1), of "VirtPageNum 9"] pt_unmap_spec [OF pt(1), of "VirtPageNum 5"]
  show ?thesis by (intro exI [of _ pt] exI [of _ st]) (auto split: sum.splits)
qed

text \<open>
  C31: mapping a page and unmapping it again restores every translation of the table.
\<close>

theorem pt_map_unmap_restores:
  assumes "pt_inv st pt" and "pt_map v p f pt st = Inr (pt', st')"
  shows "\<exists>st''. pt_unmap v pt' st' = Inr st'' \<and> pt_inv st'' pt' \<and>
    pt_lookup (mm_mem st'') pt' = pt_lookup (mm_mem st) pt"
  using pt.put_remove [of "(pt, st)" v "(p, f)" "(pt', st')"] assms by (auto simp: res_simps)

theorem pt_map_unmap_restores_witness:
  "\<exists>pt st pt' st' st''. pt_inv st pt \<and> pt_map (VirtPageNum 9) (PhysPageNum 0x80600) PTE_W pt st = Inr (pt', st') \<and>
     pt_unmap (VirtPageNum 9) pt' st' = Inr st'' \<and> pt_lookup (mm_mem st'') pt' = pt_lookup (mm_mem st) pt"
proof -
  obtain pt st where pt: "pt_inv st pt" "\<And>v. pt_lookup (mm_mem st) pt v = None" "frames_left st = 1023"
    using ex_table by blast
  have "2 \<le> frames_left st" by (simp add: pt(3))
  then obtain pt' st' where "pt_map (VirtPageNum 9) (PhysPageNum 0x80600) PTE_W pt st = Inr (pt', st')"
    using pt_map_total [OF pt(1,2)] by (metis surj_pair)
  with pt(1) pt_map_unmap_restores [OF pt(1) this] show ?thesis by blast
qed

text \<open>
  C29: page tables are isolated: mapping a page in one table leaves a table over other frames
  with the same translations, and their frames stay apart.
\<close>

theorem pt_map_isolation:
  assumes "pt_inv st pt" and "pt_inv st pt2" and "frames_of pt \<inter> frames_of pt2 = {}"
    and "pt_map v p f pt st = Inr (pt', st')"
  shows "pt_inv st' pt2 \<and> pt_lookup (mm_mem st') pt2 = pt_lookup (mm_mem st) pt2 \<and>
    frames_of pt' \<inter> frames_of pt2 = {}"
proof -
  note facts = pt_map_Inr [OF assms(1,4)]
  have "mm_inv st'" using facts(1) by (simp add: pt_inv_def)
  note other = pt_grows_other [OF facts(2) this assms(2,3)]
  show ?thesis using other by auto
qed

theorem pt_map_isolation_witness:
  "\<exists>st pt pt2 pt' st'. pt_inv st pt \<and> pt_inv st pt2 \<and> frames_of pt \<inter> frames_of pt2 = {} \<and>
     pt_map (VirtPageNum 9) (PhysPageNum 0x80600) PTE_W pt st = Inr (pt', st') \<and>
     pt_lookup (mm_mem st') pt2 = pt_lookup (mm_mem st) pt2"
proof -
  obtain pt2 st where pt2: "pt_inv st pt2" "frames_left st = 1023"
    using ex_table by blast
  have mm: "mm_inv st" using pt2(1) by (simp add: pt_inv_def)
  obtain t st1 where "frame_alloc_unwrap st = Inr (t, st1)"
    using frame_alloc_unwrap_total [OF mm] pt2(2) by auto
  then obtain pt where n: "PageTable_new st = Inr (pt, st1)"
    by (simp add: PageTable_new_def)
  note new = PageTable_new_Inr [OF mm n]
  have dis: "frames_of pt \<inter> frames_of pt2 = {}"
    using new(4) pt2(1) by (auto simp: pt_inv_def)
  have "pt_inv st1 pt2"
    using pt_inv_same_outside(1) [OF pt2(1) new(5) dis] new(1,3) pt2(1) by (auto simp: pt_inv_def)
  moreover have "2 \<le> frames_left st1" using new(6) pt2(2) by simp
  then obtain pt' st' where "pt_map (VirtPageNum 9) (PhysPageNum 0x80600) PTE_W pt st1 = Inr (pt', st')"
    using pt_map_total [OF new(1,2)] by (metis surj_pair)
  ultimately show ?thesis
    using pt_map_isolation [OF new(1) _ dis] new(1) dis by blast
qed

text \<open>
  C36: a table rebuilt by \<open>from_token\<close> from the token of a table translates every address as the
  table itself; a mapped page is translated to its frame, at the same offset.
\<close>

theorem translate_va_from_token:
  assumes "pt_inv st pt" and "pt_lookup (mm_mem st) pt (va_floor va) = Some e"
  shows "translate_va (mm_mem st) (from_token (token pt)) va = Some (PhysAddr (page_base (pte_ppn e) + va_page_offset va)) \<and>
    unat (page_base (pte_ppn e) + va_page_offset va) = unat (ppn_bits (pte_ppn e)) * 4096 + unat (va_bits va) mod 4096 \<and>
    translate (mm_mem st) (from_token (token pt)) = translate (mm_mem st) pt"
proof -
  have root: "root_ppn (from_token (token pt)) = root_ppn pt"
    using root_ppn_ok [OF assms(1)] by (rule from_token_token)
  have same: "translate (mm_mem st) (from_token (token pt)) = translate (mm_mem st) pt"
    by (rule ext) (simp add: translate_def find_pte_root [OF root])
  have "unat (va_page_offset va) < 4096" "unat (va_page_offset va) = unat (va_bits va) mod 4096"
    by (simp_all add: unat_take_bit)
  then have "unat (page_base (pte_ppn e) + va_page_offset va) = unat (ppn_bits (pte_ppn e)) * 4096 + unat (va_bits va) mod 4096"
    using unat_page_base_plus [OF pte_ppn_ok, of "va_page_offset va" e] by simp
  with same translate_mapped [OF assms(2)] show ?thesis
    by (simp add: translate_va_translate)
qed

theorem translate_va_from_token_witness:
  "\<exists>st pt. pt_inv st pt \<and>
     translate_va (mm_mem st) (from_token (token pt)) (VirtAddr 0x5123) = Some (PhysAddr 0x80500123)"
proof -
  obtain pt st where pt: "pt_inv st pt"
    "\<And>w. pt_lookup (mm_mem st) pt w = (if indexes w = indexes (VirtPageNum 5)
       then Some (PageTableEntry_new (PhysPageNum 0x80500) (PTE_R OR PTE_V)) else None)"
    using ex_mapped_table by blast
  have v: "va_floor (VirtAddr 0x5123) = VirtPageNum 5"
    by (intro VirtPageNum_eqI) (simp add: unat_va_floor)
  have p: "pte_ppn (PageTableEntry_new (PhysPageNum 0x80500) (PTE_R OR PTE_V)) = PhysPageNum 0x80500"
    by (rule pte_ppn_new) (simp add: ppn_ok_def)
  have "pt_lookup (mm_mem st) pt (va_floor (VirtAddr 0x5123)) = Some (PageTableEntry_new (PhysPageNum 0x80500) (PTE_R OR PTE_V))"
    using pt(2) v by simp
  from translate_va_from_token [OF pt(1) this] pt(1) show ?thesis
    by (auto simp: p page_base_def PhysAddr_from_ppn_def)
qed

text \<open>
  \<open>translate_va\<close> does not look at the valid bit: on a page that is not mapped it returns
  \<open>None\<close> only when an inner node is missing, and otherwise whatever frame the invalid entry
  names, which for a page that \<open>unmap\<close> has cleared is physical page 0.
\<close>

lemma translate_va_after_unmap:
  assumes "pt_inv st pt" and "pt_unmap (va_floor va) pt st = Inr st'"
  shows "pt_lookup (mm_mem st') pt (va_floor va) = None \<and>
    translate_va (mm_mem st') pt va = Some (PhysAddr (va_page_offset va))"
proof -
  obtain q where q: "walk (mm_mem st) (root_ppn pt) (butlast (indexes (va_floor va))) = Some q"
    and st': "st' = store_pte (get_pte_array q (last (indexes (va_floor va)))) PageTableEntry_empty st"
    using assms(2) by (auto simp: pt_unmap_def find_pte_walk res_simps)
  note s = store_at_slot [OF assms(1) q, where e = PageTableEntry_empty, folded st']
  have wf: "table_wf (mm_mem st) (root_ppn pt) (frames_of pt)" using assms(1) by (simp add: pt_inv_def)
  have "idxs_ok (butlast (indexes (va_floor va)) @ [last (indexes (va_floor va))])"
    using indexes_pathD by simp
  then have "walk (mm_mem st') (root_ppn pt) (butlast (indexes (va_floor va))) = Some q"
    using walk_store_other [OF wf q, of "last (indexes (va_floor va))" "butlast (indexes (va_floor va))"] q
      indexes_pathD [of "va_floor va"] by (simp add: st' store_pte_def)
  then have "translate (mm_mem st') pt (va_floor va) = Some PageTableEntry_empty"
    by (simp add: translate_def find_pte_walk st')
  moreover have "page_base (pte_ppn PageTableEntry_empty) = 0"
    by (simp add: page_base_def PhysAddr_from_ppn_def pte_simps PageTableEntry_empty_def)
  ultimately show ?thesis
    using s(3) by (simp add: translate_va_translate)
qed

text \<open>
  A page-table entry gives back the frame number and the flags it was made of.
\<close>

lemma pte_roundtrip:
  assumes "ppn_ok p"
  shows "pte_ppn (PageTableEntry_new p f) = p \<and> pte_flags (PageTableEntry_new p f) = f \<and>
    (is_valid (PageTableEntry_new p f) \<longleftrightarrow> f AND PTE_V \<noteq> 0) \<and>
    (readable (PageTableEntry_new p f) \<longleftrightarrow> f AND PTE_R \<noteq> 0) \<and>
    (writable (PageTableEntry_new p f) \<longleftrightarrow> f AND PTE_W \<noteq> 0) \<and>
    (executable (PageTableEntry_new p f) \<longleftrightarrow> f AND PTE_X \<noteq> 0)"
  by (simp add: pte_ppn_new [OF assms] pte_flags_new is_valid_def readable_def writable_def executable_def)

end
