(* ===== verification/Map_Area.thy ===== *)
theory Map_Area
  imports Page_Table
begin

text \<open>
  The logical segments of \<^verbatim>\<open>src/os/src/mm/memory_set.rs\<close>: \<open>MapType\<close>, \<open>MapPermission\<close> and
  \<open>MapArea\<close> with its operations.  The frames of a framed segment are owned by a \<open>BTreeMap\<close>, an
  association list sorted by page number; dropping a value of it drops the frame.  The lemmas
  describe an area by the pages it maps, the frames it owns and the contents of its pages, and
  say how the address space grows when pages are added.
\<close>

subsection \<open>\<open>BTreeMap\<close>\<close>

text \<open>Insertion returns the value that was replaced, removal the value that was taken out.\<close>

fun bt_insert :: "'k::linorder \<Rightarrow> 'v \<Rightarrow> ('k \<times> 'v) list \<Rightarrow> 'v option \<times> ('k \<times> 'v) list" where
  "bt_insert k v [] = (None, [(k, v)])"
| "bt_insert k v ((k', v') # xs) =
     (if k < k' then (None, (k, v) # (k', v') # xs)
      else if k = k' then (Some v', (k, v) # xs)
      else (case bt_insert k v xs of (old, ys) \<Rightarrow> (old, (k', v') # ys)))"

fun bt_remove :: "'k::linorder \<Rightarrow> ('k \<times> 'v) list \<Rightarrow> 'v option \<times> ('k \<times> 'v) list" where
  "bt_remove k [] = (None, [])"
| "bt_remove k ((k', v') # xs) =
     (if k = k' then (Some v', xs)
      else (case bt_remove k xs of (old, ys) \<Rightarrow> (old, (k', v') # ys)))"

subsection \<open>Segments\<close>

datatype MapType = Identical | Framed

type_synonym MapPermission = u8

definition MP_R :: MapPermission where "MP_R = push_bit 1 1"
definition MP_W :: MapPermission where "MP_W = push_bit 2 1"
definition MP_X :: MapPermission where "MP_X = push_bit 3 1"
definition MP_U :: MapPermission where "MP_U = push_bit 4 1"

record MapArea =
  vpn_range :: VPNRange
  data_frames :: "(VirtPageNum \<times> FrameTracker) list"
  map_type :: MapType
  map_perm :: MapPermission

definition MapArea_new :: "VirtAddr \<Rightarrow> VirtAddr \<Rightarrow> MapType \<Rightarrow> MapPermission \<Rightarrow> MapArea result" where
  "MapArea_new start_va end_va mt mp =
     (let start_vpn = va_floor start_va;
          end_vpn = va_ceil end_va
      in bind (VPNRange_new start_vpn end_vpn) (\<lambda>r.
         Inr \<lparr>vpn_range = r, data_frames = [], map_type = mt, map_perm = mp\<rparr>))"

definition MapArea_from_another :: "MapArea \<Rightarrow> MapArea result" where
  "MapArea_from_another another =
     bind (VPNRange_new (get_start (vpn_range another)) (get_end (vpn_range another))) (\<lambda>r.
     Inr \<lparr>vpn_range = r, data_frames = [], map_type = map_type another, map_perm = map_perm another\<rparr>)"

text \<open>The value that an insertion or a removal leaves behind is dropped at once.\<close>

definition drop_option :: "FrameTracker option \<Rightarrow> mm_state \<Rightarrow> mm_state result" where
  "drop_option x st = (case x of None \<Rightarrow> Inr st | Some t \<Rightarrow> FrameTracker_drop st t)"

definition map_one ::
  "VirtPageNum \<Rightarrow> MapArea \<times> PageTable \<times> mm_state \<Rightarrow> (MapArea \<times> PageTable \<times> mm_state) result" where
  "map_one vpn = (\<lambda>(self, page_table, st).
     bind (case map_type self of
             Identical \<Rightarrow> Inr (PhysPageNum (vpn_bits vpn), self, st)
           | Framed \<Rightarrow>
               bind (frame_alloc_unwrap st) (\<lambda>(frame, st).
               let ppn = ft_ppn frame;
                   (old, frames) = bt_insert vpn frame (data_frames self)
               in bind (drop_option old st) (\<lambda>st. Inr (ppn, self\<lparr>data_frames := frames\<rparr>, st))))
       (\<lambda>(ppn, self, st).
     bind (unwrap (PTEFlags_from_bits (map_perm self))) (\<lambda>pte_flags.
     bind (pt_map vpn ppn pte_flags page_table st) (\<lambda>(page_table, st).
     Inr (self, page_table, st)))))"

definition unmap_one ::
  "VirtPageNum \<Rightarrow> MapArea \<times> PageTable \<times> mm_state \<Rightarrow> (MapArea \<times> PageTable \<times> mm_state) result" where
  "unmap_one vpn = (\<lambda>(self, page_table, st).
     bind (if map_type self = Framed then
             (let (old, frames) = bt_remove vpn (data_frames self)
              in bind (drop_option old st) (\<lambda>st. Inr (self\<lparr>data_frames := frames\<rparr>, st)))
           else Inr (self, st)) (\<lambda>(self, st).
     bind (pt_unmap vpn page_table st) (\<lambda>st.
     Inr (self, page_table, st))))"

definition area_map ::
  "MapArea \<Rightarrow> PageTable \<Rightarrow> mm_state \<Rightarrow> (MapArea \<times> PageTable \<times> mm_state) result" where
  "area_map self page_table st = for_each map_one (range_items (vpn_range self)) (self, page_table, st)"

definition area_unmap ::
  "MapArea \<Rightarrow> PageTable \<Rightarrow> mm_state \<Rightarrow> (MapArea \<times> PageTable \<times> mm_state) result" where
  "area_unmap self page_table st = for_each unmap_one (range_items (vpn_range self)) (self, page_table, st)"

text \<open>
  \<open>copy_data\<close>.  A slice has at most \<open>isize::MAX\<close> bytes, so \<open>start + PAGE_SIZE\<close> does not wrap and
  \<open>start\<close> and \<open>len\<close> are numbers.
\<close>

function copy_data_loop :: "u8 list \<Rightarrow> nat \<Rightarrow> VirtPageNum \<Rightarrow> PageTable \<Rightarrow> memory \<Rightarrow> memory result" where
  "copy_data_loop data start current_vpn page_table m =
     (let len = length data;
          stop = min len (start + unat PAGE_SIZE)
      in bind (if start \<le> stop then Inr (take (stop - start) (drop start data))
               else Inl (SliceIndex (of_nat start) (of_nat stop))) (\<lambda>src.
         bind (unwrap (translate m page_table current_vpn)) (\<lambda>pte.
         bind (slice_to (get_bytes_array (pte_ppn pte)) (of_nat (length src))) (\<lambda>dst.
         bind (copy_from_slice m dst src) (\<lambda>m.
         if len \<le> start + unat PAGE_SIZE then Inr m
         else copy_data_loop data (start + unat PAGE_SIZE) (vpn_step current_vpn) page_table m)))))"
  by pat_completeness auto

termination copy_data_loop
  by (relation "measure (\<lambda>(data, start, _). length data - start)") auto

declare copy_data_loop.simps [simp del]

definition copy_data :: "u8 list \<Rightarrow> MapArea \<Rightarrow> PageTable \<Rightarrow> mm_state \<Rightarrow> mm_state result" where
  "copy_data data self page_table st =
     bind (assert_that (map_type self = Framed) NotFramed) (\<lambda>_.
     bind (copy_data_loop data 0 (get_start (vpn_range self)) page_table (mm_mem st)) (\<lambda>m.
     Inr (st\<lparr>mm_mem := m\<rparr>)))"

text \<open>Dropping a segment drops the values of its \<open>BTreeMap\<close> in key order.\<close>

definition area_trackers :: "MapArea \<Rightarrow> FrameTracker list" where
  "area_trackers a = map snd (data_frames a)"

definition MapArea_drop :: "mm_state \<Rightarrow> MapArea \<Rightarrow> mm_state result" where
  "MapArea_drop st a = drop_all FrameTracker_drop (area_trackers a) st"

subsection \<open>\<open>BTreeMap\<close> lemmas\<close>

text \<open>A key above all others goes to the end; the smallest key comes out of the front.\<close>

lemma bt_insert_greater:
  "(\<And>k'. k' \<in> fst ` set xs \<Longrightarrow> k' < k) \<Longrightarrow> bt_insert k v xs = (None, xs @ [(k, v)])"
proof (induction xs)
  case Nil
  then show ?case by simp
next
  case (Cons x xs)
  obtain k' v' where x: "x = (k', v')" by fastforce
  have "k' < k" using Cons.prems x by simp
  moreover have "bt_insert k v xs = (None, xs @ [(k, v)])"
    using Cons.prems by (intro Cons.IH) simp
  ultimately show ?case by (auto simp: x)
qed

lemma bt_remove_head [simp]: "bt_remove k ((k, v) # xs) = (Some v, xs)"
  by simp

subsection \<open>The growth of an address space\<close>

text \<open>
  An address space owns the frames of its page table and a set \<open>A\<close> of data frames.  When pages
  are added, what is allocated goes to one of the two, and memory changes only in the nodes of the
  table and in the frames that are new.
\<close>

definition space_grows ::
  "mm_state \<Rightarrow> PageTable \<Rightarrow> PhysPageNum set \<Rightarrow> mm_state \<Rightarrow> PageTable \<Rightarrow> PhysPageNum set \<Rightarrow> bool" where
  "space_grows st pt A st' pt' A' \<longleftrightarrow> in_use st \<subseteq> in_use st' \<and> root_ppn pt' = root_ppn pt \<and>
     frames_of pt \<subseteq> frames_of pt' \<and> frames_of pt' \<subseteq> frames_of pt \<union> (in_use st' - in_use st) \<and>
     A \<subseteq> A' \<and> A' \<subseteq> A \<union> (in_use st' - in_use st) \<and> in_use st' - in_use st \<subseteq> frames_of pt' \<union> A' \<and>
     same_outside (frames_of pt \<union> (in_use st' - in_use st)) (mm_mem st) (mm_mem st')"

lemma space_grows_refl [simp]: "space_grows st pt A st pt A"
  by (simp add: space_grows_def)

lemma space_grows_trans:
  assumes "space_grows st pt A st1 pt1 A1" and "space_grows st1 pt1 A1 st2 pt2 A2"
  shows "space_grows st pt A st2 pt2 A2"
proof -
  have "same_outside (frames_of pt \<union> (in_use st2 - in_use st)) (mm_mem st) (mm_mem st1)"
    using assms by (auto simp: space_grows_def intro: same_outside_mono)
  moreover have "frames_of pt1 \<union> (in_use st2 - in_use st1) \<subseteq> frames_of pt \<union> (in_use st2 - in_use st)"
    using assms by (auto simp: space_grows_def)
  then have "same_outside (frames_of pt \<union> (in_use st2 - in_use st)) (mm_mem st1) (mm_mem st2)"
    using assms(2) by (auto simp: space_grows_def intro: same_outside_mono)
  ultimately have "same_outside (frames_of pt \<union> (in_use st2 - in_use st)) (mm_mem st) (mm_mem st2)"
    by (rule same_outside_trans)
  then show ?thesis
    using assms unfolding space_grows_def by auto
qed

lemma pt_grows_space:
  assumes "pt_grows st pt st' pt'"
  shows "space_grows st pt A st' pt' A"
proof -
  have f: "frames_of pt' = frames_of pt \<union> (in_use st' - in_use st)"
    using assms by (rule pt_grows_frames)
  then show ?thesis
    using assms by (auto simp: space_grows_def pt_grows_def)
qed

subsection \<open>What a segment maps\<close>

definition area_data :: "MapArea \<Rightarrow> PhysPageNum set" where
  "area_data a = ft_ppn ` set (area_trackers a)"

definition area_ppn :: "MapArea \<Rightarrow> VirtPageNum \<Rightarrow> PhysPageNum" where
  "area_ppn a v =
     (case map_type a of
        Identical \<Rightarrow> PhysPageNum (vpn_bits v)
      | Framed \<Rightarrow> (case map_of (data_frames a) v of Some t \<Rightarrow> ft_ppn t | None \<Rightarrow> PhysPageNum 0))"

definition area_entry :: "MapArea \<Rightarrow> VirtPageNum \<Rightarrow> PageTableEntry" where
  "area_entry a v = PageTableEntry_new (area_ppn a v) (map_perm a OR PTE_V)"

abbreviation area_pages :: "MapArea \<Rightarrow> VirtPageNum list" where
  "area_pages a \<equiv> range_items (vpn_range a)"

text \<open>The header of a segment, which the operations leave alone.\<close>

definition same_header :: "MapArea \<Rightarrow> MapArea \<Rightarrow> bool" where
  "same_header a b \<longleftrightarrow> vpn_range b = vpn_range a \<and> map_type b = map_type a \<and> map_perm b = map_perm a"

text \<open>The frames a segment owns for a list of pages: the pages in order, each with its frame.\<close>

definition owns_pages :: "MapArea \<Rightarrow> VirtPageNum list \<Rightarrow> bool" where
  "owns_pages a vs \<longleftrightarrow> map fst (data_frames a) = (if map_type a = Framed then vs else []) \<and> distinct (area_trackers a)"

lemma area_ppn_in_data:
  assumes "owns_pages a vs" and "map_type a = Framed" and "v \<in> set vs"
  shows "area_ppn a v \<in> area_data a"
proof -
  have "v \<in> fst ` set (data_frames a)"
    using assms by (metis list.set_map owns_pages_def)
  then obtain t where t: "map_of (data_frames a) v = Some t"
    by (metis map_of_eq_None_iff not_None_eq)
  then have "t \<in> set (area_trackers a)"
    by (force simp: area_trackers_def dest: map_of_SomeD)
  with t assms(2) show ?thesis by (simp add: area_ppn_def area_data_def)
qed

lemma area_ppn_trackers:
  assumes "owns_pages a vs" and "map_type a = Framed" and "distinct vs"
  shows "map (area_ppn a) vs = map ft_ppn (area_trackers a)" and "distinct (map (area_ppn a) vs)"
proof -
  have keys: "vs = map fst (data_frames a)" using assms(1,2) by (simp add: owns_pages_def)
  show eq: "map (area_ppn a) vs = map ft_ppn (area_trackers a)"
    using assms(2,3) unfolding keys by (auto simp: area_ppn_def area_trackers_def map_of_eq_Some_iff split: option.splits
        dest: eq_key_imp_eq_value)
  have "inj_on ft_ppn (set (area_trackers a))" by (rule inj_onI) (simp add: ft_eq_iff)
  with assms(1) show "distinct (map (area_ppn a) vs)"
    by (simp add: eq distinct_map owns_pages_def)
qed

text \<open>The first half of \<open>map_one\<close> on a framed segment: a frame for the page.\<close>

lemma map_one_Framed:
  assumes "map_type a = Framed" and "\<forall>k \<in> fst ` set (data_frames a). k < v"
  shows "map_one v (a, pt, st) =
    bind (frame_alloc_unwrap st) (\<lambda>(t, st1).
    bind (pt_map v (ft_ppn t) (map_perm a) pt st1) (\<lambda>(pt', st').
    Inr (a\<lparr>data_frames := data_frames a @ [(v, t)]\<rparr>, pt', st')))"
proof -
  have "bt_insert v t (data_frames a) = (None, data_frames a @ [(v, t)])" for t
    using assms(2) by (intro bt_insert_greater) blast
  with assms(1) show ?thesis
    by (simp add: map_one_def drop_option_def Let_def PTEFlags_from_bits_total bind_assoc case_prod_unfold cong: bind_cong)
qed

lemma map_one_Identical:
  assumes "map_type a = Identical"
  shows "map_one v (a, pt, st) =
    bind (pt_map v (PhysPageNum (vpn_bits v)) (map_perm a) pt st) (\<lambda>(pt', st'). Inr (a, pt', st'))"
  using assms by (simp add: map_one_def PTEFlags_from_bits_total)

lemma alloc_space:
  assumes "pt_inv st pt" and "A \<subseteq> in_use st" and "frame_alloc_unwrap st = Inr (t, st1)"
  shows "pt_inv st1 pt" and "pt_lookup (mm_mem st1) pt w = pt_lookup (mm_mem st) pt w"
    and "space_grows st pt A st1 pt (insert (ft_ppn t) A)" and "ft_ppn t \<notin> frames_of pt" and "ft_ppn t \<notin> A"
    and "page_bytes (mm_mem st1) (ft_ppn t) = replicate 4096 0" and "ft_ppn t \<in> in_use st1"
proof -
  have mm: "mm_inv st" and use: "frames_of pt \<subseteq> in_use st" using assms(1) by (auto simp: pt_inv_def)
  note fr = frame_alloc_unwrap_Inr [OF mm assms(3)]
  have out: "same_outside {ft_ppn t} (mm_mem st) (mm_mem st1)"
    using mm assms(3) by (rule frame_alloc_unwrap_same_outside)
  show n: "ft_ppn t \<notin> frames_of pt" "ft_ppn t \<notin> A" using fr(1) use assms(2) by auto
  show "pt_inv st1 pt" and "pt_lookup (mm_mem st1) pt w = pt_lookup (mm_mem st) pt w"
    using pt_inv_same_outside [OF assms(1) out] n(1) fr(2,3) use by auto
  show "space_grows st pt A st1 pt (insert (ft_ppn t) A)"
    using fr(1,2) out by (auto simp: space_grows_def intro: same_outside_mono)
  show "page_bytes (mm_mem st1) (ft_ppn t) = replicate 4096 0"
    by (simp only: fr(5) page_bytes_fill)
  show "ft_ppn t \<in> in_use st1" by (simp add: fr(2))
qed

lemma owns_pages_snoc:
  assumes "owns_pages a vs" and "map_type a = Framed" and "\<forall>k \<in> set vs. k < v" and "ft_ppn t \<notin> area_data a"
  defines "a' \<equiv> a\<lparr>data_frames := data_frames a @ [(v, t)]\<rparr>"
  shows "owns_pages a' (vs @ [v])" and "area_ppn a' v = ft_ppn t" and "k \<in> set vs \<Longrightarrow> area_ppn a' k = area_ppn a k"
    and "area_data a' = insert (ft_ppn t) (area_data a)"
proof -
  have keys: "map fst (data_frames a) = vs" using assms(1,2) by (simp add: owns_pages_def)
  have "t \<notin> set (area_trackers a)" using assms(4) by (auto simp: area_data_def)
  then show "owns_pages a' (vs @ [v])"
    using assms(1,2) keys by (simp add: owns_pages_def a'_def area_trackers_def)
  have "map_of (data_frames a) v = None"
    unfolding map_of_eq_None_iff using assms(3) keys by (metis less_irrefl list.set_map)
  then show "area_ppn a' v = ft_ppn t"
    using assms(2) by (simp add: area_ppn_def a'_def map_add_def)
  show "area_ppn a' k = area_ppn a k" if "k \<in> set vs"
  proof -
    have "k \<noteq> v" using assms(3) that by blast
    then show ?thesis using assms(2) by (simp add: area_ppn_def a'_def map_add_def split: option.splits)
  qed
  show "area_data a' = insert (ft_ppn t) (area_data a)"
    by (simp add: area_data_def area_trackers_def a'_def)
qed

text \<open>
  The frames that mapping a list of pages may take: one for each framed page, and two for each
  lowest-level node (a block of 512 pages) that the pages touch.
\<close>

definition blocks :: "VirtPageNum list \<Rightarrow> nat" where
  "blocks vs = card ((\<lambda>v. butlast (indexes v)) ` set vs)"

definition cost :: "MapType \<Rightarrow> VirtPageNum list \<Rightarrow> nat" where
  "cost mt vs = (if mt = Framed then length vs else 0) + 2 * blocks vs"

lemma blocks_snoc:
  "blocks (vs @ [v]) = blocks vs + (if butlast (indexes v) \<in> (\<lambda>v. butlast (indexes v)) ` set vs then 0 else 1)"
  by (auto simp: blocks_def insert_absorb)

lemma cost_append: "cost mt (vs @ ws) \<le> cost mt vs + cost mt ws" "cost mt vs \<le> cost mt (vs @ ws)"
proof -
  have "blocks (vs @ ws) \<le> blocks vs + blocks ws"
    unfolding blocks_def set_append image_Un by (rule card_Un_le)
  then show "cost mt (vs @ ws) \<le> cost mt vs + cost mt ws" by (simp add: cost_def)
  have "blocks vs \<le> blocks (vs @ ws)"
    unfolding blocks_def set_append image_Un by (rule card_mono) auto
  then show "cost mt vs \<le> cost mt (vs @ ws)" by (simp add: cost_def)
qed

text \<open>One page of a segment is mapped: the state of the loop that maps \<open>vs\<close> and then \<open>v\<close>.\<close>

definition mapping :: "MapArea \<Rightarrow> PageTable \<Rightarrow> mm_state \<Rightarrow> VirtPageNum list \<Rightarrow> MapArea \<Rightarrow> PageTable \<Rightarrow> mm_state \<Rightarrow> bool" where
  "mapping a0 pt0 st0 vs a pt st \<longleftrightarrow>
     pt_inv st pt \<and> space_grows st0 pt0 (area_data a0) st pt (area_data a) \<and>
     area_data a \<subseteq> in_use st \<and> area_data a \<inter> frames_of pt = {} \<and> owns_pages a vs \<and> same_header a0 a \<and>
     (\<forall>v \<in> set vs. pt_lookup (mm_mem st0) pt0 v = None \<and> vpn_ok v \<and>
        (map_type a = Framed \<longrightarrow> page_bytes (mm_mem st) (area_ppn a v) = replicate 4096 0)) \<and>
     (\<forall>w. vpn_ok w \<longrightarrow> pt_lookup (mm_mem st) pt w =
        (if w \<in> set vs then Some (area_entry a w) else pt_lookup (mm_mem st0) pt0 w)) \<and>
     frames_left st0 \<le> frames_left st + cost (map_type a) vs"

text \<open>The frames that one more page takes from the page table.\<close>

lemma pt_map_cost:
  assumes "pt_inv st pt" and "\<forall>w \<in> set vs. pt_lookup (mm_mem st) pt w \<noteq> None"
  shows "pt_map v p f pt st = Inr (pt', st') \<Longrightarrow> frames_left st + 2 * blocks vs \<le> frames_left st' + 2 * blocks (vs @ [v])"
    and "pt_lookup (mm_mem st) pt v = None \<Longrightarrow> 2 * blocks (vs @ [v]) \<le> frames_left st + 2 * blocks vs \<Longrightarrow>
      \<exists>y. pt_map v p f pt st = Inr y"
proof -
  show "frames_left st + 2 * blocks vs \<le> frames_left st' + 2 * blocks (vs @ [v])" if m: "pt_map v p f pt st = Inr (pt', st')"
  proof (cases "butlast (indexes v) \<in> (\<lambda>v. butlast (indexes v)) ` set vs")
    case True
    then obtain w where "w \<in> set vs" "butlast (indexes w) = butlast (indexes v)" by force
    with pt_map_shared(1) [OF _ _ m] assms(2) have "frames_left st' = frames_left st" by blast
    then show ?thesis by (simp add: blocks_snoc)
  next
    case False
    with pt_map_Inr(5) [OF assms(1) m] show ?thesis by (simp add: blocks_snoc)
  qed
  show "\<exists>y. pt_map v p f pt st = Inr y"
    if "pt_lookup (mm_mem st) pt v = None" "2 * blocks (vs @ [v]) \<le> frames_left st + 2 * blocks vs"
  proof (cases "butlast (indexes v) \<in> (\<lambda>v. butlast (indexes v)) ` set vs")
    case True
    then obtain w where w: "w \<in> set vs" "butlast (indexes w) = butlast (indexes v)" by force
    have "pt_lookup (mm_mem st) pt w \<noteq> None" using assms(2) w(1) by blast
    from pt_map_shared(2) [OF this w(2) that(1)] show ?thesis .
  next
    case False
    then have "2 \<le> frames_left st" using that(2) by (simp add: blocks_snoc)
    from pt_map_total [OF assms(1) that(1) this] show ?thesis .
  qed
qed

lemma mapping_step:
  assumes map: "mapping a0 pt0 st0 vs a pt st" and one: "map_one v (a, pt, st) = Inr (a', pt', st')"
    and asc: "\<forall>k \<in> set vs. k < v" and v: "vpn_ok v"
  shows "mapping a0 pt0 st0 (vs @ [v]) a' pt' st'"
proof -
  have inv: "pt_inv st pt" and grows: "space_grows st0 pt0 (area_data a0) st pt (area_data a)"
    and use: "area_data a \<subseteq> in_use st" and dis: "area_data a \<inter> frames_of pt = {}" and own: "owns_pages a vs"
    and head: "same_header a0 a" and left: "frames_left st0 \<le> frames_left st + cost (map_type a) vs"
    using map by (auto simp: mapping_def)
  have old: "pt_lookup (mm_mem st0) pt0 k = None \<and> vpn_ok k \<and>
        (map_type a = Framed \<longrightarrow> page_bytes (mm_mem st) (area_ppn a k) = replicate 4096 0)" if "k \<in> set vs" for k
    using map that by (auto simp: mapping_def)
  have look: "pt_lookup (mm_mem st) pt w = (if w \<in> set vs then Some (area_entry a w) else pt_lookup (mm_mem st0) pt0 w)"
    if "vpn_ok w" for w
    using map that by (auto simp: mapping_def)
  have nv: "v \<notin> set vs" using asc by blast
  have mapped: "\<forall>w \<in> set vs. pt_lookup (mm_mem st) pt w \<noteq> None" using look old by auto
  show ?thesis
  proof (cases "map_type a")
    case Identical
    have m: "pt_map v (PhysPageNum (vpn_bits v)) (map_perm a) pt st = Inr (pt', st')" and a': "a' = a"
      using one unfolding map_one_Identical [OF Identical] by (auto elim!: bind_InrE)
    note mp = pt_map_Inr [OF inv m]
    have "pt_lookup (mm_mem st0) pt0 v = None" using look [OF v] nv mp(3) by simp
    moreover have "area_data a = {}" and own': "owns_pages a (vs @ [v])"
      using own Identical by (auto simp: owns_pages_def area_data_def area_trackers_def)
    moreover have "pt_lookup (mm_mem st') pt' w =
        (if w \<in> set (vs @ [v]) then Some (area_entry a w) else pt_lookup (mm_mem st0) pt0 w)" if "vpn_ok w" for w
      using mp(4) look that v nv by (auto simp: indexes_eq_iff area_entry_def area_ppn_def Identical)
    moreover have "space_grows st0 pt0 (area_data a0) st' pt' (area_data a)"
      using grows pt_grows_space [OF mp(2)] by (rule space_grows_trans)
    ultimately show ?thesis
      using mp(1) head old v left Identical pt_map_cost(1) [OF inv mapped m] by (auto simp: mapping_def a' cost_def)
  next
    case Framed
    have keys: "\<forall>k \<in> fst ` set (data_frames a). k < v"
      using own Framed asc by (metis list.set_map owns_pages_def)
    obtain t st1 where al: "frame_alloc_unwrap st = Inr (t, st1)"
      and m: "pt_map v (ft_ppn t) (map_perm a) pt st1 = Inr (pt', st')"
      and a': "a' = a\<lparr>data_frames := data_frames a @ [(v, t)]\<rparr>"
      using one unfolding map_one_Framed [OF Framed keys] by (auto elim!: bind_InrE)
    note sp = alloc_space [OF inv use al]
    note mp = pt_map_Inr [OF sp(1) m]
    note ow = owns_pages_snoc [OF own Framed asc sp(5), folded a']
    have left1: "frames_left st = Suc (frames_left st1)"
      using frame_alloc_unwrap_Inr(6) [OF _ al] inv by (simp add: pt_inv_def)
    have f': "frames_of pt' = frames_of pt \<union> (in_use st' - in_use st1)" and u': "in_use st1 \<subseteq> in_use st'"
      and out': "same_outside (frames_of pt') (mm_mem st1) (mm_mem st')"
      using pt_grows_frames [OF mp(2)] mp(2) by (auto simp: pt_grows_def)
    have in1: "area_data a' \<subseteq> in_use st1"
      using sp(3,7) use by (auto simp: ow(4) space_grows_def)
    have dis': "area_data a' \<inter> frames_of pt' = {}"
      using in1 dis sp(4) by (auto simp: f' ow(4))
    have sp': "space_grows st0 pt0 (area_data a0) st' pt' (area_data a')"
      unfolding ow(4) using space_grows_trans [OF space_grows_trans [OF grows sp(3)] pt_grows_space [OF mp(2)]] .
    have ok: "ppn_ok p" if "p \<in> in_use st1" for p
      using in_use_ok that sp(1) by (auto simp: pt_inv_def)
    have new: "pt_lookup (mm_mem st0) pt0 v = None" using look [OF v] nv mp(3) sp(2) by simp
    have zero': "page_bytes (mm_mem st') p = page_bytes (mm_mem st1) p" if "p \<in> area_data a'" for p
      using page_bytes_same_outside [OF out'] ok in1 dis' that by blast
    have zero1: "page_bytes (mm_mem st1) p = page_bytes (mm_mem st) p" if "p \<in> area_data a" for p
    proof (rule page_bytes_same_outside [OF frame_alloc_unwrap_same_outside [OF _ al]])
      show "mm_inv st" using inv by (simp add: pt_inv_def)
      show "ppn_ok p" "p \<notin> {ft_ppn t}" using that in1 ok sp(5) by (auto simp: ow(4))
    qed
    have zeros: "page_bytes (mm_mem st') (area_ppn a' k) = replicate 4096 0" if "k \<in> set (vs @ [v])" for k
    proof (cases "k = v")
      case True
      then show ?thesis using zero' sp(6) by (simp only: ow(2,4) insertI1)
    next
      case False
      then have k: "k \<in> set vs" using that by simp
      then have "area_ppn a k \<in> area_data a" using own Framed by (intro area_ppn_in_data)
      then show ?thesis using zero' zero1 old [OF k] Framed ow(3) [OF k] by (simp only: ow(4)) simp
    qed
    have look': "pt_lookup (mm_mem st') pt' w =
        (if w \<in> set (vs @ [v]) then Some (area_entry a' w) else pt_lookup (mm_mem st0) pt0 w)" if "vpn_ok w" for w
      using mp(4) look [OF that] sp(2) that v nv ow(2,3)
      by (auto simp: indexes_eq_iff area_entry_def a')
    have "\<forall>w \<in> set vs. pt_lookup (mm_mem st1) pt w \<noteq> None" using mapped sp(2) by simp
    note c = pt_map_cost(1) [OF sp(1) this m]
    show ?thesis
      using mp(1) sp' in1 u' dis' ow(1) head old v new zeros look' left left1 c Framed
      by (auto simp: mapping_def same_header_def a' cost_def)
  qed
qed

lemma mapping_init:
  assumes "pt_inv st pt" and "data_frames a = []"
  shows "mapping a pt st [] a pt st"
  using assms by (simp add: mapping_def area_data_def area_trackers_def owns_pages_def same_header_def)

lemma mapping_total:
  assumes "mapping a0 pt0 st0 vs a pt st" and "\<forall>k \<in> set vs. k < v" and "vpn_ok v"
    and "pt_lookup (mm_mem st0) pt0 v = None" and room: "cost (map_type a0) (vs @ [v]) \<le> frames_left st0"
  shows "\<exists>s. map_one v (a, pt, st) = Inr s"
proof -
  have inv: "pt_inv st pt" and use: "area_data a \<subseteq> in_use st" and own: "owns_pages a vs"
    and mapped: "\<forall>w \<in> set vs. pt_lookup (mm_mem st) pt w \<noteq> None" and mt: "map_type a0 = map_type a"
    and left: "frames_left st0 \<le> frames_left st + cost (map_type a) vs"
    using assms(1) by (auto simp: mapping_def same_header_def)
  have "v \<notin> set vs" using assms(2) by blast
  then have v: "pt_lookup (mm_mem st) pt v = None" using assms(1,3,4) by (auto simp: mapping_def)
  show ?thesis
  proof (cases "map_type a")
    case Identical
    then have "2 * blocks (vs @ [v]) \<le> frames_left st + 2 * blocks vs" using room left mt by (simp add: cost_def)
    from pt_map_cost(2) [OF inv mapped v this, of "PhysPageNum (vpn_bits v)" "map_perm a"] show ?thesis
      by (auto simp: map_one_Identical [OF Identical] split: prod.splits)
  next
    case Framed
    have keys: "\<forall>k \<in> fst ` set (data_frames a). k < v"
      using own Framed assms(2) by (metis list.set_map owns_pages_def)
    have mm: "mm_inv st" using inv by (simp add: pt_inv_def)
    have room1: "Suc (2 * blocks (vs @ [v])) \<le> frames_left st + 2 * blocks vs" using room left mt Framed by (simp add: cost_def)
    moreover have "blocks vs \<le> blocks (vs @ [v])" by (simp add: blocks_snoc)
    ultimately have "0 < frames_left st" by linarith
    then obtain t st1 where al: "frame_alloc_unwrap st = Inr (t, st1)"
      using frame_alloc_unwrap_total [OF mm] by auto
    note sp = alloc_space [OF inv use al]
    have "2 * blocks (vs @ [v]) \<le> frames_left st1 + 2 * blocks vs" using frame_alloc_unwrap_Inr(6) [OF mm al] room1 by simp
    moreover have "\<forall>w \<in> set vs. pt_lookup (mm_mem st1) pt w \<noteq> None" "pt_lookup (mm_mem st1) pt v = None"
      using mapped v sp(2) by auto
    ultimately show ?thesis
      using pt_map_cost(2) [OF sp(1), of vs v "ft_ppn t" "map_perm a"]
      by (auto simp: map_one_Framed [OF Framed keys] al split: prod.splits)
  qed
qed

text \<open>Mapping a whole new segment.\<close>

lemma area_map_Inr:
  assumes "area_map a pt st = Inr (a', pt', st')" and "pt_inv st pt" and "data_frames a = []" and "range_ok (vpn_range a)"
  shows "mapping a pt st (area_pages a) a' pt' st'"
proof -
  have "case (a', pt', st') of (b, q, u) \<Rightarrow> mapping a pt st (area_pages a) b q u"
  proof (rule for_each_invariant [where I = "\<lambda>vs (b, q, u). mapping a pt st vs b q u"])
    show "for_each map_one (area_pages a) (a, pt, st) = Inr (a', pt', st')"
      using assms(1) by (simp add: area_map_def)
    show "case (a, pt, st) of (b, q, u) \<Rightarrow> mapping a pt st [] b q u"
      using mapping_init [OF assms(2,3)] by simp
    fix vs v ws s t
    assume p: "area_pages a = vs @ v # ws" and "case s of (b, q, u) \<Rightarrow> mapping a pt st vs b q u" and "map_one v s = Inr t"
    then show "case t of (b, q, u) \<Rightarrow> mapping a pt st (vs @ [v]) b q u"
      using mapping_step range_items_ok(2,3) [OF assms(4)] p by (cases s; cases t) auto
  qed
  then show ?thesis by simp
qed

lemma area_map_total:
  assumes "pt_inv st pt" and "data_frames a = []" and "range_ok (vpn_range a)"
    and "\<forall>v \<in> set (area_pages a). pt_lookup (mm_mem st) pt v = None"
    and "cost (map_type a) (area_pages a) \<le> frames_left st"
  shows "\<exists>a' pt' st'. area_map a pt st = Inr (a', pt', st')"
proof -
  have "\<exists>t. for_each map_one (area_pages a) (a, pt, st) = Inr t \<and> (case t of (b, q, u) \<Rightarrow> mapping a pt st (area_pages a) b q u)"
  proof (rule for_each_total [where I = "\<lambda>vs (b, q, u). mapping a pt st vs b q u"])
    show "case (a, pt, st) of (b, q, u) \<Rightarrow> mapping a pt st [] b q u"
      using mapping_init [OF assms(1,2)] by simp
    fix vs v ws s
    assume p: "area_pages a = vs @ v # ws" and s: "case s of (b, q, u) \<Rightarrow> mapping a pt st vs b q u"
    obtain b q u where bqu: "s = (b, q, u)" by (cases s)
    with s have m: "mapping a pt st vs b q u" by simp
    have asc: "\<forall>k \<in> set vs. k < v" and ok: "vpn_ok v"
      using range_items_ok(2,3) [OF assms(3)] p by auto
    have new: "pt_lookup (mm_mem st) pt v = None" using assms(4) p by simp
    have "cost (map_type a) (vs @ [v]) \<le> frames_left st"
      using cost_append(2) [of "map_type a" "vs @ [v]" ws] assms(5) by (simp add: p)
    then obtain t where t: "map_one v (b, q, u) = Inr t"
      using mapping_total [OF m asc ok new] by blast
    then show "\<exists>t. map_one v s = Inr t \<and> (case t of (b, q, u) \<Rightarrow> mapping a pt st (vs @ [v]) b q u)"
      using mapping_step [OF m _ asc ok] bqu by (cases t) auto
  qed
  then show ?thesis by (auto simp: area_map_def)
qed

subsection \<open>Copying the data of a segment\<close>

text \<open>A page of the segment is mapped to a data frame, which no write to data frames changes.\<close>

definition data_page :: "mm_state \<Rightarrow> PageTable \<Rightarrow> VirtPageNum \<Rightarrow> PhysPageNum \<Rightarrow> bool" where
  "data_page st pt v p \<longleftrightarrow> map_option pte_ppn (pt_lookup (mm_mem st) pt v) = Some p \<and> p \<in> in_use st \<and> p \<notin> frames_of pt"

lemma data_pageD:
  assumes "data_page st pt v p"
  obtains e where "translate (mm_mem st) pt v = Some e" and "pte_ppn e = p" and "ppn_ok p"
proof -
  obtain e where e: "pt_lookup (mm_mem st) pt v = Some e" "pte_ppn e = p"
    using assms by (auto simp: data_page_def)
  show ?thesis
    using that [OF translate_mapped [OF e(1)] e(2)] e(2) pte_ppn_ok [of e] by simp
qed

lemma data_page_write:
  assumes "pt_inv st pt" and "same_outside P (mm_mem st) m" and "P \<inter> frames_of pt = {}"
  shows "pt_inv (st\<lparr>mm_mem := m\<rparr>) pt" and "pt_lookup m pt w = pt_lookup (mm_mem st) pt w"
    and "data_page (st\<lparr>mm_mem := m\<rparr>) pt v p \<longleftrightarrow> data_page st pt v p"
  using pt_inv_same_outside [OF assms(1) _ assms(3), of "st\<lparr>mm_mem := m\<rparr>"] assms(1,2)
  by (simp_all add: pt_inv_def data_page_def)

lemma copy_to_page:
  assumes "ppn_ok p" and "length src \<le> 4096"
  shows "bind (slice_to (get_bytes_array p) (of_nat (length src))) (\<lambda>dst. copy_from_slice m dst src) =
      Inr (write_bytes m (page_base p) src)"
    and "same_outside {p} m (write_bytes m (page_base p) src)"
proof -
  have "unat (of_nat (length src) :: usize) = length src" using assms(2) by (intro unat_of_nat_less) simp
  then show "bind (slice_to (get_bytes_array p) (of_nat (length src))) (\<lambda>dst. copy_from_slice m dst src) =
      Inr (write_bytes m (page_base p) src)"
    using assms(2) by (simp add: slice_to_def slice_range_def get_bytes_array_def copy_from_slice_def word_le_nat_alt)
  show "same_outside {p} m (write_bytes m (page_base p) src)"
    using same_outside_write [OF assms(1), of 0 src m] assms(2) by simp
qed

text \<open>One round of the loop.\<close>

lemma copy_data_loop_round:
  assumes "data_page st pt v p" and "start \<le> length data"
  defines "src \<equiv> take 4096 (drop start data)"
  defines "m \<equiv> write_bytes (mm_mem st) (page_base p) src"
  shows "copy_data_loop data start v pt (mm_mem st) =
      (if length data \<le> start + 4096 then Inr m else copy_data_loop data (start + 4096) (vpn_step v) pt m)"
    and "same_outside {p} (mm_mem st) m"
    and "page_bytes m p = src @ drop (length src) (page_bytes (mm_mem st) p)"
proof -
  obtain e where e: "translate (mm_mem st) pt v = Some e" "pte_ppn e = p" "ppn_ok p"
    using data_pageD [OF assms(1)] by blast
  have len: "length src \<le> 4096" by (simp add: src_def)
  have src: "take (min (length data) (start + 4096) - start) (drop start data) = src"
    using assms(2) by (simp add: src_def min_def)
  note copy = copy_to_page [OF e(3) len, of "mm_mem st"]
  have size: "unat PAGE_SIZE = 4096" by simp
  have "copy_data_loop data start v pt (mm_mem st) =
    bind (bind (slice_to (get_bytes_array p) (of_nat (length src))) (\<lambda>dst. copy_from_slice (mm_mem st) dst src))
      (\<lambda>m. if length data \<le> start + 4096 then Inr m else copy_data_loop data (start + 4096) (vpn_step v) pt m)"
    using assms(2) e unfolding copy_data_loop.simps [of data start] size by (simp add: Let_def src bind_assoc)
  then show "copy_data_loop data start v pt (mm_mem st) =
      (if length data \<le> start + 4096 then Inr m else copy_data_loop data (start + 4096) (vpn_step v) pt m)"
    by (simp add: copy(1) m_def)
  show "same_outside {p} (mm_mem st) m" using copy(2) by (simp add: m_def)
  show "page_bytes m p = src @ drop (length src) (page_bytes (mm_mem st) p)"
    unfolding m_def using len by (rule page_bytes_write_prefix)
qed

lemma copy_data_loop_ok:
  assumes "pt_inv st pt" and "ps \<noteq> []" and "distinct ps"
    and "\<forall>i < length ps. data_page st pt (VirtPageNum (n + of_nat i)) (ps ! i)"
    and "start \<le> length data" and "length data \<le> start + 4096 * length ps"
  shows "\<exists>m. copy_data_loop data start (VirtPageNum n) pt (mm_mem st) = Inr m \<and> same_outside (set ps) (mm_mem st) m \<and>
    concat (map (page_bytes m) ps) =
      drop start data @ drop (length data - start) (concat (map (page_bytes (mm_mem st)) ps))"
  using assms
proof (induction ps arbitrary: st n start)
  case Nil
  then show ?case by simp
next
  case (Cons p ps)
  have p: "data_page st pt (VirtPageNum n) p" using Cons.prems(4) by force
  note r = copy_data_loop_round [OF p Cons.prems(5)]
  define src where "src = take 4096 (drop start data)"
  define m where "m = write_bytes (mm_mem st) (page_base p) src"
  note r = r [folded src_def, folded m_def]
  have tl: "data_page st pt (VirtPageNum (n + 1 + of_nat i)) (ps ! i)" if "i < length ps" for i
    using Cons.prems(4) that by (force simp: add.assoc)
  have ok: "ppn_ok q" "q \<noteq> p" if "q \<in> set ps" for q
  proof -
    obtain i where i: "i < length ps" "ps ! i = q" using \<open>q \<in> set ps\<close> by (auto simp: in_set_conv_nth)
    show "ppn_ok q" using data_pageD [OF tl [OF i(1)]] i(2) by metis
    show "q \<noteq> p" using Cons.prems(3) that by auto
  qed
  have rest: "map (page_bytes m) ps = map (page_bytes (mm_mem st)) ps"
    using page_bytes_same_outside [OF r(2)] ok by auto
  have "p \<notin> frames_of pt" using p by (simp add: data_page_def)
  then have w: "pt_inv (st\<lparr>mm_mem := m\<rparr>) pt" "data_page (st\<lparr>mm_mem := m\<rparr>) pt v q \<longleftrightarrow> data_page st pt v q" for v q
    using data_page_write [OF Cons.prems(1) r(2)] by auto
  show ?case
  proof (cases "length data \<le> start + 4096")
    case True
    then have src: "src = drop start data" by (simp add: src_def)
    have "concat (map (page_bytes m) (p # ps)) =
      drop start data @ drop (length data - start) (concat (map (page_bytes (mm_mem st)) (p # ps)))"
      using True by (simp add: rest r(3) src)
    moreover have "same_outside (set (p # ps)) (mm_mem st) m"
      using r(2) by (rule same_outside_mono) simp
    ultimately show ?thesis using r(1) True by auto
  next
    case False
    have "\<exists>m'. copy_data_loop data (start + 4096) (VirtPageNum (n + 1)) pt (mm_mem (st\<lparr>mm_mem := m\<rparr>)) = Inr m' \<and>
        same_outside (set ps) (mm_mem (st\<lparr>mm_mem := m\<rparr>)) m' \<and>
        concat (map (page_bytes m') ps) =
          drop (start + 4096) data @ drop (length data - (start + 4096)) (concat (map (page_bytes (mm_mem (st\<lparr>mm_mem := m\<rparr>))) ps))"
      by (rule Cons.IH) (use Cons.prems False w tl in auto)
    then obtain m' where m': "copy_data_loop data (start + 4096) (VirtPageNum (n + 1)) pt m = Inr m'" "same_outside (set ps) m m'"
      "concat (map (page_bytes m') ps) =
          drop (start + 4096) data @ drop (length data - (start + 4096)) (concat (map (page_bytes (mm_mem st)) ps))"
      by (auto simp: rest)
    have len: "length src = 4096" using False by (simp add: src_def)
    have "p \<notin> set ps" "ppn_ok p" using Cons.prems(3) data_pageD [OF p] by auto
    then have "page_bytes m' p = src"
      using page_bytes_same_outside [OF m'(2)] r(3) len by simp
    moreover have "src @ drop (start + 4096) data = drop start data"
      unfolding src_def by (metis add.commute append_take_drop_id drop_drop)
    moreover have "drop (length data - start) (page_bytes (mm_mem st) p) = []"
      using False by simp
    ultimately have "concat (map (page_bytes m') (p # ps)) =
      drop start data @ drop (length data - start) (concat (map (page_bytes (mm_mem st)) (p # ps)))"
      using m'(3) False by (simp add: drop_append)
    moreover have "same_outside (set (p # ps)) (mm_mem st) m'"
      by (rule same_outside_trans [of _ _ m]; rule same_outside_mono) (use r(2) m'(2) in auto)
    moreover have "vpn_step (VirtPageNum n) = VirtPageNum (n + 1)" by (simp add: vpn_step_def)
    ultimately show ?thesis using r(1) m'(1) False by auto
  qed
qed

subsection \<open>Unmapping and dropping a segment\<close>

text \<open>One page is unmapped; a framed page gives its frame back first.\<close>

lemma unmap_one_ok:
  assumes "pt_inv st pt" and "owns_pages a (v # vs)" and "area_data a \<subseteq> in_use st" and "area_data a \<inter> frames_of pt = {}"
    and "pt_lookup (mm_mem st) pt v \<noteq> None"
  shows "\<exists>a' st'. unmap_one v (a, pt, st) = Inr (a', pt, st') \<and> pt_inv st' pt \<and> owns_pages a' vs \<and> same_header a a' \<and>
    area_data a' \<subseteq> area_data a \<and> in_use st' = in_use st - (area_data a - area_data a') \<and>
    same_outside (frames_of pt) (mm_mem st) (mm_mem st') \<and>
    (\<forall>w. pt_lookup (mm_mem st') pt w = (if indexes w = indexes v then None else pt_lookup (mm_mem st) pt w))"
proof (cases "map_type a")
  case Identical
  obtain e where "pt_lookup (mm_mem st) pt v = Some e" using assms(5) by auto
  from pt_unmap_mapped [OF assms(1) this] obtain st' where st': "pt_unmap v pt st = Inr st'" "pt_inv st' pt" "pt_grows st pt st' pt"
    "\<forall>w. pt_lookup (mm_mem st') pt w = (if indexes w = indexes v then None else pt_lookup (mm_mem st) pt w)" by blast
  have "in_use st' = in_use st" using st'(3) by (auto simp: pt_grows_def)
  moreover have "owns_pages a vs" using assms(2) Identical by (simp add: owns_pages_def)
  ultimately show ?thesis
    using st' Identical by (intro exI [of _ a] exI [of _ st']) (simp add: unmap_one_def same_header_def pt_grows_def)
next
  case Framed
  obtain t ds where ds: "data_frames a = (v, t) # ds"
    using assms(2) Framed by (auto simp: owns_pages_def)
  define a' where "a' = a\<lparr>data_frames := ds\<rparr>"
  have data: "area_data a = insert (ft_ppn t) (area_data a')" and own: "owns_pages a' vs"
    using assms(2) Framed by (auto simp: owns_pages_def area_data_def area_trackers_def ds a'_def)
  have "t \<notin> set (area_trackers a')"
    using assms(2) by (simp add: owns_pages_def area_trackers_def ds a'_def)
  then have t: "ft_ppn t \<notin> area_data a'" by (auto simp: area_data_def dest: ft_eq_iff [THEN iffD2])
  have mm: "mm_inv st" using assms(1) by (simp add: pt_inv_def)
  obtain st1 where st1: "FrameTracker_drop st t = Inr st1" "in_use st1 = in_use st - {ft_ppn t}" "mm_inv st1" "mm_mem st1 = mm_mem st"
    using FrameTracker_drop_ok [OF mm, of t] assms(3) data by auto
  have inv1: "pt_inv st1 pt"
    using assms(1,4) st1 data by (auto simp: pt_inv_def)
  obtain e where "pt_lookup (mm_mem st1) pt v = Some e" using assms(5) st1(4) by auto
  from pt_unmap_mapped [OF inv1 this] obtain st' where st': "pt_unmap v pt st1 = Inr st'" "pt_inv st' pt" "pt_grows st1 pt st' pt"
    "\<forall>w. pt_lookup (mm_mem st') pt w = (if indexes w = indexes v then None else pt_lookup (mm_mem st) pt w)"
    unfolding st1(4) by blast
  have "in_use st' = in_use st1" using st'(3) by (auto simp: pt_grows_def)
  moreover have "unmap_one v (a, pt, st) = Inr (a', pt, st')"
    using st1(1) st'(1) by (simp add: unmap_one_def Framed ds drop_option_def a'_def)
  moreover have "same_outside (frames_of pt) (mm_mem st) (mm_mem st')"
    using st'(3) st1(4) by (simp add: pt_grows_def)
  ultimately show ?thesis
    using st'(2,4) own st1(2) data t by (intro exI [of _ a'] exI [of _ st']) (auto simp: same_header_def a'_def)
qed

lemma unmap_pages_ok:
  assumes "pt_inv st pt" and "owns_pages a vs" and "area_data a \<subseteq> in_use st" and "area_data a \<inter> frames_of pt = {}"
    and "distinct (map indexes vs)" and "\<forall>v \<in> set vs. pt_lookup (mm_mem st) pt v \<noteq> None"
  shows "\<exists>a' st'. for_each unmap_one vs (a, pt, st) = Inr (a', pt, st') \<and> pt_inv st' pt \<and> data_frames a' = [] \<and>
    same_header a a' \<and> in_use st' = in_use st - area_data a \<and>
    same_outside (frames_of pt) (mm_mem st) (mm_mem st') \<and>
    (\<forall>w. pt_lookup (mm_mem st') pt w = (if indexes w \<in> indexes ` set vs then None else pt_lookup (mm_mem st) pt w))"
  using assms
proof (induction vs arbitrary: a st)
  case Nil
  then have "data_frames a = []" by (auto simp: owns_pages_def split: if_splits)
  with Nil show ?case by (simp add: same_header_def area_data_def area_trackers_def)
next
  case (Cons v vs)
  have "pt_lookup (mm_mem st) pt v \<noteq> None" using Cons.prems(6) by simp
  from unmap_one_ok [OF Cons.prems(1-4) this] obtain a1 st1 where one: "unmap_one v (a, pt, st) = Inr (a1, pt, st1)" "pt_inv st1 pt"
      "owns_pages a1 vs" "same_header a a1" "area_data a1 \<subseteq> area_data a" "in_use st1 = in_use st - (area_data a - area_data a1)"
      "same_outside (frames_of pt) (mm_mem st) (mm_mem st1)"
      "\<forall>w. pt_lookup (mm_mem st1) pt w = (if indexes w = indexes v then None else pt_lookup (mm_mem st) pt w)"
    by blast
  have look: "\<forall>w \<in> set vs. pt_lookup (mm_mem st1) pt w \<noteq> None"
    using one(8) Cons.prems(5,6) by (metis distinct.simps(2) image_eqI list.set_intros(2) list.simps(9) list.set_map)
  have "\<exists>a' st'. for_each unmap_one vs (a1, pt, st1) = Inr (a', pt, st') \<and> pt_inv st' pt \<and> data_frames a' = [] \<and>
    same_header a1 a' \<and> in_use st' = in_use st1 - area_data a1 \<and>
    same_outside (frames_of pt) (mm_mem st1) (mm_mem st') \<and>
    (\<forall>w. pt_lookup (mm_mem st') pt w = (if indexes w \<in> indexes ` set vs then None else pt_lookup (mm_mem st1) pt w))"
    by (rule Cons.IH [OF one(2,3)]) (use one(5,6) Cons.prems look in auto)
  then obtain a' st' where rest: "for_each unmap_one vs (a1, pt, st1) = Inr (a', pt, st')" "pt_inv st' pt" "data_frames a' = []"
    "same_header a1 a'" "in_use st' = in_use st1 - area_data a1" "same_outside (frames_of pt) (mm_mem st1) (mm_mem st')"
    "\<forall>w. pt_lookup (mm_mem st') pt w = (if indexes w \<in> indexes ` set vs then None else pt_lookup (mm_mem st1) pt w)"
    by blast
  have "in_use st' = in_use st - area_data a" using rest(5) one(5,6) by auto
  moreover have "same_outside (frames_of pt) (mm_mem st) (mm_mem st')" using one(7) rest(6) by (rule same_outside_trans)
  moreover have "same_header a a'" using one(4) rest(4) by (simp add: same_header_def)
  ultimately show ?case
    using one(1,8) rest by (intro exI [of _ a'] exI [of _ st']) auto
qed

end
