(* ===== verification/Memory_Set.thy ===== *)
theory Memory_Set
  imports Map_Area
begin

text \<open>
  Address spaces: \<open>MemorySet\<close> of \<^verbatim>\<open>src/os/src/mm/memory_set.rs\<close>, a page table with the segments it
  maps.  The symbols of the linker script are a record of addresses, and the ELF parser
  \<^verbatim>\<open>xmas_elf\<close> is a function argument that returns what the accessors of the crate return.  The
  invariant \<open>ms_inv\<close> ties segments, page table and frames together; the relation \<open>built\<close> says that
  an address space was made out of newly allocated frames only.
\<close>

subsection \<open>Linker symbols and ELF files\<close>

record linker_symbols =
  stext :: usize
  etext :: usize
  srodata :: usize
  erodata :: usize
  sdata :: usize
  edata :: usize
  sbss_with_stack :: usize
  ebss :: usize
  ekernel :: usize
  strampoline :: usize

text \<open>The values of the accessors of \<^verbatim>\<open>xmas_elf\<close> that \<open>from_elf\<close> calls; \<open>None\<close> is an \<open>Err\<close>.\<close>

datatype ph_type = Load | OtherType

record program_header =
  ph_get_type :: "ph_type option"
  ph_virtual_addr :: usize
  ph_mem_size :: usize
  ph_offset :: usize
  ph_file_size :: usize
  ph_is_read :: bool
  ph_is_write :: bool
  ph_is_execute :: bool

record elf_file =
  elf_magic :: "u8 list"
  elf_ph_count :: nat
  elf_program_header :: "nat \<Rightarrow> program_header option"
  elf_entry_point :: usize
  elf_input :: "u8 list"

text \<open>\<open>&input[a..b]\<close>\<close>

definition bytes_range :: "u8 list \<Rightarrow> usize \<Rightarrow> usize \<Rightarrow> u8 list result" where
  "bytes_range xs a b =
     (if a \<le> b \<and> unat b \<le> length xs then Inr (take (unat b - unat a) (drop (unat a) xs))
      else Inl (SliceIndex a b))"

subsection \<open>\<open>MemorySet\<close>\<close>

record MemorySet =
  page_table :: PageTable
  areas :: "MapArea list"

definition new_bare :: "mm_state \<Rightarrow> (MemorySet \<times> mm_state) result" where
  "new_bare st = bind (PageTable_new st) (\<lambda>(pt, st). Inr (\<lparr>page_table = pt, areas = []\<rparr>, st))"

definition ms_token :: "MemorySet \<Rightarrow> usize" where
  "ms_token ms = token (page_table ms)"

definition push :: "MapArea \<Rightarrow> u8 list option \<Rightarrow> MemorySet \<times> mm_state \<Rightarrow> (MemorySet \<times> mm_state) result" where
  "push map_area data = (\<lambda>(ms, st).
     bind (area_map map_area (page_table ms) st) (\<lambda>(map_area, pt, st).
     bind (case data of None \<Rightarrow> Inr st | Some data \<Rightarrow> copy_data data map_area pt st) (\<lambda>st.
     Inr (ms\<lparr>page_table := pt, areas := vec_push (areas ms) map_area\<rparr>, st))))"

definition insert_framed_area ::
  "VirtAddr \<Rightarrow> VirtAddr \<Rightarrow> MapPermission \<Rightarrow> MemorySet \<times> mm_state \<Rightarrow> (MemorySet \<times> mm_state) result" where
  "insert_framed_area start_va end_va permission s =
     bind (MapArea_new start_va end_va Framed permission) (\<lambda>area. push area None s)"

text \<open>
  The area found is unmapped in place, taken out of the vector and dropped.
\<close>

definition remove_area_with_start_vpn :: "VirtPageNum \<Rightarrow> MemorySet \<times> mm_state \<Rightarrow> (MemorySet \<times> mm_state) result" where
  "remove_area_with_start_vpn start_vpn = (\<lambda>(ms, st).
     case find (\<lambda>(_, area). get_start (vpn_range area) = start_vpn) (enumerate 0 (areas ms)) of
       None \<Rightarrow> Inr (ms, st)
     | Some (idx, area) \<Rightarrow>
         bind (area_unmap area (page_table ms) st) (\<lambda>(area, pt, st).
         bind (MapArea_drop st area) (\<lambda>st.
         Inr (ms\<lparr>page_table := pt, areas := take idx (areas ms) @ drop (Suc idx) (areas ms)\<rparr>, st))))"

definition map_trampoline :: "linker_symbols \<Rightarrow> MemorySet \<times> mm_state \<Rightarrow> (MemorySet \<times> mm_state) result" where
  "map_trampoline syms = (\<lambda>(ms, st).
     bind (VirtPageNum_from_va (VirtAddr_from TRAMPOLINE)) (\<lambda>vpn.
     bind (PhysPageNum_from_pa (PhysAddr_from (strampoline syms))) (\<lambda>ppn.
     bind (pt_map vpn ppn (PTE_R OR PTE_X) (page_table ms) st) (\<lambda>(pt, st).
     Inr (ms\<lparr>page_table := pt\<rparr>, st)))))"

text \<open>The five identity-mapped segments of the kernel, pushed one after the other.\<close>

definition push_new ::
  "usize \<Rightarrow> usize \<Rightarrow> MapType \<Rightarrow> MapPermission \<Rightarrow> MemorySet \<times> mm_state \<Rightarrow> (MemorySet \<times> mm_state) result" where
  "push_new start end mt mp s =
     bind (MapArea_new (VirtAddr_from start) (VirtAddr_from end) mt mp) (\<lambda>area. push area None s)"

definition new_kernel :: "linker_symbols \<Rightarrow> mm_state \<Rightarrow> (MemorySet \<times> mm_state) result" where
  "new_kernel syms st =
     bind (new_bare st) (\<lambda>s.
     bind (map_trampoline syms s) (\<lambda>s.
     bind (push_new (stext syms) (etext syms) Identical (MP_R OR MP_X) s) (\<lambda>s.
     bind (push_new (srodata syms) (erodata syms) Identical MP_R s) (\<lambda>s.
     bind (push_new (sdata syms) (edata syms) Identical (MP_R OR MP_W) s) (\<lambda>s.
     bind (push_new (sbss_with_stack syms) (ebss syms) Identical (MP_R OR MP_W) s) (\<lambda>s.
     push_new (ekernel syms) MEMORY_END Identical (MP_R OR MP_W) s))))))"

definition segment_perm :: "program_header \<Rightarrow> MapPermission" where
  "segment_perm ph =
     (let map_perm = MP_U;
          map_perm = (if ph_is_read ph then map_perm OR MP_R else map_perm);
          map_perm = (if ph_is_write ph then map_perm OR MP_W else map_perm);
          map_perm = (if ph_is_execute ph then map_perm OR MP_X else map_perm)
      in map_perm)"

text \<open>One iteration of the loop over the program headers.\<close>

definition load_segment ::
  "elf_file \<Rightarrow> nat \<Rightarrow> VirtPageNum \<times> MemorySet \<times> mm_state \<Rightarrow> (VirtPageNum \<times> MemorySet \<times> mm_state) result" where
  "load_segment elf i = (\<lambda>(max_end_vpn, s).
     bind (unwrap (elf_program_header elf i)) (\<lambda>ph.
     bind (unwrap (ph_get_type ph)) (\<lambda>ty.
     if ty = Load then
       (let start_va = VirtAddr_from (ph_virtual_addr ph);
            end_va = VirtAddr_from (ph_virtual_addr ph + ph_mem_size ph)
        in bind (MapArea_new start_va end_va Framed (segment_perm ph)) (\<lambda>map_area.
           let max_end_vpn = get_end (vpn_range map_area)
           in bind (bytes_range (elf_input elf) (ph_offset ph) (ph_offset ph + ph_file_size ph)) (\<lambda>data.
              bind (push map_area (Some data) s) (\<lambda>s.
              Inr (max_end_vpn, s)))))
     else Inr (max_end_vpn, s))))"

definition from_elf ::
  "(u8 list \<Rightarrow> elf_file option) \<Rightarrow> linker_symbols \<Rightarrow> u8 list \<Rightarrow> mm_state \<Rightarrow> ((MemorySet \<times> usize \<times> usize) \<times> mm_state) result" where
  "from_elf elf_new syms elf_data st =
     bind (new_bare st) (\<lambda>s.
     bind (map_trampoline syms s) (\<lambda>s.
     bind (unwrap (elf_new elf_data)) (\<lambda>elf.
     bind (assert_that (elf_magic elf = [0x7f, 0x45, 0x4c, 0x46]) InvalidElf) (\<lambda>_.
     bind (for_each (load_segment elf) [0..<elf_ph_count elf] (VirtPageNum 0, s)) (\<lambda>(max_end_vpn, s).
     let max_end_va = VirtAddr_from_vpn max_end_vpn;
         user_stack_bottom = va_bits max_end_va;
         user_stack_bottom = user_stack_bottom + PAGE_SIZE;
         user_stack_top = user_stack_bottom + USER_STACK_SIZE
     in bind (push_new user_stack_bottom user_stack_top Framed (MP_R OR MP_W OR MP_U) s) (\<lambda>s.
        bind (push_new TRAP_CONTEXT TRAMPOLINE Framed (MP_R OR MP_W) s) (\<lambda>(ms, st).
        Inr ((ms, user_stack_top, elf_entry_point elf), st))))))))"

definition ms_translate :: "memory \<Rightarrow> MemorySet \<Rightarrow> VirtPageNum \<Rightarrow> PageTableEntry option" where
  "ms_translate m ms vpn = translate m (page_table ms) vpn"

text \<open>The inner and the outer loop of \<open>from_existed_user\<close>.\<close>

definition copy_page :: "MemorySet \<Rightarrow> MemorySet \<Rightarrow> VirtPageNum \<Rightarrow> mm_state \<Rightarrow> mm_state result" where
  "copy_page user_space ms vpn st =
     bind (unwrap (ms_translate (mm_mem st) user_space vpn)) (\<lambda>src.
     bind (unwrap (ms_translate (mm_mem st) ms vpn)) (\<lambda>dst.
     bind (copy_from_slice (mm_mem st) (get_bytes_array (pte_ppn dst))
             (slice_read (mm_mem st) (get_bytes_array (pte_ppn src)))) (\<lambda>m.
     Inr (st\<lparr>mm_mem := m\<rparr>))))"

definition copy_area :: "MemorySet \<Rightarrow> MapArea \<Rightarrow> MemorySet \<times> mm_state \<Rightarrow> (MemorySet \<times> mm_state) result" where
  "copy_area user_space area s =
     bind (MapArea_from_another area) (\<lambda>new_area.
     bind (push new_area None s) (\<lambda>(ms, st).
     bind (for_each (copy_page user_space ms) (range_items (vpn_range area)) st) (\<lambda>st.
     Inr (ms, st))))"

definition from_existed_user :: "linker_symbols \<Rightarrow> MemorySet \<Rightarrow> mm_state \<Rightarrow> (MemorySet \<times> mm_state) result" where
  "from_existed_user syms user_space st =
     bind (new_bare st) (\<lambda>s.
     bind (map_trampoline syms s) (\<lambda>s.
     for_each (copy_area user_space) (areas user_space) s))"

text \<open>The part of the hart that \<open>activate\<close> writes: the \<open>satp\<close> register and the TLB.\<close>

record hart =
  hart_satp :: usize
  hart_tlb :: "VirtPageNum \<Rightarrow> PageTableEntry option"

definition activate :: "MemorySet \<Rightarrow> hart \<Rightarrow> hart" where
  "activate ms h = h\<lparr>hart_satp := token (page_table ms), hart_tlb := (\<lambda>_. None)\<rparr>"

definition recycle_data_pages :: "MemorySet \<times> mm_state \<Rightarrow> (MemorySet \<times> mm_state) result" where
  "recycle_data_pages = (\<lambda>(ms, st).
     bind (drop_all MapArea_drop (areas ms) st) (\<lambda>st. Inr (ms\<lparr>areas := []\<rparr>, st)))"

text \<open>Dropping an address space drops its fields in order: the nodes of the table, then the segments.\<close>

definition MemorySet_drop :: "mm_state \<Rightarrow> MemorySet \<Rightarrow> mm_state result" where
  "MemorySet_drop st ms =
     bind (drop_all FrameTracker_drop (pt_frames (page_table ms)) st) (\<lambda>st.
     drop_all MapArea_drop (areas ms) st)"

definition remap_test :: "linker_symbols \<Rightarrow> MemorySet \<Rightarrow> memory \<Rightarrow> unit result" where
  "remap_test syms kernel_space m =
     (let mid_text = VirtAddr_from ((stext syms + etext syms) div 2);
          mid_rodata = VirtAddr_from ((srodata syms + erodata syms) div 2);
          mid_data = VirtAddr_from ((sdata syms + edata syms) div 2)
      in bind (unwrap (translate m (page_table kernel_space) (va_floor mid_text))) (\<lambda>e.
         bind (assert_that (writable e = False) RemapFailed) (\<lambda>_.
         bind (unwrap (translate m (page_table kernel_space) (va_floor mid_rodata))) (\<lambda>e.
         bind (assert_that (writable e = False) RemapFailed) (\<lambda>_.
         bind (unwrap (translate m (page_table kernel_space) (va_floor mid_data))) (\<lambda>e.
         assert_that (executable e = False) RemapFailed))))))"

subsection \<open>The invariant\<close>

definition ms_trackers :: "MemorySet \<Rightarrow> FrameTracker list" where
  "ms_trackers ms = concat (map area_trackers (areas ms))"

definition ms_data :: "MemorySet \<Rightarrow> PhysPageNum set" where
  "ms_data ms = ft_ppn ` set (ms_trackers ms)"

definition ms_frames :: "MemorySet \<Rightarrow> PhysPageNum set" where
  "ms_frames ms = frames_of (page_table ms) \<union> ms_data ms"

definition ms_pages :: "MemorySet \<Rightarrow> VirtPageNum list" where
  "ms_pages ms = concat (map area_pages (areas ms))"

abbreviation ms_lookup :: "mm_state \<Rightarrow> MemorySet \<Rightarrow> VirtPageNum \<Rightarrow> PageTableEntry option" where
  "ms_lookup st ms v \<equiv> pt_lookup (mm_mem st) (page_table ms) v"

text \<open>The bytes a process finds in a page.\<close>

definition page_content :: "mm_state \<Rightarrow> MemorySet \<Rightarrow> VirtPageNum \<Rightarrow> u8 list option" where
  "page_content st ms v = map_option (\<lambda>e. page_bytes (mm_mem st) (pte_ppn e)) (ms_lookup st ms v)"

definition area_ok :: "mm_state \<Rightarrow> PageTable \<Rightarrow> MapArea \<Rightarrow> bool" where
  "area_ok st pt a \<longleftrightarrow> range_ok (vpn_range a) \<and> owns_pages a (area_pages a) \<and>
     (\<forall>v \<in> set (area_pages a). pt_lookup (mm_mem st) pt v = Some (area_entry a v))"

definition ms_inv :: "mm_state \<Rightarrow> MemorySet \<Rightarrow> bool" where
  "ms_inv st ms \<longleftrightarrow> pt_inv st (page_table ms) \<and> distinct (ms_trackers ms) \<and> ms_data ms \<subseteq> in_use st \<and>
     ms_data ms \<inter> frames_of (page_table ms) = {} \<and> distinct (ms_pages ms) \<and>
     (\<forall>a \<in> set (areas ms). area_ok st (page_table ms) a)"

lemma ms_data_area: "a \<in> set (areas ms) \<Longrightarrow> area_data a \<subseteq> ms_data ms"
  by (auto simp: ms_data_def ms_trackers_def area_data_def)

lemma ms_invD:
  assumes "ms_inv st ms"
  shows "pt_inv st (page_table ms)" and "mm_inv st" and "ms_frames ms \<subseteq> in_use st"
    and "a \<in> set (areas ms) \<Longrightarrow> area_ok st (page_table ms) a"
  using assms by (auto simp: ms_inv_def pt_inv_def ms_frames_def)

lemma ms_snoc:
  assumes "areas ms' = areas ms @ [a]"
  shows "ms_trackers ms' = ms_trackers ms @ area_trackers a" and "ms_data ms' = ms_data ms \<union> area_data a"
    and "ms_pages ms' = ms_pages ms @ area_pages a"
  using assms by (auto simp: ms_trackers_def ms_data_def ms_pages_def area_data_def)

text \<open>A change of memory and allocator that touches none of the frames of an address space.\<close>

lemma ms_inv_frame:
  assumes "ms_inv st ms" and "same_outside P (mm_mem st) (mm_mem st')" and "P \<inter> frames_of (page_table ms) = {}"
    and "mm_inv st'" and "ms_frames ms \<subseteq> in_use st'"
  shows "ms_inv st' ms" and "ms_lookup st' ms v = ms_lookup st ms v"
proof -
  have "frames_of (page_table ms) \<subseteq> in_use st'" using assms(5) by (auto simp: ms_frames_def)
  note f = pt_inv_same_outside [OF ms_invD(1) [OF assms(1)] assms(2-4) this]
  show "ms_inv st' ms"
    using assms(1,5) f by (auto simp: ms_inv_def area_ok_def ms_frames_def)
  show "ms_lookup st' ms v = ms_lookup st ms v" by (rule f(2))
qed

text \<open>The entry of a page of a segment.\<close>

lemma ms_page_entry:
  assumes "ms_inv st ms" and "v \<in> set (ms_pages ms)" and "\<forall>a \<in> set (areas ms). map_type a = Framed"
  obtains a where "a \<in> set (areas ms)" and "v \<in> set (area_pages a)" and "ms_lookup st ms v = Some (area_entry a v)"
    and "area_ppn a v \<in> ms_data ms" and "ppn_ok (area_ppn a v)" and "vpn_ok v"
    and "page_content st ms v = Some (page_bytes (mm_mem st) (area_ppn a v))"
proof -
  obtain a where a: "a \<in> set (areas ms)" "v \<in> set (area_pages a)" using assms(2) by (auto simp: ms_pages_def)
  have ok: "area_ok st (page_table ms) a" using ms_invD(4) [OF assms(1) a(1)] .
  then have p: "area_ppn a v \<in> ms_data ms" and look: "ms_lookup st ms v = Some (area_entry a v)" and v: "vpn_ok v"
    using area_ppn_in_data [of a "area_pages a" v] a assms(3) ms_data_area range_items_ok(2) by (auto simp: area_ok_def)
  have pok: "ppn_ok (area_ppn a v)"
    using in_use_ok [OF ms_invD(2) [OF assms(1)]] ms_invD(3) [OF assms(1)] p by (auto simp: ms_frames_def)
  have "page_content st ms v = Some (page_bytes (mm_mem st) (area_ppn a v))"
    by (simp add: page_content_def look area_entry_def pte_ppn_new pok)
  from that [OF a look p pok v this] show ?thesis .
qed

lemma page_content_keep:
  assumes "ms_inv st ms" and "v \<in> set (ms_pages ms)" and "\<forall>a \<in> set (areas ms). map_type a = Framed"
    and "ms_lookup st' ms' v = ms_lookup st ms v" and "same_outside P (mm_mem st) (mm_mem st')" and "P \<inter> ms_data ms = {}"
  shows "page_content st' ms' v = page_content st ms v"
proof -
  from assms(1-3) obtain a where a: "ms_lookup st ms v = Some (area_entry a v)" "area_ppn a v \<in> ms_data ms" "ppn_ok (area_ppn a v)"
    by (rule ms_page_entry)
  then have "page_bytes (mm_mem st') (area_ppn a v) = page_bytes (mm_mem st) (area_ppn a v)"
    using page_bytes_same_outside [OF assms(5)] assms(6) by blast
  with a assms(4) show ?thesis
    by (simp add: page_content_def area_entry_def pte_ppn_new)
qed

subsection \<open>Adding a segment\<close>

text \<open>What \<open>mapping\<close> says of the address space to which the segment is added.\<close>

lemma ms_inv_mapping:
  assumes "ms_inv st ms" and m: "mapping a (page_table ms) st (area_pages a) a' pt' st'" and "data_frames a = []"
    and "range_ok (vpn_range a)"
  defines "ms' \<equiv> ms\<lparr>page_table := pt', areas := areas ms @ [a']\<rparr>"
  shows "ms_inv st' ms'" and "ms_frames ms' = ms_frames ms \<union> (in_use st' - in_use st)" and "in_use st \<subseteq> in_use st'"
    and "same_outside (frames_of (page_table ms) \<union> (in_use st' - in_use st)) (mm_mem st) (mm_mem st')"
proof -
  have inv: "pt_inv st' pt'" and grows: "space_grows st (page_table ms) {} st' pt' (area_data a')"
    and use: "area_data a' \<subseteq> in_use st'" and dis: "area_data a' \<inter> frames_of pt' = {}"
    and own: "owns_pages a' (area_pages a)" and head: "same_header a a'"
    using m assms(3) by (auto simp: mapping_def area_data_def area_trackers_def)
  have new: "ms_lookup st ms v = None \<and> vpn_ok v" if "v \<in> set (area_pages a)" for v
    using m that by (auto simp: mapping_def)
  have look: "pt_lookup (mm_mem st') pt' w =
      (if w \<in> set (area_pages a) then Some (area_entry a' w) else ms_lookup st ms w)" if "vpn_ok w" for w
    using m that by (auto simp: mapping_def)
  have pages: "area_pages a' = area_pages a" using head by (simp add: same_header_def)
  have ms': "page_table ms' = pt'" "areas ms' = areas ms @ [a']" by (simp_all add: ms'_def)
  note sn = ms_snoc [OF ms'(2)]
  have fresh: "area_data a' \<subseteq> in_use st' - in_use st" using grows by (auto simp: space_grows_def)
  have old: "ms_data ms \<subseteq> in_use st" "ms_data ms \<inter> frames_of (page_table ms) = {}" using assms(1) by (auto simp: ms_inv_def)
  show sub: "in_use st \<subseteq> in_use st'" using grows by (simp add: space_grows_def)
  have "distinct (ms_trackers ms')"
    using assms(1) own fresh old(1) by (auto simp: sn ms_inv_def owns_pages_def ms_data_def area_data_def)
  moreover have "ms_data ms' \<subseteq> in_use st'" using sub old(1) use by (auto simp: sn)
  moreover have "ms_data ms' \<inter> frames_of pt' = {}"
    using grows old dis by (auto simp: sn space_grows_def)
  moreover have pg: "v \<notin> set (area_pages a)" "vpn_ok v" if "b \<in> set (areas ms)" "v \<in> set (area_pages b)" for b v
    using ms_invD(4) [OF assms(1) that(1)] that(2) new range_items_ok(2) by (fastforce simp: area_ok_def)+
  then have "distinct (ms_pages ms')"
    using assms(1) range_items_ok(1) [OF assms(4)] by (auto simp: sn(3) pages ms_inv_def ms_pages_def ms'(2))
  moreover have "area_ok st' pt' b" if "b \<in> set (areas ms)" for b
    using ms_invD(4) [OF assms(1) that] pg [OF that] look by (auto simp: area_ok_def)
  moreover have "area_ok st' pt' a'"
    using own head assms(4) look new by (auto simp: area_ok_def pages same_header_def)
  ultimately show "ms_inv st' ms'"
    using inv by (auto simp: ms_inv_def ms')
  show "ms_frames ms' = ms_frames ms \<union> (in_use st' - in_use st)"
    using grows by (auto simp: ms_frames_def ms' sn space_grows_def)
  show "same_outside (frames_of (page_table ms) \<union> (in_use st' - in_use st)) (mm_mem st) (mm_mem st')"
    using grows by (simp add: space_grows_def)
qed

subsection \<open>Address spaces made of new frames\<close>

text \<open>
  The address space owns exactly the frames allocated since \<open>st0\<close>, and memory has changed in
  these frames only.
\<close>

definition built :: "mm_state \<Rightarrow> mm_state \<Rightarrow> MemorySet \<Rightarrow> bool" where
  "built st0 st ms \<longleftrightarrow> ms_inv st ms \<and> in_use st0 \<subseteq> in_use st \<and> ms_frames ms = in_use st - in_use st0 \<and>
     same_outside (in_use st - in_use st0) (mm_mem st0) (mm_mem st)"

lemma built_step:
  assumes "built st0 st ms" and "ms_inv st' ms'" and "ms_frames ms' = ms_frames ms \<union> (in_use st' - in_use st)"
    and "in_use st \<subseteq> in_use st'" and "same_outside (ms_frames ms \<union> (in_use st' - in_use st)) (mm_mem st) (mm_mem st')"
  shows "built st0 st' ms'"
proof -
  have f: "ms_frames ms \<union> (in_use st' - in_use st) = in_use st' - in_use st0"
    using assms(1,4) by (auto simp: built_def)
  have "same_outside (in_use st' - in_use st0) (mm_mem st0) (mm_mem st)"
    using assms(1,4) by (auto simp: built_def intro: same_outside_mono)
  with assms(5) f have "same_outside (in_use st' - in_use st0) (mm_mem st0) (mm_mem st')"
    by (metis same_outside_trans)
  then show ?thesis
    using assms(1-4) f by (auto simp: built_def)
qed

text \<open>A write to data pages of the address space.\<close>

lemma built_write:
  assumes "built st0 st ms" and "same_outside P (mm_mem st) m" and "P \<subseteq> ms_data ms"
  shows "built st0 (st\<lparr>mm_mem := m\<rparr>) ms" and "pt_lookup m (page_table ms) v = ms_lookup st ms v"
proof -
  have inv: "ms_inv st ms" using assms(1) by (simp add: built_def)
  then have "P \<inter> frames_of (page_table ms) = {}" using assms(3) by (auto simp: ms_inv_def)
  note f = ms_inv_frame [OF inv, of P "st\<lparr>mm_mem := m\<rparr>", simplified, OF assms(2) this]
  have "ms_frames ms \<subseteq> in_use st" "mm_inv st" using ms_invD [OF inv] by auto
  note f = f [OF this(2,1)]
  show "pt_lookup m (page_table ms) v = ms_lookup st ms v" by (rule f(2))
  show "built st0 (st\<lparr>mm_mem := m\<rparr>) ms"
  proof (rule built_step [OF assms(1) f(1)])
    show "same_outside (ms_frames ms \<union> (in_use (st\<lparr>mm_mem := m\<rparr>) - in_use st)) (mm_mem st) (mm_mem (st\<lparr>mm_mem := m\<rparr>))"
      using assms(2,3) by (auto simp: ms_frames_def intro: same_outside_mono)
  qed simp_all
qed

lemma new_bare_built:
  assumes "mm_inv st0" and "new_bare st0 = Inr (ms, st)"
  shows "built st0 st ms" and "areas ms = []" and "ms_lookup st ms v = None" and "frames_left st0 = Suc (frames_left st)"
proof -
  obtain pt where n: "PageTable_new st0 = Inr (pt, st)" and ms: "ms = \<lparr>page_table = pt, areas = []\<rparr>"
    using assms(2) by (auto simp: new_bare_def elim!: bind_InrE)
  note p = PageTable_new_Inr [OF assms(1) n]
  have "ms_data ms = {}" "ms_pages ms = []" "ms_trackers ms = []"
    by (simp_all add: ms_data_def ms_trackers_def ms_pages_def ms)
  moreover have "in_use st - in_use st0 = frames_of pt" using p(3,4) by auto
  ultimately show "built st0 st ms"
    using p(1,3,5) by (auto simp: built_def ms_inv_def ms_frames_def ms)
  show "areas ms = []" "ms_lookup st ms v = None" "frames_left st0 = Suc (frames_left st)"
    using p(2,6) by (simp_all add: ms)
qed

lemma new_bare_total:
  assumes "mm_inv st0" and "0 < frames_left st0"
  shows "\<exists>ms st. new_bare st0 = Inr (ms, st)"
  using frame_alloc_unwrap_total [OF assms] by (auto simp: new_bare_def PageTable_new_def)

subsection \<open>The trampoline page\<close>

definition trampoline_vpn :: VirtPageNum where
  "trampoline_vpn = VirtPageNum 0x7ffffff"

definition trampoline_entry :: "linker_symbols \<Rightarrow> PageTableEntry" where
  "trampoline_entry syms = PageTableEntry_new (pa_floor (PhysAddr_from (strampoline syms))) (PTE_R OR PTE_X OR PTE_V)"

lemma trampoline_vpn_ok [simp]: "vpn_ok trampoline_vpn"
  by (simp add: vpn_ok_def trampoline_vpn_def)

lemma VirtPageNum_TRAMPOLINE: "VirtPageNum_from_va (VirtAddr_from TRAMPOLINE) = Inr trampoline_vpn"
proof -
  have b: "va_bits (VirtAddr_from TRAMPOLINE) = 0x7FFFFFF000"
    unfolding TRAMPOLINE_eq VirtAddr_from_bits by simp
  then have "va_floor (VirtAddr_from TRAMPOLINE) = trampoline_vpn"
    by (intro VirtPageNum_eqI) (simp only: unat_va_floor b trampoline_vpn_def VirtPageNum.sel, simp)
  moreover have "va_aligned (VirtAddr_from TRAMPOLINE)"
    unfolding va_aligned_def va_page_offset_take b by simp
  ultimately show ?thesis by (simp add: VirtPageNum_from_va_aligned)
qed

text \<open>The linker script aligns the trampoline section to a page.\<close>

definition strampoline_ok :: "linker_symbols \<Rightarrow> bool" where
  "strampoline_ok syms \<longleftrightarrow> pa_aligned (PhysAddr_from (strampoline syms))"

lemma map_trampoline_eq:
  "map_trampoline syms (ms, st) =
     (if strampoline_ok syms then
        bind (pt_map trampoline_vpn (pa_floor (PhysAddr_from (strampoline syms))) (PTE_R OR PTE_X) (page_table ms) st)
          (\<lambda>(pt, st). Inr (ms\<lparr>page_table := pt\<rparr>, st))
      else Inl (NotAligned (pa_page_offset (PhysAddr_from (strampoline syms)))))"
  by (simp only: map_trampoline_def case_prod_conv VirtPageNum_TRAMPOLINE bind_Inr PhysPageNum_from_pa_def bind_assoc
      strampoline_ok_def pa_aligned_def assert_that_def bind_Inl split: if_split) simp

lemma map_trampoline_built:
  assumes "built st0 st ms" and "map_trampoline syms (ms, st) = Inr (ms', st')"
  shows "built st0 st' ms'" and "areas ms' = areas ms" and "ms_lookup st ms trampoline_vpn = None"
    and "vpn_ok w \<Longrightarrow> ms_lookup st' ms' w = (if w = trampoline_vpn then Some (trampoline_entry syms) else ms_lookup st ms w)"
    and "frames_left st \<le> frames_left st' + 2"
proof -
  obtain pt where m: "pt_map trampoline_vpn (pa_floor (PhysAddr_from (strampoline syms))) (PTE_R OR PTE_X) (page_table ms) st = Inr (pt, st')"
    and ms': "ms' = ms\<lparr>page_table := pt\<rparr>"
    using assms(2) unfolding map_trampoline_eq by (auto elim!: bind_InrE split: if_splits)
  have inv: "ms_inv st ms" using assms(1) by (simp add: built_def)
  note mp = pt_map_Inr [OF ms_invD(1) [OF inv] m]
  show ar: "areas ms' = areas ms" by (simp add: ms')
  have ptm: "page_table ms' = pt" by (simp add: ms')
  have same: "ms_data ms' = ms_data ms" "ms_pages ms' = ms_pages ms" "ms_trackers ms' = ms_trackers ms"
    by (simp_all add: ms_data_def ms_pages_def ms_trackers_def ar)
  show none: "ms_lookup st ms trampoline_vpn = None" by (rule mp(3))
  have look: "ms_lookup st' ms' w = (if w = trampoline_vpn then Some (trampoline_entry syms) else ms_lookup st ms w)" if "vpn_ok w" for w
    using mp(4) that by (simp add: ms' indexes_eq_iff trampoline_entry_def or.assoc)
  then show "ms_lookup st' ms' w = (if w = trampoline_vpn then Some (trampoline_entry syms) else ms_lookup st ms w)" if "vpn_ok w"
    using that .
  show "frames_left st \<le> frames_left st' + 2" by (rule mp(5))
  have f: "frames_of pt = frames_of (page_table ms) \<union> (in_use st' - in_use st)" "in_use st \<subseteq> in_use st'"
    using pt_grows_frames [OF mp(2)] mp(2) by (auto simp: pt_grows_def)
  have "area_ok st' pt a" if "a \<in> set (areas ms)" for a
    using ms_invD(4) [OF inv that] look none range_items_ok(2) [of "vpn_range a"] by (fastforce simp: area_ok_def ms')
  then have "ms_inv st' ms'"
    using inv mp(1) f by (auto simp: ms_inv_def same ptm ar)
  moreover have "same_outside (ms_frames ms \<union> (in_use st' - in_use st)) (mm_mem st) (mm_mem st')"
    using mp(2) f by (auto simp: pt_grows_def ms_frames_def intro: same_outside_mono)
  moreover have "ms_frames ms' = ms_frames ms \<union> (in_use st' - in_use st)"
    using f by (auto simp: ms_frames_def same ptm)
  ultimately show "built st0 st' ms'" using f(2) by (intro built_step [OF assms(1)])
qed

lemma map_trampoline_total:
  assumes "ms_inv st ms" and "ms_lookup st ms trampoline_vpn = None" and "strampoline_ok syms" and "2 \<le> frames_left st"
  shows "\<exists>ms' st'. map_trampoline syms (ms, st) = Inr (ms', st')"
  using pt_map_total [OF ms_invD(1) [OF assms(1)] assms(2,4)] assms(3)
  by (simp only: map_trampoline_eq if_True) (metis (no_types, lifting) bind_Inr case_prod_conv surj_pair)

subsection \<open>Pushing a segment\<close>

text \<open>The pages of a segment as one sequence of bytes.\<close>

definition area_bytes :: "mm_state \<Rightarrow> MapArea \<Rightarrow> u8 list" where
  "area_bytes st a = concat (map (\<lambda>v. page_bytes (mm_mem st) (area_ppn a v)) (area_pages a))"

definition data_bytes :: "u8 list option \<Rightarrow> u8 list" where
  "data_bytes data = (case data of None \<Rightarrow> [] | Some d \<Rightarrow> d)"

text \<open>What may be pushed: an empty segment, with data only when it is framed and the data fits.\<close>

definition pushable :: "MapArea \<Rightarrow> u8 list option \<Rightarrow> bool" where
  "pushable a data \<longleftrightarrow> data_frames a = [] \<and> range_ok (vpn_range a) \<and>
     (data \<noteq> None \<longrightarrow> map_type a = Framed \<and> area_pages a \<noteq> [] \<and> length (data_bytes data) \<le> 4096 * length (area_pages a))"

definition pushed ::
  "mm_state \<Rightarrow> mm_state \<Rightarrow> MemorySet \<Rightarrow> MapArea \<Rightarrow> u8 list option \<Rightarrow> mm_state \<Rightarrow> MemorySet \<Rightarrow> MapArea \<Rightarrow> bool" where
  "pushed st0 st ms a data st' ms' a' \<longleftrightarrow> built st0 st' ms' \<and> areas ms' = areas ms @ [a'] \<and> same_header a a' \<and>
     owns_pages a' (area_pages a) \<and> area_data a' \<subseteq> in_use st' - in_use st \<and>
     (\<forall>v \<in> set (area_pages a). ms_lookup st ms v = None) \<and>
     (\<forall>w. vpn_ok w \<longrightarrow> ms_lookup st' ms' w = (if w \<in> set (area_pages a) then Some (area_entry a' w) else ms_lookup st ms w)) \<and>
     (map_type a = Framed \<longrightarrow> area_bytes st' a' =
        data_bytes data @ replicate (4096 * length (area_pages a) - length (data_bytes data)) 0) \<and>
     in_use st \<subseteq> in_use st' \<and> frames_left st \<le> frames_left st' + cost (map_type a) (area_pages a) \<and>
     same_outside (frames_of (page_table ms) \<union> (in_use st' - in_use st)) (mm_mem st) (mm_mem st')"

lemma pushed_None:
  assumes "built st0 st ms" and "pushable a None" and "area_map a (page_table ms) st = Inr (a', pt', st')"
  defines "ms' \<equiv> ms\<lparr>page_table := pt', areas := areas ms @ [a']\<rparr>"
  shows "pushed st0 st ms a None st' ms' a'"
proof -
  have inv: "ms_inv st ms" using assms(1) by (simp add: built_def)
  have a: "data_frames a = []" "range_ok (vpn_range a)" using assms(2) by (auto simp: pushable_def)
  have m: "mapping a (page_table ms) st (area_pages a) a' pt' st'"
    using area_map_Inr [OF assms(3) ms_invD(1) [OF inv] a] .
  note i = ms_inv_mapping [OF inv m a, folded ms'_def]
  have out: "same_outside (ms_frames ms \<union> (in_use st' - in_use st)) (mm_mem st) (mm_mem st')"
    using i(4) by (rule same_outside_mono) (auto simp: ms_frames_def)
  have "built st0 st' ms'" using built_step [OF assms(1) i(1-3) out] .
  moreover have head: "same_header a a'" using m by (simp add: mapping_def)
  moreover have "area_bytes st' a' = replicate (4096 * length (area_pages a)) 0" if "map_type a = Framed"
  proof -
    have eq: "map (\<lambda>v. page_bytes (mm_mem st') (area_ppn a' v)) (area_pages a) = map (\<lambda>_. replicate 4096 0) (area_pages a)"
      using m that head by (auto simp: mapping_def same_header_def)
    have "concat (map (\<lambda>_. replicate n x) vs) = replicate (n * length vs) x" for vs :: "VirtPageNum list" and n and x :: u8
      by (induction vs) (simp_all add: replicate_add)
    moreover have "area_pages a' = area_pages a" using head by (simp add: same_header_def)
    ultimately show ?thesis by (simp only: area_bytes_def eq)
  qed
  moreover have "area_data a' \<subseteq> in_use st' - in_use st"
    using m a by (auto simp: mapping_def space_grows_def area_data_def area_trackers_def)
  ultimately show ?thesis
    using m i by (auto simp: pushed_def mapping_def ms'_def data_bytes_def same_header_def)
qed

text \<open>The data is copied into the frames of the new segment.\<close>

lemma pushed_copy:
  assumes "pushed st0 st ms a None st1 ms' a'" and "pushable a (Some d)"
  shows "\<exists>m. copy_data d a' (page_table ms') st1 = Inr (st1\<lparr>mm_mem := m\<rparr>) \<and>
    pushed st0 st ms a (Some d) (st1\<lparr>mm_mem := m\<rparr>) ms' a'"
proof -
  have b: "built st0 st1 ms'" and inv: "ms_inv st1 ms'" and ar: "areas ms' = areas ms @ [a']" and head: "same_header a a'"
    and own: "owns_pages a' (area_pages a)"
    using assms(1) by (auto simp: pushed_def built_def)
  have fr: "map_type a = Framed" "map_type a' = Framed" "area_pages a \<noteq> []" "length d \<le> 4096 * length (area_pages a)"
    "range_ok (vpn_range a)" "area_pages a' = area_pages a" "vpn_range a' = vpn_range a"
    using assms(2) head by (auto simp: pushable_def data_bytes_def same_header_def)
  note pages = range_items_ok [OF fr(5)]
  let ?ps = "map (area_ppn a') (area_pages a)"
  have sub: "set ?ps \<subseteq> ms_data ms'"
    using area_ppn_in_data [OF own fr(2)] ms_data_area [of a' ms'] ar by auto
  have data: "ms_data ms' \<subseteq> in_use st1" "ms_data ms' \<inter> frames_of (page_table ms') = {}"
    using inv by (auto simp: ms_inv_def)
  have page: "data_page st1 (page_table ms') v (area_ppn a' v)" if "v \<in> set (area_pages a)" for v
  proof -
    have "area_ppn a' v \<in> ms_data ms'" using sub that by auto
    moreover have "ppn_ok (area_ppn a' v)" using calculation data(1) in_use_ok [OF ms_invD(2) [OF inv]] by blast
    moreover have "ms_lookup st1 ms' v = Some (area_entry a' v)"
      using assms(1) that pages(2) by (auto simp: pushed_def)
    ultimately show ?thesis using data by (auto simp: data_page_def area_entry_def pte_ppn_new)
  qed
  have "\<exists>m. copy_data_loop d 0 (VirtPageNum (vpn_bits (range_l (vpn_range a)))) (page_table ms') (mm_mem st1) = Inr m \<and>
      same_outside (set ?ps) (mm_mem st1) m \<and>
      concat (map (page_bytes m) ?ps) = drop 0 d @ drop (length d - 0) (concat (map (page_bytes (mm_mem st1)) ?ps))"
  proof (rule copy_data_loop_ok [OF ms_invD(1) [OF inv]])
    show "distinct ?ps" using area_ppn_trackers(2) [OF own fr(2) pages(1)] .
    show "\<forall>i < length ?ps. data_page st1 (page_table ms') (VirtPageNum (vpn_bits (range_l (vpn_range a)) + of_nat i)) (?ps ! i)"
      using page pages(4) by (metis length_map nth_map nth_mem)
  qed (use fr in auto)
  then obtain m where m: "copy_data_loop d 0 (range_l (vpn_range a)) (page_table ms') (mm_mem st1) = Inr m"
    "same_outside (set ?ps) (mm_mem st1) m"
    "concat (map (page_bytes m) ?ps) = d @ drop (length d) (concat (map (page_bytes (mm_mem st1)) ?ps))"
    by auto
  have copy: "copy_data d a' (page_table ms') st1 = Inr (st1\<lparr>mm_mem := m\<rparr>)"
    using m(1) fr by (simp add: copy_data_def get_start_def)
  note w = built_write [OF b m(2) sub]
  have new: "set ?ps \<subseteq> in_use st1 - in_use st"
    using area_ppn_in_data [OF own fr(2)] assms(1) by (auto simp: pushed_def)
  have "same_outside (frames_of (page_table ms) \<union> (in_use st1 - in_use st)) (mm_mem st1) m"
    using m(2) by (rule same_outside_mono) (use new in auto)
  then have out: "same_outside (frames_of (page_table ms) \<union> (in_use st1 - in_use st)) (mm_mem st) m"
    using assms(1) by (auto simp: pushed_def intro: same_outside_trans)
  have zero: "area_bytes st1 a' = replicate (4096 * length (area_pages a)) 0"
    using assms(1) fr by (auto simp: pushed_def data_bytes_def)
  have "area_bytes (st1\<lparr>mm_mem := m\<rparr>) a' = d @ replicate (4096 * length (area_pages a) - length d) 0"
    using m(3) zero fr(6) by (simp add: area_bytes_def comp_def)
  with copy w out assms(1) show ?thesis
    by (intro exI [of _ m]) (auto simp: pushed_def data_bytes_def)
qed

lemma push_pushed:
  assumes "built st0 st ms" and "pushable a data" and "push a data (ms, st) = Inr (ms', st')"
  obtains a' where "pushed st0 st ms a data st' ms' a'"
proof -
  obtain a' pt1 st1 where m: "area_map a (page_table ms) st = Inr (a', pt1, st1)"
    and c: "(case data of None \<Rightarrow> Inr st1 | Some d \<Rightarrow> copy_data d a' pt1 st1) = Inr st'"
    and ms': "ms' = ms\<lparr>page_table := pt1, areas := areas ms @ [a']\<rparr>"
    using assms(3) by (auto simp: push_def elim!: bind_InrE)
  have "pushable a None" using assms(2) by (simp add: pushable_def)
  note p = pushed_None [OF assms(1) this m, folded ms']
  show ?thesis
  proof (cases data)
    case None
    with p c that show ?thesis by simp
  next
    case (Some d)
    obtain m where "copy_data d a' (page_table ms') st1 = Inr (st1\<lparr>mm_mem := m\<rparr>)"
      "pushed st0 st ms a (Some d) (st1\<lparr>mm_mem := m\<rparr>) ms' a'"
      using pushed_copy [OF p] assms(2) Some by blast
    with c Some that show ?thesis by (simp add: ms')
  qed
qed

lemma push_total:
  assumes "built st0 st ms" and "pushable a data" and "\<forall>v \<in> set (area_pages a). ms_lookup st ms v = None"
    and "cost (map_type a) (area_pages a) \<le> frames_left st"
  shows "\<exists>ms' st'. push a data (ms, st) = Inr (ms', st')"
proof -
  have inv: "ms_inv st ms" using assms(1) by (simp add: built_def)
  have p0: "pushable a None" using assms(2) by (simp add: pushable_def)
  obtain a' pt1 st1 where m: "area_map a (page_table ms) st = Inr (a', pt1, st1)"
    using area_map_total [OF ms_invD(1) [OF inv] _ _ assms(3,4)] p0 by (auto simp: pushable_def)
  note p = pushed_None [OF assms(1) p0 m]
  show ?thesis
  proof (cases data)
    case None
    then show ?thesis using m by (simp add: push_def)
  next
    case (Some d)
    with pushed_copy [OF p, of d] assms(2) m show ?thesis by (auto simp: push_def)
  qed
qed

lemma MapArea_from_another_ok:
  assumes "range_ok (vpn_range a)"
  shows "MapArea_from_another a = Inr (a\<lparr>data_frames := []\<rparr>)" and "pushable (a\<lparr>data_frames := []\<rparr>) None"
  using assms
  by (auto simp: MapArea_from_another_def get_start_def get_end_def VPNRange_new_def range_ok_def pushable_def)

subsection \<open>Copying an address space\<close>

text \<open>\<open>copy_page\<close> copies the page of one space to the page of the other.\<close>

lemma copy_page_ok:
  assumes "data_page st (page_table us) v p" and "data_page st (page_table ms) v q"
  shows "copy_page us ms v st = Inr (st\<lparr>mm_mem := write_bytes (mm_mem st) (page_base q) (page_bytes (mm_mem st) p)\<rparr>)"
proof -
  obtain e where e: "translate (mm_mem st) (page_table us) v = Some e" "pte_ppn e = p"
    using data_pageD [OF assms(1)] by blast
  obtain f where f: "translate (mm_mem st) (page_table ms) v = Some f" "pte_ppn f = q"
    using data_pageD [OF assms(2)] by blast
  have "copy_from_slice (mm_mem st) (get_bytes_array q) (page_bytes (mm_mem st) p) =
      Inr (write_bytes (mm_mem st) (page_base q) (page_bytes (mm_mem st) p))"
    by (simp add: copy_from_slice_def) (simp add: get_bytes_array_def)
  then show ?thesis
    using e f by (simp add: copy_page_def ms_translate_def)
qed

text \<open>
  The inner loop: pages \<open>p v\<close> of the old space are copied to pages \<open>q v\<close> of the new one, which
  are none of the old space's frames.
\<close>

lemma copy_pages_ok:
  assumes "pt_inv st (page_table us)" and "pt_inv st (page_table ms)" and "distinct (map q vs)"
    and "\<forall>v \<in> set vs. data_page st (page_table us) v (p v) \<and> data_page st (page_table ms) v (q v)"
    and "q ` set vs \<inter> p ` set vs = {}" and "q ` set vs \<inter> frames_of (page_table us) = {}"
  shows "\<exists>m. for_each (copy_page us ms) vs st = Inr (st\<lparr>mm_mem := m\<rparr>) \<and> same_outside (q ` set vs) (mm_mem st) m \<and>
    (\<forall>v \<in> set vs. page_bytes m (q v) = page_bytes (mm_mem st) (p v))"
  using assms
proof (induction vs arbitrary: st)
  case Nil
  then show ?case by (intro exI [of _ "mm_mem st"]) simp
next
  case (Cons v vs)
  have v: "data_page st (page_table us) v (p v)" "data_page st (page_table ms) v (q v)"
    using Cons.prems(4) by auto
  have ok: "ppn_ok (p w)" "ppn_ok (q w)" if "w \<in> set (v # vs)" for w
    using Cons.prems(4) that data_pageD by metis+
  define m1 where "m1 = write_bytes (mm_mem st) (page_base (q v)) (page_bytes (mm_mem st) (p v))"
  have c: "copy_page us ms v st = Inr (st\<lparr>mm_mem := m1\<rparr>)"
    unfolding m1_def using v by (rule copy_page_ok)
  have out: "same_outside {q v} (mm_mem st) m1"
    using copy_to_page(2) [of "q v" "page_bytes (mm_mem st) (p v)"] ok by (simp add: m1_def)
  have page: "page_bytes m1 (q v) = page_bytes (mm_mem st) (p v)"
    unfolding m1_def by (rule page_bytes_write) simp
  have "q v \<notin> frames_of (page_table us)" "q v \<notin> frames_of (page_table ms)"
    using Cons.prems(6) v(2) by (auto simp: data_page_def)
  then have dis: "{q v} \<inter> frames_of (page_table us) = {}" "{q v} \<inter> frames_of (page_table ms) = {}" by auto
  note w1 = data_page_write [OF Cons.prems(1) out dis(1)] and w2 = data_page_write [OF Cons.prems(2) out dis(2)]
  have "\<exists>m. for_each (copy_page us ms) vs (st\<lparr>mm_mem := m1\<rparr>) = Inr (st\<lparr>mm_mem := m1\<rparr>\<lparr>mm_mem := m\<rparr>) \<and>
      same_outside (q ` set vs) (mm_mem (st\<lparr>mm_mem := m1\<rparr>)) m \<and>
      (\<forall>w \<in> set vs. page_bytes m (q w) = page_bytes (mm_mem (st\<lparr>mm_mem := m1\<rparr>)) (p w))"
    by (rule Cons.IH) (use Cons.prems w1 w2 in auto)
  then obtain m where m: "for_each (copy_page us ms) vs (st\<lparr>mm_mem := m1\<rparr>) = Inr (st\<lparr>mm_mem := m\<rparr>)"
    "same_outside (q ` set vs) m1 m" "\<forall>w \<in> set vs. page_bytes m (q w) = page_bytes m1 (p w)"
    by auto
  have "page_bytes m1 (p w) = page_bytes (mm_mem st) (p w)" if "w \<in> set vs" for w
  proof (rule page_bytes_same_outside [OF out])
    have "q v \<notin> p ` set vs" using Cons.prems(5) by auto
    then show "p w \<notin> {q v}" using that by (metis imageI singletonD)
  qed (use ok that in auto)
  moreover have "page_bytes m (q v) = page_bytes m1 (q v)"
    using Cons.prems(3) ok by (intro page_bytes_same_outside [OF m(2)]) auto
  moreover have "same_outside (q ` set (v # vs)) (mm_mem st) m"
    by (rule same_outside_trans [of _ _ m1]; rule same_outside_mono) (use out m(2) in auto)
  ultimately show ?case
    using c m page by (intro exI [of _ m]) auto
qed

text \<open>
  The outer loop.  When the segments \<open>as\<close> of the user space \<open>us\<close> are done, the new space has
  exactly their pages, with the same flags and the same contents, and the trampoline.
\<close>

definition copied :: "linker_symbols \<Rightarrow> mm_state \<Rightarrow> MemorySet \<Rightarrow> MapArea list \<Rightarrow> mm_state \<Rightarrow> MemorySet \<Rightarrow> bool" where
  "copied syms st0 us as st ms \<longleftrightarrow> built st0 st ms \<and> list_all2 same_header as (areas ms) \<and>
     (\<forall>w. vpn_ok w \<longrightarrow>
        (if w \<in> set (concat (map area_pages as)) then
           map_option pte_flags (ms_lookup st ms w) = map_option pte_flags (ms_lookup st0 us w) \<and>
           page_content st ms w = page_content st0 us w
         else ms_lookup st ms w = (if w = trampoline_vpn then Some (trampoline_entry syms) else None)))"

text \<open>A user space: all segments are framed.\<close>

definition user_space :: "mm_state \<Rightarrow> MemorySet \<Rightarrow> bool" where
  "user_space st ms \<longleftrightarrow> ms_inv st ms \<and> (\<forall>a \<in> set (areas ms). map_type a = Framed)"

lemma list_all2_headers:
  assumes "list_all2 same_header as bs"
  shows "map area_pages bs = map area_pages as" and "(\<forall>b \<in> set bs. map_type b = Framed) \<longleftrightarrow> (\<forall>a \<in> set as. map_type a = Framed)"
  using assms by (induction rule: list_all2_induct) (auto simp: same_header_def)

text \<open>Building one space does not disturb another.\<close>

lemma built_other:
  assumes "built st0 st ms" and "ms_inv st0 us"
  shows "ms_inv st us" and "ms_lookup st us v = ms_lookup st0 us v" and "ms_frames us \<inter> ms_frames ms = {}"
    and "v \<in> set (ms_pages us) \<Longrightarrow> \<forall>a \<in> set (areas us). map_type a = Framed \<Longrightarrow> page_content st us v = page_content st0 us v"
proof -
  have out: "same_outside (in_use st - in_use st0) (mm_mem st0) (mm_mem st)" and mm: "mm_inv st"
    and sub: "ms_frames us \<subseteq> in_use st" "ms_frames us \<subseteq> in_use st0"
    using assms(1) ms_invD(3) [OF assms(2)] by (auto simp: built_def dest: ms_invD(2))
  have dis: "(in_use st - in_use st0) \<inter> frames_of (page_table us) = {}" "(in_use st - in_use st0) \<inter> ms_data us = {}"
    using sub(2) by (auto simp: ms_frames_def)
  note f = ms_inv_frame [OF assms(2) out dis(1) mm sub(1)]
  show "ms_inv st us" by (rule f(1))
  show l: "ms_lookup st us v = ms_lookup st0 us v" for v by (rule f(2))
  show "ms_frames us \<inter> ms_frames ms = {}" using assms(1) sub(2) by (auto simp: built_def)
  show "page_content st us v = page_content st0 us v"
    if "v \<in> set (ms_pages us)" "\<forall>a \<in> set (areas us). map_type a = Framed"
    using page_content_keep [OF assms(2) that l out dis(2)] .
qed

lemma user_data_page:
  assumes "user_space st ms" and "a \<in> set (areas ms)" and "v \<in> set (area_pages a)"
  shows "data_page st (page_table ms) v (area_ppn a v)" and "area_ppn a v \<in> ms_data ms"
    and "ms_lookup st ms v = Some (area_entry a v)" and "ppn_ok (area_ppn a v)"
    and "page_content st ms v = Some (page_bytes (mm_mem st) (area_ppn a v))"
proof -
  have inv: "ms_inv st ms" and fr: "map_type a = Framed" using assms by (auto simp: user_space_def)
  have ok: "area_ok st (page_table ms) a" using ms_invD(4) [OF inv assms(2)] .
  then show p: "area_ppn a v \<in> ms_data ms" and look: "ms_lookup st ms v = Some (area_entry a v)"
    using area_ppn_in_data [of a "area_pages a" v] assms fr ms_data_area by (auto simp: area_ok_def)
  show pok: "ppn_ok (area_ppn a v)"
    using in_use_ok [OF ms_invD(2) [OF inv]] ms_invD(3) [OF inv] p by (auto simp: ms_frames_def)
  show "data_page st (page_table ms) v (area_ppn a v)"
    using inv p look pok by (auto simp: data_page_def ms_inv_def area_entry_def pte_ppn_new)
  show "page_content st ms v = Some (page_bytes (mm_mem st) (area_ppn a v))"
    by (simp add: page_content_def look area_entry_def pte_ppn_new pok)
qed

lemma copy_area_copied:
  assumes us: "user_space st0 us" and split: "areas us = as @ a # bs" and copied: "copied syms st0 us as st ms"
    and p: "pushed st0 st ms (a\<lparr>data_frames := []\<rparr>) None st1 ms1 a'"
  shows "\<exists>m. for_each (copy_page us ms1) (area_pages a) st1 = Inr (st1\<lparr>mm_mem := m\<rparr>) \<and>
    copied syms st0 us (as @ [a]) (st1\<lparr>mm_mem := m\<rparr>) ms1"
proof -
  have b: "built st0 st ms" "built st0 st1 ms1" and ar: "areas ms1 = areas ms @ [a']" and own: "owns_pages a' (area_pages a)"
    and fresh: "area_data a' \<subseteq> in_use st1 - in_use st"
    and out1: "same_outside (frames_of (page_table ms) \<union> (in_use st1 - in_use st)) (mm_mem st) (mm_mem st1)"
    using p copied by (auto simp: pushed_def copied_def)
  have head: "same_header a a'" using p by (simp add: pushed_def same_header_def)
  have all2: "list_all2 same_header as (areas ms)" using copied by (simp add: copied_def)
  have inv: "ms_inv st0 us" and fr: "\<forall>b \<in> set (areas us). map_type b = Framed" and a: "a \<in> set (areas us)"
    using us split by (auto simp: user_space_def)
  have fr': "\<forall>b \<in> set (areas ms). map_type b = Framed" "map_type a' = Framed"
    using list_all2_headers(2) [OF all2] fr split head by (auto simp: same_header_def)
  have us1: "user_space st1 us" and ns: "user_space st1 ms1" and msi: "ms_inv st ms"
    using built_other(1) [OF b(2) inv] fr fr' b ar by (auto simp: user_space_def built_def)
  have range: "range_ok (vpn_range a)" using ms_invD(4) [OF inv a] by (simp add: area_ok_def)
  note pages = range_items_ok [OF range]
  have pg': "area_pages a' = area_pages a" using head by (simp add: same_header_def)
  let ?P = "area_ppn a ` set (area_pages a)" and ?Q = "area_ppn a' ` set (area_pages a)"
  note du = user_data_page [OF us1 a] and dn = user_data_page [OF ns, of a', unfolded pg']
  have Q: "?Q \<subseteq> ms_data ms1" "?Q \<subseteq> area_data a'"
    using dn(2) ar area_ppn_in_data [OF own fr'(2)] by auto
  have dis: "ms_frames us \<inter> ms_frames ms1 = {}" using built_other(3) [OF b(2) inv] .
  obtain m where m: "for_each (copy_page us ms1) (area_pages a) st1 = Inr (st1\<lparr>mm_mem := m\<rparr>)"
    "same_outside ?Q (mm_mem st1) m"
    "\<forall>v \<in> set (area_pages a). page_bytes m (area_ppn a' v) = page_bytes (mm_mem st1) (area_ppn a v)"
  proof -
    have "\<exists>m. for_each (copy_page us ms1) (area_pages a) st1 = Inr (st1\<lparr>mm_mem := m\<rparr>) \<and> same_outside ?Q (mm_mem st1) m \<and>
        (\<forall>v \<in> set (area_pages a). page_bytes m (area_ppn a' v) = page_bytes (mm_mem st1) (area_ppn a v))"
    proof (rule copy_pages_ok)
      show "pt_inv st1 (page_table us)" "pt_inv st1 (page_table ms1)"
        using us1 ns by (auto simp: user_space_def ms_inv_def)
      show "distinct (map (area_ppn a') (area_pages a))" using area_ppn_trackers(2) [OF own fr'(2) pages(1)] .
      show "\<forall>v \<in> set (area_pages a). data_page st1 (page_table us) v (area_ppn a v) \<and> data_page st1 (page_table ms1) v (area_ppn a' v)"
        using du(1) dn(1) ar by auto
      have "?P \<subseteq> ms_frames us" using du(2) by (auto simp: ms_frames_def)
      moreover have "?Q \<subseteq> ms_frames ms1" using Q(1) by (auto simp: ms_frames_def)
      ultimately show "?Q \<inter> ?P = {}" using dis by blast
      show "?Q \<inter> frames_of (page_table us) = {}"
        using \<open>?Q \<subseteq> ms_frames ms1\<close> dis by (auto simp: ms_frames_def)
    qed
    then show ?thesis using that by blast
  qed
  note w = built_write [OF b(2) m(2) Q(1)]
  have look1: "ms_lookup st1 ms1 v = (if v \<in> set (area_pages a) then Some (area_entry a' v) else ms_lookup st ms v)" if "vpn_ok v" for v
    using p that by (auto simp: pushed_def)
  have "copied syms st0 us (as @ [a]) (st1\<lparr>mm_mem := m\<rparr>) ms1"
    unfolding copied_def
  proof (intro conjI allI impI)
    show "built st0 (st1\<lparr>mm_mem := m\<rparr>) ms1" by (rule w(1))
    show "list_all2 same_header (as @ [a]) (areas ms1)" using all2 head ar by (simp add: list_all2_appendI)
    fix v
    assume v: "vpn_ok v"
    have new: "map_option pte_flags (pt_lookup m (page_table ms1) v) = map_option pte_flags (ms_lookup st0 us v) \<and>
        page_content (st1\<lparr>mm_mem := m\<rparr>) ms1 v = page_content st0 us v" if "v \<in> set (area_pages a)"
    proof -
      have "ms_lookup st0 us v = Some (area_entry a v)" using user_data_page(3) [OF us a that] .
      moreover have "map_perm a' = map_perm a" using head by (simp add: same_header_def)
      moreover have "page_content (st1\<lparr>mm_mem := m\<rparr>) ms1 v = page_content st1 us v"
        unfolding du(5) [OF that] using m(3) that dn(4) ar look1 [OF v]
        by (simp add: page_content_def w(2) area_entry_def pte_ppn_new)
      moreover have "page_content st1 us v = page_content st0 us v"
        using that a by (intro built_other(4) [OF b(2) inv _ fr]) (auto simp: ms_pages_def)
      ultimately show ?thesis
        using look1 [OF v] that by (simp add: w(2) area_entry_def pte_flags_new)
    qed
    have old: "page_content (st1\<lparr>mm_mem := m\<rparr>) ms1 v = page_content st ms v"
      if "v \<in> set (concat (map area_pages as))" "v \<notin> set (area_pages a)"
    proof (rule page_content_keep [OF msi _ fr'(1)])
      show "v \<in> set (ms_pages ms)" using that(1) list_all2_headers(1) [OF all2] by (simp add: ms_pages_def flip: set_map)
      show "ms_lookup (st1\<lparr>mm_mem := m\<rparr>) ms1 v = ms_lookup st ms v" using look1 [OF v] that(2) w(2) by simp
      show "same_outside (frames_of (page_table ms) \<union> (in_use st1 - in_use st)) (mm_mem st) (mm_mem (st1\<lparr>mm_mem := m\<rparr>))"
      proof -
        have "?Q \<subseteq> frames_of (page_table ms) \<union> (in_use st1 - in_use st)" using Q(2) fresh by blast
        from same_outside_trans [OF out1 same_outside_mono [OF m(2) this]] show ?thesis by simp
      qed
      show "(frames_of (page_table ms) \<union> (in_use st1 - in_use st)) \<inter> ms_data ms = {}"
        using msi by (auto simp: ms_inv_def)
    qed
    show "if v \<in> set (concat (map area_pages (as @ [a])))
      then map_option pte_flags (ms_lookup (st1\<lparr>mm_mem := m\<rparr>) ms1 v) = map_option pte_flags (ms_lookup st0 us v) \<and>
        page_content (st1\<lparr>mm_mem := m\<rparr>) ms1 v = page_content st0 us v
      else ms_lookup (st1\<lparr>mm_mem := m\<rparr>) ms1 v = (if v = trampoline_vpn then Some (trampoline_entry syms) else None)"
    proof (cases "v \<in> set (area_pages a)")
      case True
      with new show ?thesis by simp
    next
      case False
      then have l: "ms_lookup (st1\<lparr>mm_mem := m\<rparr>) ms1 v = ms_lookup st ms v" using look1 [OF v] w(2) by simp
      have "v \<in> set (concat (map area_pages (as @ [a]))) \<longleftrightarrow> v \<in> set (concat (map area_pages as))" using False by simp
      then show ?thesis using copied v old False unfolding copied_def l by presburger
    qed
  qed
  with m(1) show ?thesis by blast
qed

lemma from_existed_user_copied:
  assumes "user_space st0 us" and "from_existed_user syms us st0 = Inr (ms, st)"
  shows "copied syms st0 us (areas us) st ms"
proof -
  have inv: "ms_inv st0 us" using assms(1) by (simp add: user_space_def)
  obtain ms1 st1 ms2 st2 where n: "new_bare st0 = Inr (ms1, st1)" and t: "map_trampoline syms (ms1, st1) = Inr (ms2, st2)"
    and l: "for_each (copy_area us) (areas us) (ms2, st2) = Inr (ms, st)"
    using assms(2) unfolding from_existed_user_def by (auto elim!: bind_InrE)
  note nb = new_bare_built [OF ms_invD(2) [OF inv] n] and tr = map_trampoline_built [OF new_bare_built(1) [OF ms_invD(2) [OF inv] n] t]
  have "case (ms, st) of (ms, st) \<Rightarrow> copied syms st0 us (areas us) st ms"
  proof (rule for_each_invariant [OF l, where I = "\<lambda>as (ms, st). copied syms st0 us as st ms"])
    show "case (ms2, st2) of (ms, st) \<Rightarrow> copied syms st0 us [] st ms"
      using tr nb by (auto simp: copied_def)
    fix as a bs s t
    assume split: "areas us = as @ a # bs" and c: "case s of (ms, st) \<Rightarrow> copied syms st0 us as st ms" and one: "copy_area us a s = Inr t"
    obtain ns u where s: "s = (ns, u)" by fastforce
    with c have c: "copied syms st0 us as u ns" by simp
    have "range_ok (vpn_range a)" using ms_invD(4) [OF inv, of a] split by (simp add: area_ok_def)
    note na = MapArea_from_another_ok [OF this]
    obtain ns1 u1 where p: "push (a\<lparr>data_frames := []\<rparr>) None (ns, u) = Inr (ns1, u1)"
      and f: "bind (for_each (copy_page us ns1) (area_pages a) u1) (\<lambda>st. Inr (ns1, st)) = Inr t"
      using one unfolding copy_area_def na(1) s by (auto elim!: bind_InrE)
    have "built st0 u ns" using c by (simp add: copied_def)
    from push_pushed [OF this na(2) p] obtain a' where "pushed st0 u ns (a\<lparr>data_frames := []\<rparr>) None u1 ns1 a'" .
    from copy_area_copied [OF assms(1) split c this] f
    show "case t of (ms, st) \<Rightarrow> copied syms st0 us (as @ [a]) st ms" by auto
  qed
  then show ?thesis by simp
qed

text \<open>The frames a copy may need: the root, two nodes for the trampoline, and the cost of each segment.\<close>

definition copy_cost :: "MapArea list \<Rightarrow> nat" where
  "copy_cost as = (\<Sum>a\<leftarrow>as. cost (map_type a) (area_pages a))"

definition copy_room :: "MemorySet \<Rightarrow> nat" where
  "copy_room us = 3 + copy_cost (areas us)"

lemma from_existed_user_total:
  assumes "user_space st0 us" and "strampoline_ok syms" and "trampoline_vpn \<notin> set (ms_pages us)" and "copy_room us \<le> frames_left st0"
  shows "\<exists>ms st. from_existed_user syms us st0 = Inr (ms, st) \<and> frames_left st0 \<le> frames_left st + copy_room us"
proof -
  have inv: "ms_inv st0 us" using assms(1) by (simp add: user_space_def)
  note mm = ms_invD(2) [OF inv]
  obtain ms1 st1 where n: "new_bare st0 = Inr (ms1, st1)" using new_bare_total [OF mm] assms(4) by (auto simp: copy_room_def)
  note nb = new_bare_built [OF mm n]
  have i1: "ms_inv st1 ms1" using nb(1) by (simp add: built_def)
  have "2 \<le> frames_left st1" using nb(4) assms(4) by (simp add: copy_room_def)
  then obtain ms2 st2 where t: "map_trampoline syms (ms1, st1) = Inr (ms2, st2)"
    using map_trampoline_total [OF i1 nb(3) assms(2)] by blast
  note tr = map_trampoline_built [OF nb(1) t]
  have "\<exists>t. for_each (copy_area us) (areas us) (ms2, st2) = Inr t \<and>
      (case t of (ms, st) \<Rightarrow> copied syms st0 us (areas us) st ms \<and>
        frames_left st0 \<le> frames_left st + 3 + copy_cost (areas us))"
  proof (rule for_each_total [where I = "\<lambda>as (ms, st). copied syms st0 us as st ms \<and>
      frames_left st0 \<le> frames_left st + 3 + copy_cost as"])
    show "case (ms2, st2) of (ms, st) \<Rightarrow> copied syms st0 us [] st ms \<and>
        frames_left st0 \<le> frames_left st + 3 + copy_cost []"
      using tr nb assms(4) by (auto simp: copied_def copy_room_def copy_cost_def)
    fix as a bs s
    assume split: "areas us = as @ a # bs" and c: "case s of (ms, st) \<Rightarrow> copied syms st0 us as st ms \<and>
      frames_left st0 \<le> frames_left st + 3 + copy_cost as"
    obtain ns u where s: "s = (ns, u)" by fastforce
    with c have c: "copied syms st0 us as u ns" and left: "frames_left st0 \<le> frames_left u + 3 + copy_cost as"
      by auto
    have b: "built st0 u ns" using c by (simp add: copied_def)
    have r: "range_ok (vpn_range a)" using ms_invD(4) [OF inv, of a] split by (simp add: area_ok_def)
    note na = MapArea_from_another_ok [OF r]
    have new: "ms_lookup u ns v = None" if "v \<in> set (area_pages a)" for v
    proof -
      have "v \<notin> set (concat (map area_pages as))" "v \<noteq> trampoline_vpn"
        using inv split that assms(3) by (auto simp: ms_inv_def ms_pages_def)
      then show ?thesis using c range_items_ok(2) [OF r that] by (auto simp: copied_def)
    qed
    have "cost (map_type a) (area_pages a) \<le> frames_left u"
      using left split assms(4) by (simp add: copy_cost_def copy_room_def)
    then obtain ns1 u1 where p: "push (a\<lparr>data_frames := []\<rparr>) None (ns, u) = Inr (ns1, u1)"
      using push_total [OF b na(2)] new by auto
    from push_pushed [OF b na(2) p] obtain a' where pd: "pushed st0 u ns (a\<lparr>data_frames := []\<rparr>) None u1 ns1 a'" .
    then have "frames_left u \<le> frames_left u1 + cost (map_type a) (area_pages a)" by (simp add: pushed_def)
    with copy_area_copied [OF assms(1) split c pd] p left
    show "\<exists>t. copy_area us a s = Inr t \<and> (case t of (ms, st) \<Rightarrow> copied syms st0 us (as @ [a]) st ms \<and>
      frames_left st0 \<le> frames_left st + 3 + copy_cost (as @ [a]))"
      by (auto simp: copy_area_def na(1) s copy_cost_def)
  qed
  then show ?thesis using n t by (auto simp: from_existed_user_def copy_room_def)
qed

subsection \<open>Giving frames back\<close>

lemma drop_areas: "drop_all MapArea_drop as st = drop_all FrameTracker_drop (concat (map area_trackers as)) st"
proof (induction as arbitrary: st)
  case Nil
  then show ?case by simp
next
  case (Cons a as)
  then show ?case by (simp add: drop_all_append MapArea_drop_def [abs_def] cong: bind_cong)
qed

lemma MemorySet_drop_ok:
  assumes "ms_inv st ms"
  shows "\<exists>st'. MemorySet_drop st ms = Inr st' \<and> in_use st' = in_use st - ms_frames ms \<and> mm_mem st' = mm_mem st \<and> mm_inv st' \<and>
    frames_left st' = frames_left st + length (pt_frames (page_table ms)) + length (ms_trackers ms)"
proof -
  let ?ts = "pt_frames (page_table ms) @ ms_trackers ms"
  have "set (pt_frames (page_table ms)) \<inter> set (ms_trackers ms) = {}"
    using assms by (auto simp: ms_inv_def frames_of_def ms_data_def)
  then have "distinct ?ts" using assms by (simp add: ms_inv_def pt_inv_def)
  moreover have "ft_ppn ` set ?ts \<subseteq> in_use st"
    using assms by (auto simp: ms_inv_def pt_inv_def frames_of_def ms_data_def)
  ultimately obtain st' where st': "drop_all FrameTracker_drop ?ts st = Inr st'" "mm_mem st' = mm_mem st" "mm_inv st'"
      "frames_left st' = frames_left st + length ?ts" "in_use st' = in_use st - ft_ppn ` set ?ts"
    using drop_trackers_total [OF ms_invD(2) [OF assms]] by blast
  moreover have "MemorySet_drop st ms = drop_all FrameTracker_drop ?ts st"
    by (simp add: MemorySet_drop_def drop_areas drop_all_append ms_trackers_def)
  moreover have "ft_ppn ` set ?ts = ms_frames ms"
    by (simp add: ms_frames_def frames_of_def ms_data_def image_Un)
  ultimately show ?thesis by auto
qed

lemma recycle_data_pages_ok:
  assumes "ms_inv st ms"
  shows "\<exists>st'. recycle_data_pages (ms, st) = Inr (ms\<lparr>areas := []\<rparr>, st') \<and> ms_inv st' (ms\<lparr>areas := []\<rparr>) \<and>
    in_use st' = in_use st - ms_data ms \<and> mm_mem st' = mm_mem st \<and> frames_left st' = frames_left st + length (ms_trackers ms)"
proof -
  have "distinct (ms_trackers ms)" "ft_ppn ` set (ms_trackers ms) \<subseteq> in_use st"
    using assms by (auto simp: ms_inv_def ms_data_def)
  then obtain st' where st': "drop_all FrameTracker_drop (ms_trackers ms) st = Inr st'" "mm_mem st' = mm_mem st" "mm_inv st'"
      "frames_left st' = frames_left st + length (ms_trackers ms)" "in_use st' = in_use st - ms_data ms"
    using drop_trackers_total [OF ms_invD(2) [OF assms], of "ms_trackers ms"] by (auto simp: ms_data_def)
  moreover have "recycle_data_pages (ms, st) = Inr (ms\<lparr>areas := []\<rparr>, st')"
    using st'(1) by (simp add: recycle_data_pages_def drop_areas ms_trackers_def)
  moreover have "ms_data (ms\<lparr>areas := []\<rparr>) = {}" "ms_trackers (ms\<lparr>areas := []\<rparr>) = []" "ms_pages (ms\<lparr>areas := []\<rparr>) = []"
    by (simp_all add: ms_data_def ms_trackers_def ms_pages_def)
  then have "ms_inv st' (ms\<lparr>areas := []\<rparr>)"
    using assms st' by (auto simp: ms_inv_def pt_inv_def)
  ultimately show ?thesis by blast
qed

text \<open>Removing a segment by its first page.\<close>

lemma find_enumerate:
  assumes "xs = ys @ x # zs" and "P x" and "\<forall>y \<in> set ys. \<not> P y"
  shows "find (\<lambda>(_, y). P y) (enumerate n xs) = Some (n + length ys, x)"
  using assms
proof (induction ys arbitrary: xs n)
  case Nil
  then show ?case by simp
next
  case (Cons y ys)
  then show ?case by simp
qed

lemma find_enumerate_None:
  assumes "\<forall>x \<in> set xs. \<not> P x"
  shows "find (\<lambda>(_, y). P y) (enumerate n xs) = None"
  using assms by (induction xs arbitrary: n) simp_all

lemma ms_middle:
  assumes "areas ms = as @ a # bs" and "areas ms' = as @ bs"
  shows "set (ms_trackers ms') = set (ms_trackers ms) - set (area_trackers a) \<or> \<not> distinct (ms_trackers ms)"
    and "distinct (ms_trackers ms) \<Longrightarrow> distinct (ms_trackers ms')" and "distinct (ms_trackers ms) \<Longrightarrow> ms_data ms' = ms_data ms - area_data a"
    and "distinct (ms_pages ms) \<Longrightarrow> distinct (ms_pages ms') \<and> set (ms_pages ms') = set (ms_pages ms) - set (area_pages a)"
proof -
  have inj: "ft_ppn ` (A - B) = ft_ppn ` A - ft_ppn ` B" for A B
    by (rule image_set_diff) (simp add: inj_on_def ft_eq_iff)
  show s: "set (ms_trackers ms') = set (ms_trackers ms) - set (area_trackers a) \<or> \<not> distinct (ms_trackers ms)"
    using assms by (auto simp: ms_trackers_def)
  show "distinct (ms_trackers ms) \<Longrightarrow> distinct (ms_trackers ms')"
    using assms by (auto simp: ms_trackers_def)
  show "distinct (ms_trackers ms) \<Longrightarrow> ms_data ms' = ms_data ms - area_data a"
    using s by (simp add: ms_data_def area_data_def inj)
  show "distinct (ms_pages ms) \<Longrightarrow> distinct (ms_pages ms') \<and> set (ms_pages ms') = set (ms_pages ms) - set (area_pages a)"
    using assms by (auto simp: ms_pages_def)
qed

lemma remove_area_ok:
  assumes "ms_inv st ms" and split: "areas ms = as @ a # bs" and "range_l (vpn_range a) = v"
    and "\<forall>b \<in> set as. range_l (vpn_range b) \<noteq> v"
  shows "\<exists>ms' st'. remove_area_with_start_vpn v (ms, st) = Inr (ms', st') \<and> ms_inv st' ms' \<and> areas ms' = as @ bs \<and>
    page_table ms' = page_table ms \<and> in_use st' = in_use st - area_data a \<and>
    same_outside (frames_of (page_table ms)) (mm_mem st) (mm_mem st') \<and>
    (\<forall>w. vpn_ok w \<longrightarrow> ms_lookup st' ms' w = (if w \<in> set (area_pages a) then None else ms_lookup st ms w))"
proof -
  let ?pt = "page_table ms"
  have a: "a \<in> set (areas ms)" using split by simp
  have ok: "area_ok st ?pt a" using ms_invD(4) [OF assms(1) a] .
  then have range: "range_ok (vpn_range a)" and own: "owns_pages a (area_pages a)"
    and look: "\<forall>w \<in> set (area_pages a). pt_lookup (mm_mem st) ?pt w \<noteq> None"
    by (auto simp: area_ok_def)
  note pages = range_items_ok [OF range]
  have data: "area_data a \<subseteq> in_use st" "area_data a \<inter> frames_of ?pt = {}"
    using ms_data_area [OF a] assms(1) by (auto simp: ms_inv_def)
  have inj: "inj_on indexes (set (area_pages a))"
    using pages(2) by (auto simp: inj_on_def indexes_eq_iff)
  have keys: "distinct (map indexes (area_pages a))" using pages(1) inj by (simp add: distinct_map)
  obtain a' st' where u: "area_unmap a ?pt st = Inr (a', ?pt, st')" "pt_inv st' ?pt" "data_frames a' = []"
    "in_use st' = in_use st - area_data a" "same_outside (frames_of ?pt) (mm_mem st) (mm_mem st')"
    "\<forall>w. pt_lookup (mm_mem st') ?pt w = (if indexes w \<in> indexes ` set (area_pages a) then None else pt_lookup (mm_mem st) ?pt w)"
    using unmap_pages_ok [OF ms_invD(1) [OF assms(1)] own data keys look] by (auto simp: area_unmap_def)
  have look': "pt_lookup (mm_mem st') ?pt w = (if w \<in> set (area_pages a) then None else pt_lookup (mm_mem st) ?pt w)" if "vpn_ok w" for w
  proof -
    have "indexes w \<in> indexes ` set (area_pages a) \<longleftrightarrow> w \<in> set (area_pages a)"
      using pages(2) that by (auto simp: image_iff indexes_eq_iff)
    then show ?thesis using u(6) by simp
  qed
  define ms' where "ms' = ms\<lparr>page_table := ?pt, areas := as @ bs\<rparr>"
  have ms': "page_table ms' = ?pt" "areas ms' = as @ bs" by (simp_all add: ms'_def)
  have "find (\<lambda>(_, area). get_start (vpn_range area) = v) (enumerate 0 (areas ms)) = Some (0 + length as, a)"
    by (rule find_enumerate) (use assms in \<open>auto simp: get_start_def\<close>)
  then have r: "remove_area_with_start_vpn v (ms, st) = Inr (ms', st')"
    using u(1,3) split by (simp add: remove_area_with_start_vpn_def ms'_def MapArea_drop_def area_trackers_def)
  note mid = ms_middle [OF split ms'(2)]
  have dt: "distinct (ms_trackers ms)" "distinct (ms_pages ms)" using assms(1) by (auto simp: ms_inv_def)
  have "area_ok st' ?pt b" if "b \<in> set (as @ bs)" for b
  proof -
    have b: "area_ok st ?pt b" "range_ok (vpn_range b)" using ms_invD(4) [OF assms(1), of b] that split by (auto simp: area_ok_def)
    have "w \<notin> set (area_pages a) \<and> vpn_ok w" if "w \<in> set (area_pages b)" for w
      using dt(2) split that \<open>b \<in> set (as @ bs)\<close> range_items_ok(2) [OF b(2)] by (auto simp: ms_pages_def)
    with b look' show ?thesis by (auto simp: area_ok_def)
  qed
  then have "ms_inv st' ms'"
    using u(2,4) mid dt assms(1) by (auto simp: ms_inv_def ms')
  with r u look' show ?thesis by (intro exI [of _ ms'] exI [of _ st']) (auto simp: ms')
qed

subsection \<open>Segments given by page-aligned addresses\<close>

text \<open>The pages from number \<open>lo\<close> up to \<open>hi\<close>, and the new segment over them.\<close>

definition pages :: "nat \<Rightarrow> nat \<Rightarrow> VirtPageNum set" where
  "pages lo hi = {v. lo \<le> unat (vpn_bits v) \<and> unat (vpn_bits v) < hi}"

definition new_area :: "nat \<Rightarrow> nat \<Rightarrow> MapType \<Rightarrow> MapPermission \<Rightarrow> MapArea" where
  "new_area lo hi mt mp =
     \<lparr>vpn_range = \<lparr>range_l = VirtPageNum (of_nat lo), range_r = VirtPageNum (of_nat hi)\<rparr>,
      data_frames = [], map_type = mt, map_perm = mp\<rparr>"

lemma new_area_simps [simp]:
  "map_type (new_area lo hi mt mp) = mt" "map_perm (new_area lo hi mt mp) = mp" "data_frames (new_area lo hi mt mp) = []"
  "get_end (vpn_range (new_area lo hi mt mp)) = VirtPageNum (of_nat hi)"
  by (simp_all add: new_area_def get_end_def)

lemma new_area_pages:
  assumes "lo \<le> hi" and "hi \<le> 2 ^ 27"
  shows "range_ok (vpn_range (new_area lo hi mt mp))" and "set (area_pages (new_area lo hi mt mp)) = pages lo hi"
    and "length (area_pages (new_area lo hi mt mp)) = hi - lo" and "pushable (new_area lo hi mt mp) None"
proof -
  have u: "unat (of_nat lo :: usize) = lo" "unat (of_nat hi :: usize) = hi" using assms by auto
  show r: "range_ok (vpn_range (new_area lo hi mt mp))"
    using assms u by (simp add: range_ok_def new_area_def less_eq_VirtPageNum_def word_le_nat_alt)
  then show "pushable (new_area lo hi mt mp) None" by (simp add: pushable_def)
  have le: "range_l (vpn_range (new_area lo hi mt mp)) \<le> range_r (vpn_range (new_area lo hi mt mp))"
    using r by (simp add: range_ok_def)
  show "set (area_pages (new_area lo hi mt mp)) = pages lo hi"
    unfolding set_range_items [OF le] pages_def using u
    by (simp add: new_area_def less_eq_VirtPageNum_def less_VirtPageNum_def word_le_nat_alt word_less_nat_alt)
  show "length (area_pages (new_area lo hi mt mp)) = hi - lo"
    unfolding length_range_items [OF le] using u by (simp add: new_area_def)
qed

text \<open>A range of pages touches one block more than it fills, at most two.\<close>

lemma blocks_new_area:
  assumes "lo \<le> hi" and "hi \<le> 2 ^ 27"
  shows "blocks (area_pages (new_area lo hi mt mp)) \<le> (hi - lo) div 512 + 2"
proof -
  let ?A = "(\<lambda>v. butlast (indexes v)) ` pages lo hi"
  define g :: "nat \<Rightarrow> usize list" where "g b = butlast (indexes (VirtPageNum (of_nat (512 * b))))" for b
  have "butlast (indexes v) = g (unat (vpn_bits v) div 512)" for v
  proof -
    have "drop_bit 9 (vpn_bits v) = drop_bit 9 (of_nat (512 * (unat (vpn_bits v) div 512)))"
    proof -
      have "512 * (unat (vpn_bits v) div 512) < 2 ^ 64"
        using unat_usize_less [of "vpn_bits v"] times_div_less_eq_dividend [of 512 "unat (vpn_bits v)"] by linarith
      then have u: "unat (of_nat (512 * (unat (vpn_bits v) div 512)) :: usize) = 512 * (unat (vpn_bits v) div 512)"
        by (rule unat_of_nat_less)
      show ?thesis by (simp only: word_unat_eq_iff unat_drop_bit u) simp
    qed
    then have "drop_bit 18 (vpn_bits v) = drop_bit 18 (of_nat (512 * (unat (vpn_bits v) div 512)))"
      using drop_bit_drop_bit [of 9 9 "vpn_bits v"] drop_bit_drop_bit [of 9 9 "of_nat (512 * (unat (vpn_bits v) div 512)) :: usize"]
      by simp
    with \<open>drop_bit 9 (vpn_bits v) = _\<close> show ?thesis by (simp add: g_def indexes_eq)
  qed
  then have "?A \<subseteq> g ` {lo div 512..(hi - 1) div 512}"
    by (auto simp: pages_def intro!: imageI div_le_mono)
  then have "card ?A \<le> card {lo div 512..(hi - 1) div 512}"
    by (meson card_image_le card_mono finite_atLeastAtMost finite_imageI le_trans)
  also have "\<dots> \<le> (hi - lo) div 512 + 2"
  proof -
    have "(hi - 1) div 512 \<le> (lo + (hi - lo)) div 512" using assms(1) by (simp add: div_le_mono)
    also have "\<dots> \<le> lo div 512 + (hi - lo) div 512 + 1"
    proof -
      have "lo mod 512 < 512" "(hi - lo) mod 512 < 512" by simp_all
      then have "(lo mod 512 + (hi - lo) mod 512) div 512 < 2" by (intro less_mult_imp_div_less) linarith
      then show ?thesis by (simp only: div_add1_eq [of lo "hi - lo"])
    qed
    finally show ?thesis unfolding card_atLeastAtMost by linarith
  qed
  finally show ?thesis by (simp add: blocks_def new_area_pages [OF assms])
qed

lemma MapArea_new_pages:
  assumes "unat (va_bits s) = lo * 4096" and "unat (va_bits e) = hi * 4096" and "lo \<le> hi" and "hi \<le> 2 ^ 27"
  shows "MapArea_new s e mt mp = Inr (new_area lo hi mt mp)"
proof -
  have f: "va_floor s = VirtPageNum (of_nat lo)"
    using assms by (intro VirtPageNum_eqI) (simp add: unat_va_floor)
  have "unat (vpn_bits (va_ceil e)) = (hi * 4096 + 4095) div 4096"
    using assms by (subst unat_va_ceil) simp_all
  then have c: "va_ceil e = VirtPageNum (of_nat hi)"
    using assms by (intro VirtPageNum_eqI) simp
  have "VirtPageNum (of_nat lo) \<le> VirtPageNum (of_nat hi)"
    using assms by (simp add: less_eq_VirtPageNum_def word_le_nat_alt)
  then show ?thesis
    by (simp add: MapArea_new_def f c VPNRange_new_def new_area_def)
qed

end
