(* ===== verification/Kernel_Space.thy ===== *)
theory Kernel_Space
  imports Memory_Set
begin

text \<open>
  The kernel's own address space: \<open>MemorySet::new_kernel\<close> and the self-test \<open>remap_test\<close>.  The
  linker script (\<^verbatim>\<open>src/os/src/linker-qemu.ld\<close>) aligns every section to a page and places them one
  after the other; under this hypothesis the space is built whenever 31 frames are free, it is
  the identity on the sections and on the free memory, and no page of it is both writable and
  executable.
\<close>

subsection \<open>Pushing a page-aligned segment\<close>

lemma push_new_eq:
  assumes "unat (take_bit 39 s) = lo * 4096" and "unat (take_bit 39 e) = hi * 4096" and "lo \<le> hi" and "hi \<le> 2 ^ 27"
  shows "push_new s e mt mp x = push (new_area lo hi mt mp) None x"
  using MapArea_new_pages [of "VirtAddr_from s" lo "VirtAddr_from e" hi mt mp] assms by (simp add: push_new_def)

lemma push_new_ok:
  assumes b: "built st0 st ms" and s: "unat (take_bit 39 s) = lo * 4096" "unat (take_bit 39 e) = hi * 4096" "lo \<le> hi" "hi \<le> 2 ^ 27"
    and new: "\<forall>v \<in> pages lo hi. ms_lookup st ms v = None"
    and room: "cost mt (area_pages (new_area lo hi mt mp)) \<le> frames_left st"
  obtains ms' st' a' where "push_new s e mt mp (ms, st) = Inr (ms', st')"
    and "pushed st0 st ms (new_area lo hi mt mp) None st' ms' a'"
proof -
  note p = new_area_pages [OF s(3,4), of mt mp]
  have n: "\<forall>v \<in> set (area_pages (new_area lo hi mt mp)). ms_lookup st ms v = None" using new by (simp add: p(2))
  obtain ms' st' where r: "push (new_area lo hi mt mp) None (ms, st) = Inr (ms', st')"
    using push_total [OF b p(4) n] room by auto
  from push_pushed [OF b p(4) r] obtain a' where "pushed st0 st ms (new_area lo hi mt mp) None st' ms' a'" .
  with that r push_new_eq [OF s] show ?thesis by simp
qed

subsection \<open>The sections of the kernel\<close>

text \<open>The five segments in the order in which they are pushed.\<close>

definition kernel_segments :: "linker_symbols \<Rightarrow> (usize \<times> usize \<times> MapPermission) list" where
  "kernel_segments syms =
     [(stext syms, etext syms, MP_R OR MP_X), (srodata syms, erodata syms, MP_R), (sdata syms, edata syms, MP_R OR MP_W),
      (sbss_with_stack syms, ebss syms, MP_R OR MP_W), (ekernel syms, MEMORY_END, MP_R OR MP_W)]"

lemma new_kernel_segments:
  "new_kernel syms st =
     bind (new_bare st) (\<lambda>s. bind (map_trampoline syms s)
       (for_each (\<lambda>(a, b, mp). push_new a b Identical mp) (kernel_segments syms)))"
  by (simp add: new_kernel_def kernel_segments_def bind_assoc cong: bind_cong)

definition seg_lo :: "usize \<times> usize \<times> MapPermission \<Rightarrow> nat" where
  "seg_lo s = unat (fst s) div 4096"

definition seg_hi :: "usize \<times> usize \<times> MapPermission \<Rightarrow> nat" where
  "seg_hi s = unat (fst (snd s)) div 4096"

definition seg_pages :: "usize \<times> usize \<times> MapPermission \<Rightarrow> VirtPageNum set" where
  "seg_pages s = pages (seg_lo s) (seg_hi s)"

definition seg_ok :: "usize \<times> usize \<times> MapPermission \<Rightarrow> bool" where
  "seg_ok s \<longleftrightarrow> unat (fst s) mod 4096 = 0 \<and> unat (fst (snd s)) mod 4096 = 0 \<and> seg_lo s \<le> seg_hi s \<and> seg_hi s \<le> 0x80800"

text \<open>What the linker script promises of the symbols.\<close>

definition syms_ok :: "linker_symbols \<Rightarrow> bool" where
  "syms_ok syms \<longleftrightarrow> strampoline_ok syms \<and> 0x80000 \<le> seg_lo (hd (kernel_segments syms)) \<and>
     (\<forall>s \<in> set (kernel_segments syms). seg_ok s) \<and>
     sorted_wrt (\<lambda>s t. seg_hi s \<le> seg_lo t) (kernel_segments syms) \<and>
     stext syms < etext syms \<and> srodata syms < erodata syms \<and> sdata syms < edata syms"

definition seg_entry :: "(usize \<times> usize \<times> MapPermission) list \<Rightarrow> VirtPageNum \<Rightarrow> PageTableEntry option" where
  "seg_entry segs v =
     map_option (\<lambda>s. PageTableEntry_new (PhysPageNum (vpn_bits v)) (snd (snd s) OR PTE_V)) (find (\<lambda>s. v \<in> seg_pages s) segs)"

text \<open>The kernel space after the segments \<open>segs\<close>.\<close>

definition kernel_view :: "linker_symbols \<Rightarrow> mm_state \<Rightarrow> (usize \<times> usize \<times> MapPermission) list \<Rightarrow> MemorySet \<Rightarrow> mm_state \<Rightarrow> bool" where
  "kernel_view syms st0 segs ms st \<longleftrightarrow> built st0 st ms \<and>
     (\<forall>v. vpn_ok v \<longrightarrow> ms_lookup st ms v =
        (if v = trampoline_vpn then Some (trampoline_entry syms) else seg_entry segs v)) \<and>
     list_all2 (\<lambda>s a. same_header (new_area (seg_lo s) (seg_hi s) Identical (snd (snd s))) a) segs (areas ms) \<and>
     frames_left st0 \<le> frames_left st + 3 + 2 * (\<Sum>s\<leftarrow>segs. (seg_hi s - seg_lo s) div 512 + 2)"

lemma seg_entry_snoc:
  "seg_entry (segs @ [s]) v =
     (case seg_entry segs v of Some e \<Rightarrow> Some e
      | None \<Rightarrow> if v \<in> seg_pages s then Some (PageTableEntry_new (PhysPageNum (vpn_bits v)) (snd (snd s) OR PTE_V)) else None)"
  by (induction segs) (auto simp: seg_entry_def)

lemma take_bit_39_page:
  assumes "unat w mod 4096 = 0" and "unat w div 4096 \<le> 2 ^ 26"
  shows "unat (take_bit 39 w) = unat w div 4096 * 4096"
proof -
  have w: "unat w = unat w div 4096 * 4096" using div_mult_mod_eq [of "unat w" 4096] assms(1) by linarith
  have "unat w div 4096 * 4096 \<le> 2 ^ 26 * 4096" using assms(2) by (rule mult_le_mono1)
  also have "\<dots> < 2 ^ 39" by simp
  finally have "unat w < 2 ^ 39" using w by argo
  then show ?thesis using w by (simp add: take_bit_eq_self_if_less)
qed

lemma kernel_view_push:
  assumes v: "kernel_view syms st0 segs ms st" and ok: "seg_ok s" and asc: "\<forall>t \<in> set segs. seg_hi t \<le> seg_lo s"
    and room: "2 * ((seg_hi s - seg_lo s) div 512 + 2) \<le> frames_left st"
  shows "\<exists>ms' st'. (case s of (a, b, mp) \<Rightarrow> push_new a b Identical mp) (ms, st) = Inr (ms', st') \<and>
    kernel_view syms st0 (segs @ [s]) ms' st'"
proof -
  obtain a b mp where s: "s = (a, b, mp)" by (cases s)
  let ?lo = "seg_lo s" and ?hi = "seg_hi s"
  have lo: "?lo \<le> ?hi" "?hi \<le> 2 ^ 27" using ok by (auto simp: seg_ok_def)
  have ends: "unat (take_bit 39 a) = ?lo * 4096" "unat (take_bit 39 b) = ?hi * 4096"
    using take_bit_39_page [of a] take_bit_39_page [of b] ok s by (auto simp: seg_ok_def seg_lo_def seg_hi_def)
  have bl: "built st0 st ms" using v by (simp add: kernel_view_def)
  have none: "seg_entry segs w = None \<and> vpn_ok w \<and> w \<noteq> trampoline_vpn" if "w \<in> pages ?lo ?hi" for w
  proof -
    have w: "?lo \<le> unat (vpn_bits w)" "unat (vpn_bits w) < 0x80800" using that ok by (auto simp: pages_def seg_ok_def)
    then have "w \<notin> seg_pages t" if "t \<in> set segs" for t using asc that by (auto simp: seg_pages_def pages_def)
    then have "seg_entry segs w = None" by (auto simp: seg_entry_def find_None_iff)
    with w show ?thesis by (auto simp: vpn_ok_def trampoline_vpn_def)
  qed
  have look: "\<forall>w \<in> pages ?lo ?hi. ms_lookup st ms w = None"
    using v none by (auto simp: kernel_view_def)
  have c: "cost Identical (area_pages (new_area ?lo ?hi Identical mp)) \<le> 2 * ((?hi - ?lo) div 512 + 2)"
    using blocks_new_area [OF lo, of Identical mp] by (simp add: cost_def)
  then have "cost Identical (area_pages (new_area ?lo ?hi Identical mp)) \<le> frames_left st" using room by simp
  from push_new_ok [OF bl ends lo look this] obtain ms' st' a' where p: "push_new a b Identical mp (ms, st) = Inr (ms', st')"
    "pushed st0 st ms (new_area ?lo ?hi Identical mp) None st' ms' a'" .
  have entry: "area_entry a' w = PageTableEntry_new (PhysPageNum (vpn_bits w)) (mp OR PTE_V)" for w
    using p(2) by (simp add: pushed_def same_header_def area_entry_def area_ppn_def)
  have "kernel_view syms st0 (segs @ [s]) ms' st'"
    unfolding kernel_view_def
  proof (intro conjI allI impI)
    show "built st0 st' ms'" using p(2) by (simp add: pushed_def)
    show "list_all2 (\<lambda>s a. same_header (new_area (seg_lo s) (seg_hi s) Identical (snd (snd s))) a) (segs @ [s]) (areas ms')"
      using v p(2) by (simp add: kernel_view_def pushed_def s list_all2_appendI)
    show "frames_left st0 \<le> frames_left st' + 3 + 2 * (\<Sum>s\<leftarrow>segs @ [s]. (seg_hi s - seg_lo s) div 512 + 2)"
      using v c p(2) by (simp add: kernel_view_def pushed_def)
    fix w
    assume w: "vpn_ok w"
    have "ms_lookup st' ms' w = (if w \<in> pages ?lo ?hi then Some (area_entry a' w) else ms_lookup st ms w)"
      using p(2) w by (simp add: pushed_def new_area_pages [OF lo])
    then show "ms_lookup st' ms' w = (if w = trampoline_vpn then Some (trampoline_entry syms) else seg_entry (segs @ [s]) w)"
      using v w none entry by (auto simp: kernel_view_def seg_entry_snoc seg_pages_def s split: option.splits)
  qed
  with p(1) show ?thesis by (auto simp: s)
qed

text \<open>The segments have at most 14 blocks together.\<close>

lemma segments_blocks:
  assumes "syms_ok syms"
  shows "(\<Sum>s\<leftarrow>kernel_segments syms. (seg_hi s - seg_lo s) div 512 + 2) \<le> 14"
proof -
  obtain s1 s2 s3 s4 s5 where segs: "kernel_segments syms = [s1, s2, s3, s4, s5]" by (simp add: kernel_segments_def)
  have le: "seg_lo s1 \<le> seg_hi s1" "seg_hi s1 \<le> seg_lo s2" "seg_lo s2 \<le> seg_hi s2" "seg_hi s2 \<le> seg_lo s3"
    "seg_lo s3 \<le> seg_hi s3" "seg_hi s3 \<le> seg_lo s4" "seg_lo s4 \<le> seg_hi s4" "seg_hi s4 \<le> seg_lo s5"
    "seg_lo s5 \<le> seg_hi s5" "seg_hi s5 \<le> 0x80800" "0x80000 \<le> seg_lo s1"
    using assms by (simp_all add: syms_ok_def segs seg_ok_def)
  define x where "x s = seg_hi s - seg_lo s" for s
  define q where "q s = x s div 512" for s
  have x: "seg_hi s = seg_lo s + x s" if "s \<in> set [s1, s2, s3, s4, s5]" for s
    using that le by (auto simp: x_def)
  have d: "512 * q s \<le> x s" for s
    unfolding q_def by (rule times_div_less_eq_dividend)
  have "seg_lo s1 + (x s1 + x s2 + x s3 + x s4 + x s5) \<le> seg_hi s5"
    using le x [of s1, simplified] x [of s2, simplified] x [of s3, simplified] x [of s4, simplified] x [of s5, simplified]
    by linarith
  then have "x s1 + x s2 + x s3 + x s4 + x s5 \<le> 2048" using le by linarith
  then have "q s1 + q s2 + q s3 + q s4 + q s5 \<le> 4" 
    using d [of s1] d [of s2] d [of s3] d [of s4] d [of s5] by linarith
  then show ?thesis by (simp add: segs flip: x_def q_def)
qed

lemma new_kernel_view:
  assumes "syms_ok syms" and "mm_inv st0" and "31 \<le> frames_left st0"
  shows "\<exists>ms st. new_kernel syms st0 = Inr (ms, st) \<and> kernel_view syms st0 (kernel_segments syms) ms st"
proof -
  let ?segs = "kernel_segments syms"
  obtain ms1 st1 where n: "new_bare st0 = Inr (ms1, st1)" using new_bare_total [OF assms(2)] assms(3) by auto
  note nb = new_bare_built [OF assms(2) n]
  have i1: "ms_inv st1 ms1" using nb(1) by (simp add: built_def)
  have "2 \<le> frames_left st1" "strampoline_ok syms" using nb(4) assms(1,3) by (auto simp: syms_ok_def)
  then obtain ms2 st2 where t: "map_trampoline syms (ms1, st1) = Inr (ms2, st2)"
    using map_trampoline_total [OF i1 nb(3)] by blast
  note tr = map_trampoline_built [OF nb(1) t]
  have "\<exists>t. for_each (\<lambda>(a, b, mp). push_new a b Identical mp) ?segs (ms2, st2) = Inr t \<and>
      (case t of (ms, st) \<Rightarrow> kernel_view syms st0 ?segs ms st)"
  proof (rule for_each_total [where I = "\<lambda>segs (ms, st). kernel_view syms st0 segs ms st"])
    show "case (ms2, st2) of (ms, st) \<Rightarrow> kernel_view syms st0 [] ms st"
      using tr nb by (auto simp: kernel_view_def seg_entry_def)
    fix segs s rest x
    assume split: "?segs = segs @ s # rest" and x: "case x of (ms, st) \<Rightarrow> kernel_view syms st0 segs ms st"
    obtain ms st where ms: "x = (ms, st)" by fastforce
    with x have v: "kernel_view syms st0 segs ms st" by simp
    have "seg_ok s" "\<forall>t \<in> set segs. seg_hi t \<le> seg_lo s"
      using assms(1) split by (auto simp: syms_ok_def sorted_wrt_append)
    moreover have "(\<Sum>s\<leftarrow>segs. (seg_hi s - seg_lo s) div 512 + 2) + ((seg_hi s - seg_lo s) div 512 + 2) \<le> 14"
      using segments_blocks [OF assms(1)] by (simp add: split)
    then have "2 * ((seg_hi s - seg_lo s) div 512 + 2) \<le> frames_left st"
    proof -
      define n where "n = (\<Sum>s\<leftarrow>segs. (seg_hi s - seg_lo s) div 512 + 2)"
      define k where "k = (seg_hi s - seg_lo s) div 512 + 2"
      assume "(\<Sum>s\<leftarrow>segs. (seg_hi s - seg_lo s) div 512 + 2) + ((seg_hi s - seg_lo s) div 512 + 2) \<le> 14"
      then have "n + k \<le> 14" by (simp only: n_def k_def)
      moreover have "frames_left st0 \<le> frames_left st + 3 + 2 * n" using v by (simp add: kernel_view_def n_def)
      ultimately have "2 * k \<le> frames_left st" using assms(3) by linarith
      then show ?thesis by (simp only: k_def)
    qed
    ultimately show "\<exists>t. (case s of (a, b, mp) \<Rightarrow> push_new a b Identical mp) x = Inr t \<and>
        (case t of (ms, st) \<Rightarrow> kernel_view syms st0 (segs @ [s]) ms st)"
      using kernel_view_push [OF v] ms by fastforce
  qed
  with n t show ?thesis by (auto simp: new_kernel_segments)
qed

subsection \<open>Permissions\<close>

lemmas MP_defs = MP_R_def MP_W_def MP_X_def MP_U_def

lemma perm_of_entry:
  "writable (PageTableEntry_new p f) \<longleftrightarrow> f AND PTE_W \<noteq> 0" "executable (PageTableEntry_new p f) \<longleftrightarrow> f AND PTE_X \<noteq> 0"
  "readable (PageTableEntry_new p f) \<longleftrightarrow> f AND PTE_R \<noteq> 0"
  by (simp_all add: writable_def executable_def readable_def pte_flags_new)

lemma kernel_entry_perms:
  assumes "seg_entry (kernel_segments syms) v = Some e"
  shows "\<not> (writable e \<and> executable e)" and "pte_flags e AND PTE_U = 0"
proof -
  obtain s where "s \<in> set (kernel_segments syms)" and e: "e = PageTableEntry_new (PhysPageNum (vpn_bits v)) (snd (snd s) OR PTE_V)"
    using assms by (auto simp: seg_entry_def find_Some_iff) (metis nth_mem)
  then have "snd (snd s) \<in> {MP_R OR MP_X, MP_R, MP_R OR MP_W}"
    by (auto simp: kernel_segments_def)
  then show "\<not> (writable e \<and> executable e)" and "pte_flags e AND PTE_U = 0"
    by (auto simp: e perm_of_entry pte_flags_new PTE_defs MP_defs)
qed

lemma seg_entry_in:
  assumes "syms_ok syms" and "s \<in> set (kernel_segments syms)" and "v \<in> seg_pages s"
  shows "seg_entry (kernel_segments syms) v = Some (PageTableEntry_new (PhysPageNum (vpn_bits v)) (snd (snd s) OR PTE_V))"
proof -
  obtain xs ys where split: "kernel_segments syms = xs @ s # ys" using assms(2) by (meson split_list)
  have "v \<notin> seg_pages t" if "t \<in> set xs" for t
    using assms(1,3) that by (fastforce simp: syms_ok_def split sorted_wrt_append seg_pages_def pages_def)
  then have "find (\<lambda>s. v \<in> seg_pages s) (xs @ s # ys) = Some s"
    using assms(3) by (induction xs) auto
  then show ?thesis by (simp add: seg_entry_def split)
qed

lemma middle_page:
  assumes "a < b" and "unat a mod 4096 = 0" and "unat b mod 4096 = 0" and "unat b div 4096 \<le> 0x80800"
  shows "va_floor (VirtAddr_from ((a + b) div 2)) \<in> pages (unat a div 4096) (unat b div 4096)"
proof -
  have b: "unat b = unat b div 4096 * 4096" using div_mult_mod_eq [of "unat b" 4096] assms(3) by linarith
  then have small: "unat b \<le> 0x80800000" using assms(4) by linarith
  have ab: "unat a < unat b" using assms(1) by (simp add: word_less_nat_alt)
  have "unat (a + b) = unat a + unat b" using small ab by (intro unat_add_less) simp
  then have m: "unat ((a + b) div 2) = (unat a + unat b) div 2" by (simp add: unat_div)
  have mid: "unat a \<le> (unat a + unat b) div 2" "(unat a + unat b) div 2 < unat b" using ab by auto
  then have "unat (vpn_bits (va_floor (VirtAddr_from ((a + b) div 2)))) = (unat a + unat b) div 2 div 4096"
    using m small by (simp add: unat_va_floor unat_take_bit)
  moreover have "unat a div 4096 \<le> (unat a + unat b) div 2 div 4096" using mid(1) by (rule div_le_mono)
  moreover have "(unat a + unat b) div 2 div 4096 < unat b div 4096"
    using mid(2) b by (metis less_mult_imp_div_less)
  ultimately show ?thesis by (simp add: pages_def)
qed

text \<open>The symbols of a kernel image, for the witnesses.\<close>

definition ex_syms :: linker_symbols where
  "ex_syms = \<lparr>stext = 0x80200000, etext = 0x80210000, srodata = 0x80210000, erodata = 0x80214000, sdata = 0x80214000,
     edata = 0x80218000, sbss_with_stack = 0x80218000, ebss = 0x80400000, ekernel = 0x80400000, strampoline = 0x80201000\<rparr>"

lemma ex_syms_ok: "syms_ok ex_syms"
  unfolding syms_ok_def
proof (intro conjI)
  show "strampoline_ok ex_syms"
    by (simp add: strampoline_ok_def pa_aligned_def ex_syms_def)
qed (simp_all add: kernel_segments_def ex_syms_def seg_lo_def seg_hi_def seg_ok_def)

subsection \<open>Properties\<close>

text \<open>
  C28: the kernel space.  With the sections as the linker script places them and 31 free frames,
  \<open>new_kernel\<close> succeeds; the space maps exactly the trampoline and the five segments, each page
  of a segment to the frame of the same number with the permissions of the segment; no page is
  both writable and executable, and none is accessible to user code.
\<close>

theorem new_kernel_identity:
  assumes "syms_ok syms" and "mm_inv st0" and "31 \<le> frames_left st0"
  shows "\<exists>ms st. new_kernel syms st0 = Inr (ms, st) \<and> built st0 st ms \<and>
    (\<forall>v. vpn_ok v \<longrightarrow> ms_lookup st ms v =
      (if v = trampoline_vpn then Some (trampoline_entry syms) else seg_entry (kernel_segments syms) v)) \<and>
    (\<forall>v e. vpn_ok v \<longrightarrow> ms_lookup st ms v = Some e \<longrightarrow> \<not> (writable e \<and> executable e) \<and> pte_flags e AND PTE_U = 0)"
proof -
  obtain ms st where k: "new_kernel syms st0 = Inr (ms, st)" and v: "kernel_view syms st0 (kernel_segments syms) ms st"
    using new_kernel_view [OF assms] by blast
  have "\<not> writable (trampoline_entry syms)" "pte_flags (trampoline_entry syms) AND PTE_U = 0"
    by (simp_all add: trampoline_entry_def perm_of_entry pte_flags_new PTE_defs)
  then have "\<not> (writable e \<and> executable e) \<and> pte_flags e AND PTE_U = 0" if "vpn_ok v" "ms_lookup st ms v = Some e" for v e
    using v that kernel_entry_perms by (auto simp: kernel_view_def split: if_splits)
  with k v show ?thesis by (auto simp: kernel_view_def)
qed

theorem new_kernel_identity_witness:
  "syms_ok ex_syms \<and> mm_inv ex_mm \<and> 31 \<le> frames_left ex_mm \<and>
   (\<exists>ms st. new_kernel ex_syms ex_mm = Inr (ms, st) \<and>
      ms_lookup st ms (VirtPageNum 0x80215) = seg_entry (kernel_segments ex_syms) (VirtPageNum 0x80215))"
proof -
  have left: "31 \<le> frames_left ex_mm" by (simp add: ex_mm_left)
  have "vpn_ok (VirtPageNum 0x80215)" "VirtPageNum 0x80215 \<noteq> trampoline_vpn"
    by (simp_all add: vpn_ok_def trampoline_vpn_def)
  with new_kernel_identity [OF ex_syms_ok ex_mm_inv left] ex_syms_ok ex_mm_inv left show ?thesis by fastforce
qed

text \<open>
  The self-test \<open>remap_test\<close> passes on the kernel space: the middle of the text and of the
  read-only data is not writable, the middle of the data is not executable.
\<close>

lemma remap_test_ok:
  assumes "syms_ok syms" and "mm_inv st0" and "31 \<le> frames_left st0" and "new_kernel syms st0 = Inr (ms, st)"
  shows "remap_test syms ms (mm_mem st) = Inr ()"
proof -
  have v: "kernel_view syms st0 (kernel_segments syms) ms st"
    using new_kernel_view [OF assms(1-3)] assms(4) by auto
  have tr: "translate (mm_mem st) (page_table ms) w = Some (PageTableEntry_new (PhysPageNum (vpn_bits w)) (mp OR PTE_V))"
    if "(a, b, mp) \<in> set (kernel_segments syms)" "a < b" "w = va_floor (VirtAddr_from ((a + b) div 2))" for a b mp w
  proof -
    have ok: "seg_ok (a, b, mp)" using assms(1) that(1) by (auto simp: syms_ok_def)
    have w: "w \<in> seg_pages (a, b, mp)"
      unfolding that(3) seg_pages_def seg_lo_def seg_hi_def fst_conv snd_conv
      by (rule middle_page) (use that(2) ok in \<open>auto simp: seg_ok_def seg_hi_def\<close>)
    then have "unat (vpn_bits w) < 0x80800" using ok by (auto simp: seg_pages_def pages_def seg_ok_def)
    then have "vpn_ok w" "w \<noteq> trampoline_vpn" by (auto simp: vpn_ok_def trampoline_vpn_def)
    then show ?thesis
      using v seg_entry_in [OF assms(1) that(1) w] by (intro translate_mapped) (simp add: kernel_view_def)
  qed
  have lt: "stext syms < etext syms" "srodata syms < erodata syms" "sdata syms < edata syms"
    using assms(1) by (auto simp: syms_ok_def)
  have seg: "(stext syms, etext syms, MP_R OR MP_X) \<in> set (kernel_segments syms)"
    "(srodata syms, erodata syms, MP_R) \<in> set (kernel_segments syms)"
    "(sdata syms, edata syms, MP_R OR MP_W) \<in> set (kernel_segments syms)"
    by (simp_all add: kernel_segments_def)
  show ?thesis
    unfolding remap_test_def Let_def tr [OF seg(1) lt(1) refl] tr [OF seg(2) lt(2) refl] tr [OF seg(3) lt(3) refl]
    by (simp add: perm_of_entry PTE_defs MP_defs)
qed

end
