(* ===== verification/User_Space.thy ===== *)
theory User_Space
  imports Kernel_Space
begin

text \<open>
  The address spaces of user processes: loading an ELF file (\<open>from_elf\<close>), the copy made by
  \<open>fork\<close> (\<open>from_existed_user\<close>), and giving a space back.  The hypotheses on the file are those
  of the ELF format: loadable headers in ascending order, no more file bytes than memory bytes,
  and file ranges inside the file.
\<close>

subsection \<open>Loadable headers\<close>

definition ph_lo :: "program_header \<Rightarrow> nat" where
  "ph_lo ph = unat (ph_virtual_addr ph) div 4096"

definition ph_hi :: "program_header \<Rightarrow> nat" where
  "ph_hi ph = (unat (ph_virtual_addr ph) + unat (ph_mem_size ph) + 4095) div 4096"

definition ph_data :: "elf_file \<Rightarrow> program_header \<Rightarrow> u8 list" where
  "ph_data elf ph = take (unat (ph_file_size ph)) (drop (unat (ph_offset ph)) (elf_input elf))"

definition ph_area :: "program_header \<Rightarrow> MapArea" where
  "ph_area ph = new_area (ph_lo ph) (ph_hi ph) Framed (segment_perm ph)"

text \<open>Six pages are left above a segment: guard, stack, trap context and trampoline.\<close>

definition ph_ok :: "elf_file \<Rightarrow> program_header \<Rightarrow> bool" where
  "ph_ok elf ph \<longleftrightarrow> 0 < unat (ph_mem_size ph) \<and> unat (ph_virtual_addr ph) + unat (ph_mem_size ph) \<le> 2 ^ 39 - 0x6000 \<and>
     unat (ph_file_size ph) \<le> unat (ph_mem_size ph) \<and>
     unat (ph_offset ph) + unat (ph_file_size ph) \<le> length (elf_input elf) \<and> length (elf_input elf) < 2 ^ 64"

text \<open>The loadable headers among the first \<open>n\<close>.\<close>

definition loads :: "elf_file \<Rightarrow> nat \<Rightarrow> program_header list" where
  "loads elf n = filter (\<lambda>ph. ph_get_type ph = Some Load) (map (\<lambda>i. the (elf_program_header elf i)) [0..<n])"

definition elf_ok :: "elf_file \<Rightarrow> bool" where
  "elf_ok elf \<longleftrightarrow> elf_magic elf = [0x7f, 0x45, 0x4c, 0x46] \<and>
     (\<forall>i < elf_ph_count elf. \<exists>ph. elf_program_header elf i = Some ph \<and> ph_get_type ph \<noteq> None) \<and>
     (\<forall>ph \<in> set (loads elf (elf_ph_count elf)). ph_ok elf ph) \<and>
     sorted_wrt (\<lambda>p q. ph_hi p \<le> ph_lo q) (loads elf (elf_ph_count elf))"

definition load_cost :: "program_header list \<Rightarrow> nat" where
  "load_cost phs = (\<Sum>ph\<leftarrow>phs. cost Framed (area_pages (ph_area ph)))"

text \<open>The first page after the last loaded segment.\<close>

definition load_end :: "program_header list \<Rightarrow> nat" where
  "load_end phs = (if phs = [] then 0 else ph_hi (last phs))"

lemma loads_Suc:
  "loads elf (Suc n) = loads elf n @ (if ph_get_type (the (elf_program_header elf n)) = Some Load
     then [the (elf_program_header elf n)] else [])"
  by (simp add: loads_def)

lemma loads_prefix: "n \<le> k \<Longrightarrow> \<exists>ys. loads elf k = loads elf n @ ys"
  unfolding loads_def by (metis filter_append le_add_diff_inverse map_append upt_add_eq_append zero_le)

lemma ph_ok_pages:
  assumes "ph_ok elf ph"
  shows "ph_lo ph < ph_hi ph" and "ph_hi ph \<le> 2 ^ 27 - 6" and "length (ph_data elf ph) \<le> 4096 * (ph_hi ph - ph_lo ph)"
proof -
  let ?v = "unat (ph_virtual_addr ph)" and ?m = "unat (ph_mem_size ph)"
  have m: "0 < ?m" "?v + ?m \<le> 2 ^ 39 - 0x6000" "unat (ph_file_size ph) \<le> ?m" using assms by (auto simp: ph_ok_def)
  have lo: "ph_lo ph * 4096 \<le> ?v" by (simp add: ph_lo_def)
  have "(?v + ?m + 4095) = ph_hi ph * 4096 + (?v + ?m + 4095) mod 4096" by (simp add: ph_hi_def)
  moreover have "(?v + ?m + 4095) mod 4096 < 4096" by simp
  ultimately have hi: "?v + ?m \<le> ph_hi ph * 4096" by linarith
  show lt: "ph_lo ph < ph_hi ph" using lo hi m(1) by linarith
  have "ph_hi ph \<le> (2 ^ 39 - 0x6000 + 4095) div 4096"
    unfolding ph_hi_def using m(2) by (intro div_le_mono) linarith
  also have "\<dots> = 2 ^ 27 - 6" by simp
  finally show "ph_hi ph \<le> 2 ^ 27 - 6" .
  have "unat (ph_file_size ph) \<le> ph_hi ph * 4096 - ph_lo ph * 4096" using lo hi m(3) by linarith
  then show "length (ph_data elf ph) \<le> 4096 * (ph_hi ph - ph_lo ph)"
    by (simp add: ph_data_def diff_mult_distrib mult.commute)
qed

lemma ph_area_pages:
  assumes "ph_ok elf ph"
  shows "set (area_pages (ph_area ph)) = pages (ph_lo ph) (ph_hi ph)" and "length (area_pages (ph_area ph)) = ph_hi ph - ph_lo ph"
    and "pushable (ph_area ph) (Some (ph_data elf ph))" and "map_type (ph_area ph) = Framed" and "map_perm (ph_area ph) = segment_perm ph"
    and "get_end (vpn_range (ph_area ph)) = VirtPageNum (of_nat (ph_hi ph))"
proof -
  note b = ph_ok_pages [OF assms]
  have le: "ph_lo ph \<le> ph_hi ph" "ph_hi ph \<le> 2 ^ 27" using b by linarith+
  note n = new_area_pages [OF le, of Framed "segment_perm ph", folded ph_area_def]
  show "set (area_pages (ph_area ph)) = pages (ph_lo ph) (ph_hi ph)" "length (area_pages (ph_area ph)) = ph_hi ph - ph_lo ph"
    using n by auto
  then have "area_pages (ph_area ph) \<noteq> []" using b(1) by auto
  then show "pushable (ph_area ph) (Some (ph_data elf ph))"
    using n b(3) by (simp add: pushable_def data_bytes_def) (simp add: ph_area_def)
  show "map_type (ph_area ph) = Framed" "map_perm (ph_area ph) = segment_perm ph"
    "get_end (vpn_range (ph_area ph)) = VirtPageNum (of_nat (ph_hi ph))"
    by (simp_all add: ph_area_def)
qed

text \<open>One loadable header is pushed as its segment with its bytes.\<close>

lemma load_segment_Load:
  assumes "elf_program_header elf i = Some ph" and "ph_get_type ph = Some Load" and ok: "ph_ok elf ph"
  shows "load_segment elf i (me, s) =
    bind (push (ph_area ph) (Some (ph_data elf ph)) s) (\<lambda>s. Inr (VirtPageNum (of_nat (ph_hi ph)), s))"
proof -
  let ?v = "ph_virtual_addr ph" and ?m = "ph_mem_size ph" and ?o = "ph_offset ph" and ?f = "ph_file_size ph"
  have m: "unat ?v + unat ?m \<le> 2 ^ 39 - 0x6000" "unat ?o + unat ?f \<le> length (elf_input elf)" "length (elf_input elf) < 2 ^ 64"
    using ok by (auto simp: ph_ok_def)
  note b = ph_ok_pages [OF ok]
  have vm: "unat (?v + ?m) = unat ?v + unat ?m" using m(1) by (intro unat_add_less) simp
  have of': "unat (?o + ?f) = unat ?o + unat ?f" using m(2,3) by (intro unat_add_less) simp
  have s: "unat (va_bits (VirtAddr_from ?v)) = unat ?v" "unat (va_bits (VirtAddr_from (?v + ?m))) = unat ?v + unat ?m"
    using m(1) vm by (simp_all add: unat_take_bit)
  have small: "unat (of_nat (ph_lo ph) :: usize) = ph_lo ph" "unat (of_nat (ph_hi ph) :: usize) = ph_hi ph"
    using b by auto
  have "unat (vpn_bits (va_floor (VirtAddr_from ?v))) = ph_lo ph"
    unfolding unat_va_floor s ph_lo_def ..
  then have "va_floor (VirtAddr_from ?v) = VirtPageNum (of_nat (ph_lo ph))"
    using small by (intro VirtPageNum_eqI) simp
  moreover have "unat (vpn_bits (va_ceil (VirtAddr_from (?v + ?m)))) = ph_hi ph"
    unfolding ph_hi_def s(2) [symmetric] by (rule unat_va_ceil) (simp only: s(2), use m(1) in simp)
  then have "va_ceil (VirtAddr_from (?v + ?m)) = VirtPageNum (of_nat (ph_hi ph))"
    using small by (intro VirtPageNum_eqI) simp
  moreover have "VirtPageNum (of_nat (ph_lo ph)) \<le> VirtPageNum (of_nat (ph_hi ph))"
    using b by (simp add: less_eq_VirtPageNum_def word_le_nat_alt)
  ultimately have a: "MapArea_new (VirtAddr_from ?v) (VirtAddr_from (?v + ?m)) Framed (segment_perm ph) = Inr (ph_area ph)"
    by (simp add: MapArea_new_def VPNRange_new_def ph_area_def new_area_def)
  have "bytes_range (elf_input elf) ?o (?o + ?f) = Inr (ph_data elf ph)"
    using m(2) of' by (simp add: bytes_range_def word_le_nat_alt ph_data_def)
  with a ph_area_pages(6) [OF ok] assms(1,2) show ?thesis
    by (simp add: load_segment_def Let_def)
qed

subsection \<open>The loop over the headers\<close>

lemma area_bytes_keep:
  assumes "user_space st ms" and "a \<in> set (areas ms)" and "same_outside P (mm_mem st) (mm_mem st')" and "P \<inter> ms_data ms = {}"
  shows "area_bytes st' a = area_bytes st a"
proof -
  have "page_bytes (mm_mem st') (area_ppn a v) = page_bytes (mm_mem st) (area_ppn a v)" if "v \<in> set (area_pages a)" for v
    using user_data_page [OF assms(1,2) that] assms(4) by (intro page_bytes_same_outside [OF assms(3)]) auto
  then have "map (\<lambda>v. page_bytes (mm_mem st') (area_ppn a v)) (area_pages a) = map (\<lambda>v. page_bytes (mm_mem st) (area_ppn a v)) (area_pages a)"
    by (simp cong: map_cong)
  then show ?thesis by (simp only: area_bytes_def)
qed

text \<open>A segment of the space is the one of the header, with its bytes and zeros after them.\<close>

definition loaded :: "elf_file \<Rightarrow> mm_state \<Rightarrow> program_header \<Rightarrow> MapArea \<Rightarrow> bool" where
  "loaded elf st ph a \<longleftrightarrow> same_header (ph_area ph) a \<and>
     area_bytes st a = ph_data elf ph @ replicate (4096 * (ph_hi ph - ph_lo ph) - length (ph_data elf ph)) 0"

definition elf_view :: "linker_symbols \<Rightarrow> elf_file \<Rightarrow> mm_state \<Rightarrow> program_header list \<Rightarrow> VirtPageNum \<Rightarrow> MemorySet \<Rightarrow> mm_state \<Rightarrow> bool" where
  "elf_view syms elf st0 phs me ms st \<longleftrightarrow> built st0 st ms \<and> me = VirtPageNum (of_nat (load_end phs)) \<and>
     list_all2 (loaded elf st) phs (areas ms) \<and> ms_lookup st ms trampoline_vpn = Some (trampoline_entry syms) \<and>
     (\<forall>w. vpn_ok w \<longrightarrow> w \<noteq> trampoline_vpn \<longrightarrow> load_end phs \<le> unat (vpn_bits w) \<longrightarrow> ms_lookup st ms w = None) \<and>
     frames_left st0 \<le> frames_left st + 3 + load_cost phs"

lemma loaded_Framed: "list_all2 (loaded elf st) phs as \<Longrightarrow> \<forall>a \<in> set as. map_type a = Framed"
  by (induction rule: list_all2_induct) (auto simp: loaded_def same_header_def ph_area_def)

text \<open>Pushing one more framed segment keeps what is loaded.\<close>

lemma loaded_pushed:
  assumes b: "built st0 st ms" and l: "list_all2 (loaded elf st) phs as" and fr: "\<forall>a \<in> set (areas ms). map_type a = Framed"
    and sub: "set as \<subseteq> set (areas ms)" and p: "pushed st0 st ms a data st' ms' a'"
  shows "list_all2 (loaded elf st') phs as"
proof -
  have u: "user_space st ms" using b fr by (simp add: built_def user_space_def)
  let ?P = "frames_of (page_table ms) \<union> (in_use st' - in_use st)"
  have out: "same_outside ?P (mm_mem st) (mm_mem st')" using p by (simp add: pushed_def)
  have dis: "?P \<inter> ms_data ms = {}" using u by (auto simp: user_space_def ms_inv_def)
  have "area_bytes st' x = area_bytes st x" if "x \<in> set as" for x
    using area_bytes_keep [OF u _ out dis] sub that by blast
  with l show ?thesis
    by (auto simp: loaded_def list_all2_conv_all_nth)
qed

lemma elf_view_load:
  assumes v: "elf_view syms elf st0 phs me ms st" and ok: "ph_ok elf ph" and asc: "\<forall>q \<in> set phs. ph_hi q \<le> ph_lo ph"
    and room: "cost Framed (area_pages (ph_area ph)) \<le> frames_left st"
  shows "\<exists>ms' st'. push (ph_area ph) (Some (ph_data elf ph)) (ms, st) = Inr (ms', st') \<and>
    elf_view syms elf st0 (phs @ [ph]) (VirtPageNum (of_nat (ph_hi ph))) ms' st'"
proof -
  have b: "built st0 st ms" and l: "list_all2 (loaded elf st) phs (areas ms)" using v by (auto simp: elf_view_def)
  note pg = ph_area_pages [OF ok] and bd = ph_ok_pages [OF ok]
  have le: "load_end phs \<le> ph_lo ph" using asc by (simp add: load_end_def)
  have w: "vpn_ok w \<and> w \<noteq> trampoline_vpn \<and> load_end phs \<le> unat (vpn_bits w)" if "w \<in> set (area_pages (ph_area ph))" for w
  proof -
    have "ph_lo ph \<le> unat (vpn_bits w)" "unat (vpn_bits w) < 2 ^ 27 - 6" using that pg(1) bd(2) by (auto simp: pages_def)
    then show ?thesis using le by (auto simp: vpn_ok_def trampoline_vpn_def)
  qed
  then have none: "\<forall>w \<in> set (area_pages (ph_area ph)). ms_lookup st ms w = None" using v by (auto simp: elf_view_def)
  obtain ms' st' where r: "push (ph_area ph) (Some (ph_data elf ph)) (ms, st) = Inr (ms', st')"
    using push_total [OF b pg(3) none] room by (auto simp: pg(4))
  from push_pushed [OF b pg(3) r] obtain a' where p: "pushed st0 st ms (ph_area ph) (Some (ph_data elf ph)) st' ms' a'" .
  have ar: "areas ms' = areas ms @ [a']" using p by (simp add: pushed_def)
  have "list_all2 (loaded elf st') phs (areas ms)"
    using loaded_pushed [OF b l loaded_Framed [OF l] _ p] by simp
  moreover have "loaded elf st' ph a'"
    using p pg by (auto simp: pushed_def loaded_def data_bytes_def)
  moreover have "ms_lookup st' ms' x = (if x \<in> pages (ph_lo ph) (ph_hi ph) then Some (area_entry a' x) else ms_lookup st ms x)" if "vpn_ok x" for x
    using p that by (simp add: pushed_def pg(1))
  moreover have "trampoline_vpn \<notin> pages (ph_lo ph) (ph_hi ph)" using w pg(1) by blast
  ultimately have "elf_view syms elf st0 (phs @ [ph]) (VirtPageNum (of_nat (ph_hi ph))) ms' st'"
    using v p le bd(1) pg(4)
    by (auto simp: elf_view_def pushed_def ar load_end_def load_cost_def pages_def list_all2_appendI)
  with r show ?thesis by blast
qed

lemma load_segments_ok:
  assumes "elf_ok elf" and v: "elf_view syms elf st0 [] (VirtPageNum 0) ms st"
    and room: "3 + load_cost (loads elf (elf_ph_count elf)) \<le> frames_left st0"
  shows "\<exists>t. for_each (load_segment elf) [0..<elf_ph_count elf] (VirtPageNum 0, ms, st) = Inr t \<and>
    (case t of (me, ms, st) \<Rightarrow> elf_view syms elf st0 (loads elf (elf_ph_count elf)) me ms st)"
proof -
  let ?n = "elf_ph_count elf"
  have "\<exists>t. for_each (load_segment elf) [0..<?n] (VirtPageNum 0, ms, st) = Inr t \<and>
    (case t of (me, ms, st) \<Rightarrow> elf_view syms elf st0 (loads elf (length [0..<?n])) me ms st)"
  proof (rule for_each_total [where I = "\<lambda>is (me, ms, st). elf_view syms elf st0 (loads elf (length is)) me ms st"])
    show "case (VirtPageNum 0, ms, st) of (me, ms, st) \<Rightarrow> elf_view syms elf st0 (loads elf (length [])) me ms st"
      using v by (simp add: loads_def)
    fix is' i rest s
    assume split: "[0..<?n] = is' @ i # rest" and s: "case s of (me, ms, st) \<Rightarrow> elf_view syms elf st0 (loads elf (length is')) me ms st"
    have i: "i = length is'" "length is' < ?n"
    proof -
      have "length [0..<?n] = length is' + Suc (length rest)" using split by simp
      then show "length is' < ?n" by simp
      have "[0..<?n] ! length is' = i" using split by (simp add: nth_append)
      then show "i = length is'" using \<open>length is' < ?n\<close> by simp
    qed
    obtain me ms1 st1 where s': "s = (me, ms1, st1)" by (cases s)
    with s i have v1: "elf_view syms elf st0 (loads elf i) me ms1 st1" by simp
    obtain ph where ph: "elf_program_header elf i = Some ph" "ph_get_type ph \<noteq> None"
      using assms(1) i by (auto simp: elf_ok_def)
    show "\<exists>t. load_segment elf i s = Inr t \<and> (case t of (me, ms, st) \<Rightarrow> elf_view syms elf st0 (loads elf (length (is' @ [i]))) me ms st)"
    proof (cases "ph_get_type ph = Some Load")
      case True
      have suc: "loads elf (Suc i) = loads elf i @ [ph]" using ph True by (simp add: loads_Suc)
      obtain ys where ys: "loads elf ?n = (loads elf i @ [ph]) @ ys" using loads_prefix [of "Suc i" ?n elf] i suc by auto
      have ok: "ph_ok elf ph" and asc: "\<forall>q \<in> set (loads elf i). ph_hi q \<le> ph_lo ph"
        using assms(1) unfolding elf_ok_def ys by (auto simp: sorted_wrt_append)
      have "cost Framed (area_pages (ph_area ph)) \<le> frames_left st1"
        using v1 room unfolding elf_view_def ys load_cost_def by simp
      then obtain ms2 st2 where "push (ph_area ph) (Some (ph_data elf ph)) (ms1, st1) = Inr (ms2, st2)"
        "elf_view syms elf st0 (loads elf i @ [ph]) (VirtPageNum (of_nat (ph_hi ph))) ms2 st2"
        using elf_view_load [OF v1 ok asc] by blast
      then show ?thesis using load_segment_Load [OF ph(1) True ok] suc i s' by (simp add: suc)
    next
      case False
      then have "load_segment elf i s = Inr s" using ph s' by (auto simp: load_segment_def)
      moreover have "loads elf (Suc i) = loads elf i" using ph False by (simp add: loads_Suc)
      ultimately show ?thesis using v1 s' i by simp
    qed
  qed
  then show ?thesis by simp
qed

subsection \<open>The whole of \<open>from_elf\<close>\<close>

text \<open>The segments of the user stack above page \<open>n\<close> and of the trap context.\<close>

definition stack_area :: "nat \<Rightarrow> MapArea" where
  "stack_area n = new_area (n + 1) (n + 3) Framed (MP_R OR MP_W OR MP_U)"

definition trap_area :: MapArea where
  "trap_area = new_area 0x7fffffe 0x7ffffff Framed (MP_R OR MP_W)"

definition trap_vpn :: VirtPageNum where
  "trap_vpn = VirtPageNum 0x7fffffe"

lemma load_end_bound:
  assumes "elf_ok elf"
  shows "load_end (loads elf (elf_ph_count elf)) \<le> 2 ^ 27 - 6"
proof (cases "loads elf (elf_ph_count elf) = []")
  case False
  then have "ph_ok elf (last (loads elf (elf_ph_count elf)))" using assms by (simp add: elf_ok_def)
  with False ph_ok_pages(2) show ?thesis by (simp add: load_end_def)
qed (simp add: load_end_def)

lemma stack_ends:
  assumes "n \<le> 2 ^ 27 - 6"
  defines "bottom \<equiv> va_bits (VirtAddr_from_vpn (VirtPageNum (of_nat n))) + PAGE_SIZE"
  shows "unat (take_bit 39 bottom) = (n + 1) * 4096" and "unat (take_bit 39 (bottom + USER_STACK_SIZE)) = (n + 3) * 4096"
    and "unat (bottom + USER_STACK_SIZE) = (n + 3) * 4096"
proof -
  have "unat (va_bits (VirtAddr_from_vpn (VirtPageNum (of_nat n)))) = n * 4096"
    using assms(1) by (subst unat_VirtAddr_from_vpn) simp_all
  then have b: "unat bottom = n * 4096 + 4096"
    using assms(1) unfolding bottom_def by (subst unat_add_less) simp_all
  then have t: "unat (bottom + USER_STACK_SIZE) = n * 4096 + 12288"
    using assms(1) by (subst unat_add_less) simp_all
  show "unat (take_bit 39 bottom) = (n + 1) * 4096" "unat (take_bit 39 (bottom + USER_STACK_SIZE)) = (n + 3) * 4096"
    using assms(1) by (simp_all only: unat_take_bit b t) simp_all
  show "unat (bottom + USER_STACK_SIZE) = (n + 3) * 4096" using t by simp
qed

lemma trap_ends:
  "unat (take_bit 39 TRAP_CONTEXT) = 0x7fffffe * 4096" "unat (take_bit 39 TRAMPOLINE) = 0x7ffffff * 4096"
  by (simp_all add: unat_take_bit)

lemma small_cost:
  assumes "lo \<le> hi" and "hi \<le> 2 ^ 27" and "hi - lo < 512"
  shows "cost Framed (area_pages (new_area lo hi Framed mp)) \<le> hi - lo + 4"
  using blocks_new_area [OF assms(1,2), of Framed mp] new_area_pages(3) [OF assms(1,2), of Framed mp] assms(3)
  by (simp add: cost_def)

lemma pushed_small:
  assumes "pushed st0 st ms (new_area lo hi Framed mp) None st' ms' a'" and "lo \<le> hi" and "hi \<le> 2 ^ 27" and "hi - lo < 512"
  shows "built st0 st' ms'" and "areas ms' = areas ms @ [a']"
    and "vpn_ok w \<Longrightarrow> ms_lookup st' ms' w = (if w \<in> pages lo hi then Some (area_entry a' w) else ms_lookup st ms w)"
    and "frames_left st \<le> frames_left st' + (hi - lo + 4)" and "same_header (new_area lo hi Framed mp) a'"
    and "pte_flags (area_entry a' w) = mp OR PTE_V"
  using assms(1) small_cost [OF assms(2-4), of mp] new_area_pages(2) [OF assms(2,3), of Framed mp]
  by (auto simp: pushed_def area_entry_def pte_flags_new same_header_def)

text \<open>
  What \<open>from_elf\<close> promises of the new space: the loaded segments, then the stack and the trap
  context; the trampoline; an unmapped page between the last segment and the stack.
\<close>

definition elf_space :: "linker_symbols \<Rightarrow> elf_file \<Rightarrow> mm_state \<Rightarrow> MemorySet \<Rightarrow> mm_state \<Rightarrow> bool" where
  "elf_space syms elf st0 ms st \<longleftrightarrow>
     (let n = load_end (loads elf (elf_ph_count elf)) in
      built st0 st ms \<and> user_space st ms \<and>
      (\<exists>as stack trap. areas ms = as @ [stack, trap] \<and> list_all2 (loaded elf st) (loads elf (elf_ph_count elf)) as \<and>
         same_header (stack_area n) stack \<and> same_header trap_area trap) \<and>
      ms_lookup st ms trampoline_vpn = Some (trampoline_entry syms) \<and>
      map_option pte_flags (ms_lookup st ms trap_vpn) = Some (MP_R OR MP_W OR PTE_V) \<and>
      (\<forall>v \<in> pages (n + 1) (n + 3). map_option pte_flags (ms_lookup st ms v) = Some (MP_R OR MP_W OR MP_U OR PTE_V)) \<and>
      ms_lookup st ms (VirtPageNum (of_nat n)) = None)"

lemma elf_view_finish:
  assumes e: "elf_ok elf" and v: "elf_view syms elf st0 (loads elf (elf_ph_count elf)) me ms st" and room: "11 \<le> frames_left st"
  defines "n \<equiv> load_end (loads elf (elf_ph_count elf))"
  defines "bottom \<equiv> va_bits (VirtAddr_from_vpn me) + PAGE_SIZE"
  shows "\<exists>ms1 st1 ms2 st2. push_new bottom (bottom + USER_STACK_SIZE) Framed (MP_R OR MP_W OR MP_U) (ms, st) = Inr (ms1, st1) \<and>
    push_new TRAP_CONTEXT TRAMPOLINE Framed (MP_R OR MP_W) (ms1, st1) = Inr (ms2, st2) \<and> elf_space syms elf st0 ms2 st2 \<and>
    frames_left st \<le> frames_left st2 + 11"
proof -
  have n: "n \<le> 2 ^ 27 - 6" unfolding n_def using e by (rule load_end_bound)
  have me: "me = VirtPageNum (of_nat n)" and b: "built st0 st ms" and l: "list_all2 (loaded elf st) (loads elf (elf_ph_count elf)) (areas ms)"
    and tr: "ms_lookup st ms trampoline_vpn = Some (trampoline_entry syms)"
    and hi: "\<forall>w. vpn_ok w \<longrightarrow> w \<noteq> trampoline_vpn \<longrightarrow> n \<le> unat (vpn_bits w) \<longrightarrow> ms_lookup st ms w = None"
    using v by (auto simp: elf_view_def n_def)
  note ends = stack_ends [OF n, folded me, folded bottom_def]
  have le: "n + 1 \<le> n + 3" "n + 3 \<le> 2 ^ 27" using n by simp_all
  have st_pages: "vpn_ok w \<and> w \<noteq> trampoline_vpn \<and> w \<noteq> trap_vpn \<and> n < unat (vpn_bits w)" if "w \<in> pages (n + 1) (n + 3)" for w
    using that n by (auto simp: pages_def vpn_ok_def trampoline_vpn_def trap_vpn_def)
  have none1: "\<forall>w \<in> pages (n + 1) (n + 3). ms_lookup st ms w = None" using st_pages hi by (auto simp: less_imp_le)
  have c1: "cost Framed (area_pages (new_area (n + 1) (n + 3) Framed (MP_R OR MP_W OR MP_U))) \<le> 6"
    using small_cost [OF le, of "MP_R OR MP_W OR MP_U"] by simp
  then have "cost Framed (area_pages (new_area (n + 1) (n + 3) Framed (MP_R OR MP_W OR MP_U))) \<le> frames_left st" using room by linarith
  from push_new_ok [OF b ends(1,2) le none1 this] obtain ms1 st1 s1
    where p1: "push_new bottom (bottom + USER_STACK_SIZE) Framed (MP_R OR MP_W OR MP_U) (ms, st) = Inr (ms1, st1)"
      "pushed st0 st ms (stack_area n) None st1 ms1 s1" unfolding stack_area_def .
  have "n + 3 - (n + 1) < 512" by simp
  note q1 = pushed_small [OF p1(2) [unfolded stack_area_def] le this]
  have h1: "same_header (stack_area n) s1" "areas ms1 = areas ms @ [s1]" and b1: "built st0 st1 ms1" and look1: "\<And>w. vpn_ok w \<Longrightarrow>
      ms_lookup st1 ms1 w = (if w \<in> pages (n + 1) (n + 3) then Some (area_entry s1 w) else ms_lookup st ms w)"
    and f1: "frames_left st \<le> frames_left st1 + 6"
    using q1(1,2,4,5) by (simp_all only: stack_area_def q1(3))
  have tle: "(0x7fffffe :: nat) \<le> 0x7ffffff" "(0x7ffffff :: nat) \<le> 2 ^ 27" by simp_all
  have tp: "pages 0x7fffffe 0x7ffffff = {trap_vpn}"
    by (auto simp: pages_def trap_vpn_def intro: VirtPageNum_eqI)
  have t_ok: "vpn_ok trap_vpn" "trap_vpn \<noteq> trampoline_vpn" "n \<le> unat (vpn_bits trap_vpn)" "trap_vpn \<notin> pages (n + 1) (n + 3)"
    using n st_pages by (auto simp: vpn_ok_def trampoline_vpn_def trap_vpn_def pages_def)
  then have none2: "\<forall>w \<in> pages 0x7fffffe 0x7ffffff. ms_lookup st1 ms1 w = None"
    using look1 hi by (simp add: tp)
  have c2: "cost Framed (area_pages (new_area 0x7fffffe 0x7ffffff Framed (MP_R OR MP_W))) \<le> 5"
    using small_cost [OF tle, of "MP_R OR MP_W"] by simp
  then have "cost Framed (area_pages (new_area 0x7fffffe 0x7ffffff Framed (MP_R OR MP_W))) \<le> frames_left st1" using f1 room by linarith
  from push_new_ok [OF b1 trap_ends tle none2 this] obtain ms2 st2 t2
    where p2: "push_new TRAP_CONTEXT TRAMPOLINE Framed (MP_R OR MP_W) (ms1, st1) = Inr (ms2, st2)"
      "pushed st0 st1 ms1 trap_area None st2 ms2 t2" unfolding trap_area_def .
  have "(0x7ffffff :: nat) - 0x7fffffe < 512" by simp
  note q2 = pushed_small [OF p2(2) [unfolded trap_area_def] tle this]
  have h2: "same_header trap_area t2" "areas ms2 = areas ms1 @ [t2]" and b2: "built st0 st2 ms2"
    and look2: "\<And>w. vpn_ok w \<Longrightarrow> ms_lookup st2 ms2 w = (if w = trap_vpn then Some (area_entry t2 w) else ms_lookup st1 ms1 w)"
    and f2: "frames_left st1 \<le> frames_left st2 + 5"
    using q2(1,2,4,5) by (simp_all add: trap_area_def q2(3) tp)
  have fr1: "\<forall>a \<in> set (areas ms1). map_type a = Framed"
    using loaded_Framed [OF l] h1 by (auto simp: same_header_def stack_area_def)
  have "list_all2 (loaded elf st2) (loads elf (elf_ph_count elf)) (areas ms)"
    by (rule loaded_pushed [OF b1 loaded_pushed [OF b l loaded_Framed [OF l] _ p1(2)] fr1 _ p2(2)]) (auto simp: h1(2))
  moreover have "user_space st2 ms2"
    using b2 fr1 h2 by (auto simp: user_space_def built_def same_header_def trap_area_def)
  moreover have "map_option pte_flags (ms_lookup st2 ms2 v) = Some (MP_R OR MP_W OR MP_U OR PTE_V)" if "v \<in> pages (n + 1) (n + 3)" for v
    using look2 look1 st_pages [OF that] that q1(6) by (simp add: or.assoc)
  moreover have "map_option pte_flags (ms_lookup st2 ms2 trap_vpn) = Some (MP_R OR MP_W OR PTE_V)"
    using look2 t_ok q2(6) by (simp add: or.assoc)
  moreover have "ms_lookup st2 ms2 trampoline_vpn = Some (trampoline_entry syms)"
    using look2 look1 tr t_ok st_pages by auto
  moreover have "ms_lookup st2 ms2 (VirtPageNum (of_nat n)) = None"
  proof -
    have u: "unat (of_nat n :: usize) = n" using n by simp
    have g: "vpn_ok (VirtPageNum (of_nat n))" "VirtPageNum (of_nat n) \<noteq> trap_vpn" "VirtPageNum (of_nat n) \<noteq> trampoline_vpn"
      "VirtPageNum (of_nat n) \<notin> pages (n + 1) (n + 3)"
      using n u by (auto simp: vpn_ok_def pages_def trap_vpn_def trampoline_vpn_def word_unat_eq_iff)
    then show ?thesis using look2 look1 hi u by simp
  qed
  ultimately have "elf_space syms elf st0 ms2 st2"
    unfolding elf_space_def Let_def using b2 h1 h2 n_def by auto
  with p1(1) p2(1) f1 f2 show ?thesis by fastforce
qed

lemma elf_view_start:
  assumes "strampoline_ok syms" and "mm_inv st0" and "3 \<le> frames_left st0"
  shows "\<exists>s ms st. new_bare st0 = Inr s \<and> map_trampoline syms s = Inr (ms, st) \<and> elf_view syms elf st0 [] (VirtPageNum 0) ms st"
proof -
  obtain ms1 st1 where n: "new_bare st0 = Inr (ms1, st1)" using new_bare_total [OF assms(2)] assms(3) by auto
  note nb = new_bare_built [OF assms(2) n]
  have i1: "ms_inv st1 ms1" using nb(1) by (simp add: built_def)
  have "2 \<le> frames_left st1" using nb(4) assms(3) by simp
  then obtain ms2 st2 where t: "map_trampoline syms (ms1, st1) = Inr (ms2, st2)"
    using map_trampoline_total [OF i1 nb(3) assms(1)] by blast
  note tr = map_trampoline_built [OF nb(1) t]
  have "elf_view syms elf st0 [] (VirtPageNum 0) ms2 st2"
    using tr nb by (auto simp: elf_view_def load_end_def load_cost_def)
  with n t show ?thesis by blast
qed

lemma from_elf_Inr:
  assumes e: "elf_new data = Some elf" "elf_ok elf" and "strampoline_ok syms" and "mm_inv st0"
    and room: "14 + load_cost (loads elf (elf_ph_count elf)) \<le> frames_left st0"
  shows "\<exists>ms sp st. from_elf elf_new syms data st0 = Inr ((ms, sp, elf_entry_point elf), st) \<and> elf_space syms elf st0 ms st \<and>
    unat sp = (load_end (loads elf (elf_ph_count elf)) + 3) * 4096 \<and>
    frames_left st0 \<le> frames_left st + 14 + load_cost (loads elf (elf_ph_count elf))"
proof -
  let ?phs = "loads elf (elf_ph_count elf)"
  have "3 \<le> frames_left st0" "3 + load_cost ?phs \<le> frames_left st0" using room by linarith+
  with elf_view_start [OF assms(3,4)] obtain s ms1 st1 where s: "new_bare st0 = Inr s" "map_trampoline syms s = Inr (ms1, st1)"
    and v1: "elf_view syms elf st0 [] (VirtPageNum 0) ms1 st1" by blast
  from load_segments_ok [OF e(2) v1] room obtain me ms2 st2
    where l: "for_each (load_segment elf) [0..<elf_ph_count elf] (VirtPageNum 0, ms1, st1) = Inr (me, ms2, st2)"
      and v2: "elf_view syms elf st0 ?phs me ms2 st2" by fastforce
  have magic: "elf_magic elf = [0x7f, 0x45, 0x4c, 0x46]" using e(2) by (simp add: elf_ok_def)
  have me: "me = VirtPageNum (of_nat (load_end ?phs))" and "11 \<le> frames_left st2"
    using v2 room by (auto simp: elf_view_def)
  from elf_view_finish [OF e(2) v2 this(2)] obtain ms3 st3 ms4 st4
    where p: "push_new (va_bits (VirtAddr_from_vpn me) + PAGE_SIZE) (va_bits (VirtAddr_from_vpn me) + PAGE_SIZE + USER_STACK_SIZE)
        Framed (MP_R OR MP_W OR MP_U) (ms2, st2) = Inr (ms3, st3)"
      "push_new TRAP_CONTEXT TRAMPOLINE Framed (MP_R OR MP_W) (ms3, st3) = Inr (ms4, st4)"
      and sp: "elf_space syms elf st0 ms4 st4" and f: "frames_left st2 \<le> frames_left st4 + 11" by blast
  have "frames_left st0 \<le> frames_left st4 + 14 + load_cost ?phs" using f v2 by (simp add: elf_view_def)
  moreover have "from_elf elf_new syms data st0 =
      Inr ((ms4, va_bits (VirtAddr_from_vpn me) + PAGE_SIZE + USER_STACK_SIZE, elf_entry_point elf), st4)"
    by (simp only: from_elf_def Let_def s bind_Inr e unwrap_Some magic simp_thms assert_that_def if_True l prod.case p)
  ultimately show ?thesis using sp stack_ends(3) [OF load_end_bound [OF e(2)]] unfolding me by blast
qed

text \<open>What the copy of a loaded space may cost.\<close>

lemma cost_same_header: "same_header a b \<Longrightarrow> cost (map_type b) (area_pages b) = cost (map_type a) (area_pages a)"
  by (simp add: same_header_def)

lemma loaded_cost: "list_all2 (loaded elf st) phs as \<Longrightarrow> copy_cost as = load_cost phs"
  by (induction rule: list_all2_induct)
    (auto simp: copy_cost_def load_cost_def loaded_def cost_same_header ph_area_def)

lemma elf_space_copy:
  assumes e: "elf_ok elf" and sp: "elf_space syms elf st0 ms st"
  shows "user_space st ms" and "copy_room ms \<le> 14 + load_cost (loads elf (elf_ph_count elf))" and "trampoline_vpn \<notin> set (ms_pages ms)"
proof -
  define n where "n = load_end (loads elf (elf_ph_count elf))"
  have n: "n \<le> 2 ^ 27 - 6" unfolding n_def using e by (rule load_end_bound)
  obtain as stack trap where ar: "areas ms = as @ [stack, trap]" and l: "list_all2 (loaded elf st) (loads elf (elf_ph_count elf)) as"
    and h: "same_header (stack_area n) stack" "same_header trap_area trap"
    using sp by (auto simp: elf_space_def Let_def n_def)
  show "user_space st ms" using sp by (simp add: elf_space_def Let_def)
  have le: "n + 1 \<le> n + 3" "n + 3 \<le> 2 ^ 27" and tle: "(0x7fffffe :: nat) \<le> 0x7ffffff" "(0x7ffffff :: nat) \<le> 2 ^ 27" using n by simp_all
  have "cost (map_type stack) (area_pages stack) \<le> 6"
    using small_cost [OF le, of "MP_R OR MP_W OR MP_U"] by (simp add: cost_same_header [OF h(1)]) (simp add: stack_area_def)
  moreover have "cost (map_type trap) (area_pages trap) \<le> 5"
    using small_cost [OF tle, of "MP_R OR MP_W"] by (simp add: cost_same_header [OF h(2)]) (simp add: trap_area_def)
  ultimately show "copy_room ms \<le> 14 + load_cost (loads elf (elf_ph_count elf))"
    using loaded_cost [OF l] by (simp add: copy_room_def copy_cost_def ar)
  have "trampoline_vpn \<notin> pages lo hi" if "hi \<le> 0x7ffffff" for lo hi
    using that by (auto simp: pages_def trampoline_vpn_def)
  moreover have "set (area_pages stack) = pages (n + 1) (n + 3)" "set (area_pages trap) = pages 0x7fffffe 0x7ffffff"
    using h new_area_pages(2) [OF le, of Framed "MP_R OR MP_W OR MP_U"] new_area_pages(2) [OF tle, of Framed "MP_R OR MP_W"]
    by (simp_all add: same_header_def stack_area_def trap_area_def)
  moreover have "\<exists>lo hi. hi \<le> 2 ^ 27 - 6 \<and> set (area_pages a) = pages lo hi" if "a \<in> set as" for a
  proof -
    obtain ph where "ph \<in> set (loads elf (elf_ph_count elf))" "loaded elf st ph a"
      using l \<open>a \<in> set as\<close> by (metis in_set_conv_nth list_all2_conv_all_nth)
    then show ?thesis using e ph_area_pages(1) [of elf ph] ph_ok_pages(2) [of elf ph]
      by (intro exI [of _ "ph_lo ph"] exI [of _ "ph_hi ph"]) (auto simp: elf_ok_def loaded_def same_header_def)
  qed
  then have "trampoline_vpn \<notin> set (area_pages a)" if "a \<in> set as" for a
    using that \<open>\<And>lo hi. hi \<le> 0x7ffffff \<Longrightarrow> trampoline_vpn \<notin> pages lo hi\<close> by fastforce
  ultimately show "trampoline_vpn \<notin> set (ms_pages ms)"
    using n by (auto simp: ms_pages_def ar)
qed

text \<open>A program of one segment, for the witnesses: two pages at \<open>0x10000\<close>, the first bytes from the file.\<close>

definition ex_ph :: program_header where
  "ex_ph = \<lparr>ph_get_type = Some Load, ph_virtual_addr = 0x10000, ph_mem_size = 0x1800, ph_offset = 0, ph_file_size = 4,
     ph_is_read = True, ph_is_write = False, ph_is_execute = True\<rparr>"

definition ex_elf :: elf_file where
  "ex_elf = \<lparr>elf_magic = [0x7f, 0x45, 0x4c, 0x46], elf_ph_count = 1,
     elf_program_header = (\<lambda>i. if i = 0 then Some ex_ph else None), elf_entry_point = 0x10000, elf_input = [0x7f, 0x45, 0x4c, 0x46]\<rparr>"

lemma ex_elf_loads: "loads ex_elf (elf_ph_count ex_elf) = [ex_ph]"
  by (simp add: loads_def ex_elf_def ex_ph_def)

lemma ex_ph_pages: "ph_lo ex_ph = 16" "ph_hi ex_ph = 18"
  by (simp_all add: ph_lo_def ph_hi_def ex_ph_def)

lemma ex_elf_ok: "elf_ok ex_elf"
  unfolding elf_ok_def ex_elf_loads
  by (simp add: ph_ok_def) (simp add: ex_elf_def ex_ph_def)

lemma ex_elf_entry: "elf_entry_point ex_elf = 0x10000"
  by (simp add: ex_elf_def)

lemma ex_elf_cost: "load_cost (loads ex_elf (elf_ph_count ex_elf)) \<le> 6"
  using small_cost [of 16 18 "segment_perm ex_ph"] by (simp add: ex_elf_loads load_cost_def ph_area_def ex_ph_pages)

lemma ex_elf_room: "20 \<le> frames_left st \<Longrightarrow> 14 + load_cost (loads ex_elf (elf_ph_count ex_elf)) \<le> frames_left st"
  using ex_elf_cost by linarith

lemma ex_strampoline_ok: "strampoline_ok ex_syms"
  using ex_syms_ok by (simp add: syms_ok_def)

subsection \<open>Properties\<close>

text \<open>
  C27: loading a program.  For a well-formed ELF file and enough free frames \<open>from_elf\<close> succeeds
  and returns the entry point of the file and a stack pointer three pages above the last segment.
  The new space owns exactly the frames allocated by the call and changes memory in these only; its
  segments are those of the loadable headers, holding the bytes of the file followed by zeros, then
  the user stack behind an unmapped guard page, then the trap context, which user code cannot reach.
\<close>

theorem from_elf_loads:
  assumes "elf_new data = Some elf" and "elf_ok elf" and "strampoline_ok syms" and "mm_inv st0"
    and "14 + load_cost (loads elf (elf_ph_count elf)) \<le> frames_left st0"
  shows "\<exists>ms sp st. from_elf elf_new syms data st0 = Inr ((ms, sp, elf_entry_point elf), st) \<and> elf_space syms elf st0 ms st \<and>
    unat sp = (load_end (loads elf (elf_ph_count elf)) + 3) * 4096 \<and>
    frames_left st0 \<le> frames_left st + 14 + load_cost (loads elf (elf_ph_count elf))"
  using assms by (rule from_elf_Inr)

theorem from_elf_loads_witness:
  "elf_ok ex_elf \<and> strampoline_ok ex_syms \<and> mm_inv ex_mm \<and>
   (\<exists>ms sp st. from_elf (\<lambda>_. Some ex_elf) ex_syms [] ex_mm = Inr ((ms, sp, 0x10000), st) \<and>
      elf_space ex_syms ex_elf ex_mm ms st \<and> unat sp = 21 * 4096)"
proof -
  have "20 \<le> frames_left ex_mm" by (simp add: ex_mm_left)
  from from_elf_loads [where elf_new = "\<lambda>_. Some ex_elf" and data = "[]", OF refl ex_elf_ok ex_strampoline_ok ex_mm_inv ex_elf_room [OF this]] show ?thesis
    using ex_elf_ok ex_strampoline_ok ex_mm_inv
    unfolding ex_elf_loads by (simp add: load_end_def ex_ph_pages ex_elf_entry) blast
qed

text \<open>Copying a user space: the copy succeeds, and both spaces are as they should be.\<close>

lemma from_existed_user_ok:
  assumes "user_space st0 us" and "strampoline_ok syms" and "trampoline_vpn \<notin> set (ms_pages us)" and "copy_room us \<le> frames_left st0"
  shows "\<exists>ms st. from_existed_user syms us st0 = Inr (ms, st) \<and> copied syms st0 us (areas us) st ms \<and>
    user_space st ms \<and> user_space st us \<and> ms_frames us \<inter> ms_frames ms = {} \<and>
    (\<forall>v. ms_lookup st us v = ms_lookup st0 us v) \<and> (\<forall>v \<in> set (ms_pages us). page_content st us v = page_content st0 us v) \<and>
    frames_left st0 \<le> frames_left st + copy_room us"
proof -
  obtain ms st where r: "from_existed_user syms us st0 = Inr (ms, st)" "frames_left st0 \<le> frames_left st + copy_room us"
    using from_existed_user_total [OF assms] by blast
  have c: "copied syms st0 us (areas us) st ms" by (rule from_existed_user_copied [OF assms(1) r(1)])
  then have b: "built st0 st ms" and h: "list_all2 same_header (areas us) (areas ms)" by (auto simp: copied_def)
  have us: "ms_inv st0 us" "\<forall>a \<in> set (areas us). map_type a = Framed" using assms(1) by (auto simp: user_space_def)
  note o = built_other [OF b us(1)]
  have "user_space st ms" "user_space st us"
    using b o(1) us(2) list_all2_headers(2) [OF h] by (auto simp: user_space_def built_def)
  with r c o us(2) show ?thesis by (intro exI [of _ ms] exI [of _ st]) auto
qed

text \<open>
  C26: the copy made for \<open>fork\<close>.  From a user space and with enough free frames
  \<open>from_existed_user\<close> succeeds; the new space has the same segments, and every page of them is
  mapped with the same flags and the same contents in both; the two spaces share no frame, and the
  original keeps its mappings and contents.
\<close>

theorem from_existed_user_duplicates:
  assumes "user_space st0 us" and "strampoline_ok syms" and "trampoline_vpn \<notin> set (ms_pages us)" and "copy_room us \<le> frames_left st0"
  shows "\<exists>ms st. from_existed_user syms us st0 = Inr (ms, st) \<and> copied syms st0 us (areas us) st ms \<and>
    user_space st ms \<and> user_space st us \<and> ms_frames us \<inter> ms_frames ms = {} \<and>
    (\<forall>v. ms_lookup st us v = ms_lookup st0 us v) \<and> (\<forall>v \<in> set (ms_pages us). page_content st us v = page_content st0 us v)"
  using from_existed_user_ok [OF assms] by blast

theorem from_existed_user_duplicates_witness:
  "\<exists>us sp entry st0 ms st. from_elf (\<lambda>_. Some ex_elf) ex_syms [] ex_mm = Inr ((us, sp, entry), st0) \<and>
     user_space st0 us \<and> trampoline_vpn \<notin> set (ms_pages us) \<and> copy_room us \<le> frames_left st0 \<and>
     from_existed_user ex_syms us st0 = Inr (ms, st) \<and> copied ex_syms st0 us (areas us) st ms"
proof -
  have "20 \<le> frames_left ex_mm" by (simp add: ex_mm_left)
  from from_elf_Inr [where elf_new = "\<lambda>_. Some ex_elf" and data = "[]", OF refl ex_elf_ok ex_strampoline_ok ex_mm_inv ex_elf_room [OF this]] obtain us sp st0
    where f: "from_elf (\<lambda>_. Some ex_elf) ex_syms [] ex_mm = Inr ((us, sp, elf_entry_point ex_elf), st0)"
      "elf_space ex_syms ex_elf ex_mm us st0"
      "frames_left ex_mm \<le> frames_left st0 + 14 + load_cost (loads ex_elf (elf_ph_count ex_elf))" by blast
  note c = elf_space_copy [OF ex_elf_ok f(2)]
  have "copy_room us \<le> frames_left st0" using c(2) ex_elf_cost f(3) by (simp add: ex_mm_left)
  from from_existed_user_duplicates [OF c(1) ex_strampoline_ok c(3) this] f(1) c(1,3) this show ?thesis by blast
qed

text \<open>
  C35: giving a space back.  When a process exits, \<open>recycle_data_pages\<close> gives back the frames of
  its segments, and dropping the space later gives back those of its page table: no frame is freed
  twice, and afterwards exactly the frames that were in use before the space was built are in use,
  all with the bytes they had then.
\<close>

theorem recycle_then_drop_restores:
  assumes "built st0 st ms"
  shows "\<exists>ms1 st1 st2. recycle_data_pages (ms, st) = Inr (ms1, st1) \<and> MemorySet_drop st1 ms1 = Inr st2 \<and>
    in_use st1 = in_use st0 \<union> frames_of (page_table ms) \<and> in_use st2 = in_use st0 \<and> mm_inv st2 \<and>
    (\<forall>p \<in> in_use st0. ppn_ok p \<longrightarrow> page_bytes (mm_mem st2) p = page_bytes (mm_mem st0) p)"
proof -
  have inv: "ms_inv st ms" and own: "ms_frames ms = in_use st - in_use st0" "in_use st0 \<subseteq> in_use st"
    and out: "same_outside (in_use st - in_use st0) (mm_mem st0) (mm_mem st)"
    using assms by (auto simp: built_def)
  let ?ms = "ms\<lparr>areas := []\<rparr>"
  obtain st1 where r: "recycle_data_pages (ms, st) = Inr (?ms, st1)" "ms_inv st1 ?ms" "in_use st1 = in_use st - ms_data ms"
    "mm_mem st1 = mm_mem st" using recycle_data_pages_ok [OF inv] by blast
  obtain st2 where d: "MemorySet_drop st1 ?ms = Inr st2" "in_use st2 = in_use st1 - ms_frames ?ms" "mm_mem st2 = mm_mem st1" "mm_inv st2"
    using MemorySet_drop_ok [OF r(2)] by blast
  have f: "ms_frames ?ms = frames_of (page_table ms)" by (simp add: ms_frames_def ms_data_def ms_trackers_def)
  have "ms_data ms \<inter> frames_of (page_table ms) = {}" using inv by (simp add: ms_inv_def)
  then have "in_use st1 = in_use st0 \<union> frames_of (page_table ms)" "in_use st2 = in_use st0"
    using own r(3) d(2) unfolding f by (auto simp: ms_frames_def)
  moreover have "page_bytes (mm_mem st2) p = page_bytes (mm_mem st0) p" if "p \<in> in_use st0" "ppn_ok p" for p
    using page_bytes_same_outside [OF out, of p] that by (simp add: d(3) r(4))
  ultimately show ?thesis using r(1) d(1,4) by blast
qed

theorem recycle_then_drop_restores_witness:
  "\<exists>us sp entry st ms1 st1 st2. from_elf (\<lambda>_. Some ex_elf) ex_syms [] ex_mm = Inr ((us, sp, entry), st) \<and>
     recycle_data_pages (us, st) = Inr (ms1, st1) \<and> MemorySet_drop st1 ms1 = Inr st2 \<and> in_use st2 = in_use ex_mm"
proof -
  have "20 \<le> frames_left ex_mm" by (simp add: ex_mm_left)
  from from_elf_Inr [where elf_new = "\<lambda>_. Some ex_elf" and data = "[]", OF refl ex_elf_ok ex_strampoline_ok ex_mm_inv ex_elf_room [OF this]]
  obtain us sp st where f: "from_elf (\<lambda>_. Some ex_elf) ex_syms [] ex_mm = Inr ((us, sp, elf_entry_point ex_elf), st)"
      "elf_space ex_syms ex_elf ex_mm us st" by blast
  then have "built ex_mm st us" by (simp add: elf_space_def Let_def)
  from recycle_then_drop_restores [OF this] f(1) show ?thesis by blast
qed

end
