(* ===== verification/Pid.thy ===== *)
theory Pid
  imports User_Space Allocator_Spec
begin

text \<open>
  Process identifiers and kernel stacks (\<^verbatim>\<open>src/os/src/task/pid.rs\<close>).  \<open>PidAllocator\<close> is the
  second recycling allocator of the kernel.  A kernel stack is a framed segment of the kernel's
  address space at an address computed from the pid, so that pids in use give stacks that do not
  overlap; creating and dropping a \<open>KernelStack\<close> keep the description \<open>kernel_ok\<close> of that space.
\<close>

subsection \<open>\<open>PidAllocator\<close>\<close>

record PidAllocator =
  pida_current :: usize
  pida_recycled :: "usize list"

datatype PidHandle = PidHandle (pid_num: usize)

definition pida_new :: PidAllocator where
  "pida_new = \<lparr>pida_current = 0, pida_recycled = []\<rparr>"

definition pida_alloc :: "PidAllocator \<Rightarrow> PidHandle \<times> PidAllocator" where
  "pida_alloc a =
     (case vec_pop (pida_recycled a) of
        (Some pid, rest) \<Rightarrow> (PidHandle pid, a\<lparr>pida_recycled := rest\<rparr>)
      | (None, _) \<Rightarrow>
          (let a = a\<lparr>pida_current := pida_current a + 1\<rparr>
           in (PidHandle (pida_current a - 1), a)))"

definition pida_dealloc :: "PidAllocator \<Rightarrow> usize \<Rightarrow> PidAllocator result" where
  "pida_dealloc a pid =
     bind (assert_that (pid < pida_current a) (PidNotAllocated pid)) (\<lambda>_.
     bind (assert_that (\<not> (\<exists>ppid \<in> set (pida_recycled a). ppid = pid)) (PidDeallocated pid)) (\<lambda>_.
     Inr (a\<lparr>pida_recycled := vec_push (pida_recycled a) pid\<rparr>)))"

text \<open>\<open>pid_alloc\<close> and \<open>Drop for PidHandle\<close> on the static \<open>PID_ALLOCATOR\<close>.\<close>

definition pid_alloc :: "PidAllocator \<Rightarrow> PidHandle \<times> PidAllocator" where
  "pid_alloc PID_ALLOCATOR = pida_alloc PID_ALLOCATOR"

definition PidHandle_drop :: "PidAllocator \<Rightarrow> PidHandle \<Rightarrow> PidAllocator result" where
  "PidHandle_drop PID_ALLOCATOR h = pida_dealloc PID_ALLOCATOR (pid_num h)"

subsection \<open>\<open>KernelStack\<close>\<close>

text \<open>The copy of \<open>kernel_stack_position\<close> in \<^verbatim>\<open>pid.rs\<close>.\<close>

definition pid_kernel_stack_position :: "usize \<Rightarrow> usize \<times> usize" where
  "pid_kernel_stack_position app_id =
     (let top = TRAMPOLINE - app_id * (KERNEL_STACK_SIZE + PAGE_SIZE);
          bottom = top - KERNEL_STACK_SIZE
      in (bottom, top))"

datatype KernelStack = KernelStack (ks_pid: usize)

text \<open>The operations on \<open>KERNEL_SPACE\<close> take and return it together with the frames and memory.\<close>

definition KernelStack_new :: "PidHandle \<Rightarrow> MemorySet \<times> mm_state \<Rightarrow> (KernelStack \<times> MemorySet \<times> mm_state) result" where
  "KernelStack_new pid_handle KERNEL_SPACE =
     (let pid = pid_num pid_handle;
          (kernel_stack_bottom, kernel_stack_top) = pid_kernel_stack_position pid
      in bind (insert_framed_area (VirtAddr_from kernel_stack_bottom) (VirtAddr_from kernel_stack_top) (MP_R OR MP_W) KERNEL_SPACE)
           (\<lambda>KERNEL_SPACE. Inr (KernelStack (pid_num pid_handle), KERNEL_SPACE)))"

definition get_top :: "KernelStack \<Rightarrow> usize" where
  "get_top ks = (let (_, kernel_stack_top) = pid_kernel_stack_position (ks_pid ks) in kernel_stack_top)"

text \<open>
  A store of the kernel through a virtual address: one byte after the other through the page
  table of the kernel space; a store to a page that is not mapped is a trap from the kernel.
\<close>

fun kernel_store :: "MemorySet \<Rightarrow> usize \<Rightarrow> u8 list \<Rightarrow> memory \<Rightarrow> memory result" where
  "kernel_store ms a [] m = Inr m"
| "kernel_store ms a (b # bs) m =
     (case translate_va m (page_table ms) (VirtAddr_from a) of
        Some pa \<Rightarrow> kernel_store ms (a + 1) bs (m(pa_bits pa := b))
      | None \<Rightarrow> Inl KernelTrap)"

definition push_on_top :: "KernelStack \<Rightarrow> u8 list \<Rightarrow> MemorySet \<times> mm_state \<Rightarrow> (usize \<times> MemorySet \<times> mm_state) result" where
  "push_on_top ks val = (\<lambda>(ms, st).
     (let kernel_stack_top = get_top ks;
          ptr_mut = kernel_stack_top - of_nat (length val)
      in bind (kernel_store ms ptr_mut val (mm_mem st)) (\<lambda>m.
         Inr (ptr_mut, ms, st\<lparr>mm_mem := m\<rparr>))))"

definition KernelStack_drop :: "KernelStack \<Rightarrow> MemorySet \<times> mm_state \<Rightarrow> (MemorySet \<times> mm_state) result" where
  "KernelStack_drop ks KERNEL_SPACE =
     (let (kernel_stack_bottom, _) = pid_kernel_stack_position (ks_pid ks);
          kernel_stack_bottom_va = VirtAddr_from kernel_stack_bottom
      in bind (VirtPageNum_from_va kernel_stack_bottom_va) (\<lambda>vpn.
         remove_area_with_start_vpn vpn KERNEL_SPACE))"

subsection \<open>The pids in use\<close>

definition pida_inv :: "PidAllocator \<Rightarrow> bool" where
  "pida_inv a \<longleftrightarrow> distinct (pida_recycled a) \<and> (\<forall>p \<in> set (pida_recycled a). p < pida_current a)"

definition pida_in_use :: "PidAllocator \<Rightarrow> PidHandle set" where
  "pida_in_use a = {h. pid_num h < pida_current a \<and> pid_num h \<notin> set (pida_recycled a)}"

text \<open>The counter of a machine word would wrap to a pid in use after \<open>2 ^ 64\<close> processes.\<close>

definition pida_room :: "PidAllocator \<Rightarrow> bool" where
  "pida_room a \<longleftrightarrow> pida_recycled a \<noteq> [] \<or> pida_current a + 1 \<noteq> 0"

lemma pida_alloc_cases:
  obtains (recycled) p rest where "pida_recycled a = rest @ [p]" and "pida_alloc a = (PidHandle p, a\<lparr>pida_recycled := rest\<rparr>)"
    | (bump) "pida_recycled a = []" and "pida_alloc a = (PidHandle (pida_current a), a\<lparr>pida_current := pida_current a + 1\<rparr>)"
  by (cases "pida_recycled a" rule: rev_cases) (simp_all add: pida_alloc_def)

lemma unat_Suc_usize:
  assumes "w + 1 \<noteq> (0 :: usize)"
  shows "unat (w + 1) = Suc (unat w)"
proof -
  have "unat w \<noteq> 2 ^ 64 - 1"
  proof
    assume "unat w = 2 ^ 64 - 1"
    then have "unat w = unat (0xFFFFFFFFFFFFFFFF :: usize)" by simp
    then have "w = 0xFFFFFFFFFFFFFFFF" by (simp only: word_unat_eq_iff)
    with assms show False by simp
  qed
  then have "unat w + 1 < 2 ^ 64" using unat_usize_less [of w] by linarith
  then show ?thesis by (simp add: unat_add_less)
qed

lemma pida_alloc_ok:
  assumes "pida_inv a" and "pida_room a" and "pida_alloc a = (h, a')"
  shows "h \<notin> pida_in_use a" and "pida_in_use a' = insert h (pida_in_use a)" and "pida_inv a'"
proof -
  have "h \<notin> pida_in_use a \<and> pida_in_use a' = insert h (pida_in_use a) \<and> pida_inv a'"
  proof (cases a rule: pida_alloc_cases)
    case (recycled p rest)
    then have [simp]: "h = PidHandle p" "a' = a\<lparr>pida_recycled := rest\<rparr>" using assms(3) by auto
    have "pida_in_use a' = insert h (pida_in_use a)"
    proof (rule set_eqI)
      fix x
      show "x \<in> pida_in_use a' \<longleftrightarrow> x \<in> insert h (pida_in_use a)"
        using recycled(1) assms(1) by (cases x) (auto simp: pida_in_use_def pida_inv_def)
    qed
    then show ?thesis using recycled(1) assms(1) by (auto simp: pida_in_use_def pida_inv_def)
  next
    case bump
    then have h: "h = PidHandle (pida_current a)" "a' = a\<lparr>pida_current := pida_current a + 1\<rparr>" using assms(3) by auto
    have "pida_current a + 1 \<noteq> 0" using assms(2) bump(1) by (simp add: pida_room_def)
    then have lt: "x < pida_current a + 1 \<longleftrightarrow> x < pida_current a \<or> x = pida_current a" for x
      using unat_Suc_usize [of "pida_current a"] by (auto simp: word_less_nat_alt word_unat_eq_iff less_Suc_eq)
    show ?thesis
      using bump(1) assms(1) h
      by (auto simp: pida_in_use_def pida_inv_def lt set_eq_iff) (metis PidHandle.collapse)+
  qed
  then show "h \<notin> pida_in_use a" and "pida_in_use a' = insert h (pida_in_use a)" and "pida_inv a'" by auto
qed

lemma pida_dealloc_in_use:
  assumes "pida_inv a" and "h \<in> pida_in_use a"
  shows "pida_dealloc a (pid_num h) = Inr (a\<lparr>pida_recycled := pida_recycled a @ [pid_num h]\<rparr>)"
    and "pida_in_use (a\<lparr>pida_recycled := pida_recycled a @ [pid_num h]\<rparr>) = pida_in_use a - {h}"
    and "pida_inv (a\<lparr>pida_recycled := pida_recycled a @ [pid_num h]\<rparr>)"
  using assms by (auto simp: pida_dealloc_def pida_in_use_def pida_inv_def vec_push_def PidHandle.expand)

lemma pida_dealloc_not_in_use:
  assumes "h \<notin> pida_in_use a"
  shows "\<exists>e. pida_dealloc a (pid_num h) = Inl e"
  using assms by (cases "pid_num h < pida_current a") (auto simp: pida_dealloc_def pida_in_use_def)

interpretation pids: recycling_allocator "\<lambda>a. (case pida_alloc a of (h, a') \<Rightarrow> (Some h, a'))" PidHandle_drop pida_in_use pida_inv pida_room
proof (unfold_locales, goal_cases)
  case (4 s x)
  then show ?case unfolding PidHandle_drop_def using pida_dealloc_in_use [OF 4(1,2)] by blast
next
  case (5 s x)
  then show ?case by (simp add: PidHandle_drop_def pida_dealloc_not_in_use)
qed (auto split: prod.splits dest: pida_alloc_ok)

subsection \<open>The kernel space with the stacks of the pids in \<open>P\<close>\<close>

definition ks_lo :: "usize \<Rightarrow> nat" where
  "ks_lo p = 2 ^ 27 - 3 - 3 * unat p"

definition ks_hi :: "usize \<Rightarrow> nat" where
  "ks_hi p = 2 ^ 27 - 1 - 3 * unat p"

definition kstack_pages :: "usize \<Rightarrow> VirtPageNum set" where
  "kstack_pages p = pages (ks_lo p) (ks_hi p)"

definition kstack_area :: "usize \<Rightarrow> MapArea" where
  "kstack_area p = new_area (ks_lo p) (ks_hi p) Framed (MP_R OR MP_W)"

definition kernel_entry :: "linker_symbols \<Rightarrow> VirtPageNum \<Rightarrow> PageTableEntry option" where
  "kernel_entry syms w = (if w = trampoline_vpn then Some (trampoline_entry syms) else seg_entry (kernel_segments syms) w)"

definition kernel_areas :: "usize set \<Rightarrow> MapArea list \<Rightarrow> bool" where
  "kernel_areas P as \<longleftrightarrow> (\<exists>base stacks ps. as = base @ stacks \<and>
     (\<forall>b \<in> set base. unat (vpn_bits (range_l (vpn_range b))) \<le> 0x80800) \<and>
     distinct ps \<and> set ps = P \<and> list_all2 (\<lambda>p a. same_header (kstack_area p) a) ps stacks)"

definition kernel_ok :: "linker_symbols \<Rightarrow> mm_state \<Rightarrow> MemorySet \<Rightarrow> usize set \<Rightarrow> bool" where
  "kernel_ok syms st ks P \<longleftrightarrow> ms_inv st ks \<and> (\<forall>p \<in> P. stack_pid p) \<and> kernel_areas P (areas ks) \<and>
     (\<forall>w. vpn_ok w \<longrightarrow> w \<notin> \<Union> (kstack_pages ` P) \<longrightarrow> ms_lookup st ks w = kernel_entry syms w)"

lemma ks_range:
  assumes "stack_pid p"
  shows "0x80801 \<le> ks_lo p" and "ks_lo p + 2 = ks_hi p" and "ks_hi p \<le> 2 ^ 27" and "ks_hi p + 3 * unat p = 2 ^ 27 - 1"
  using assms by (simp_all add: stack_pid_def ks_lo_def ks_hi_def)

lemma kstack_disjoint:
  assumes "stack_pid p" and "stack_pid q" and "p \<noteq> q"
  shows "ks_hi p < ks_lo q \<or> ks_hi q < ks_lo p" and "kstack_pages p \<inter> kstack_pages q = {}"
proof -
  have "unat p \<noteq> unat q" using assms(3) by (simp add: word_unat_eq_iff)
  then show d: "ks_hi p < ks_lo q \<or> ks_hi q < ks_lo p"
    using ks_range [OF assms(1)] ks_range [OF assms(2)] by linarith
  then show "kstack_pages p \<inter> kstack_pages q = {}" by (auto simp: kstack_pages_def pages_def)
qed

lemma kernel_entry_kstack:
  assumes "syms_ok syms" and "stack_pid p" and "w \<in> kstack_pages p"
  shows "kernel_entry syms w = None" and "vpn_ok w"
proof -
  have w: "0x80801 \<le> unat (vpn_bits w)" "unat (vpn_bits w) < 2 ^ 27 - 1"
    using ks_range [OF assms(2)] assms(3) by (auto simp: kstack_pages_def pages_def)
  then have "w \<notin> seg_pages s" if "s \<in> set (kernel_segments syms)" for s
    using assms(1) that by (auto simp: syms_ok_def seg_ok_def seg_pages_def pages_def)
  with w show "kernel_entry syms w = None" "vpn_ok w"
    by (auto simp: kernel_entry_def seg_entry_def find_None_iff trampoline_vpn_def vpn_ok_def)
qed

lemma kstack_position:
  assumes "stack_pid p"
  shows "unat (take_bit 39 (fst (pid_kernel_stack_position p))) = ks_lo p * 4096"
    and "unat (take_bit 39 (snd (pid_kernel_stack_position p))) = ks_hi p * 4096"
proof -
  have eq: "pid_kernel_stack_position p = kernel_stack_position p"
    by (simp add: pid_kernel_stack_position_def kernel_stack_position_def)
  have "ks_lo p * 4096 = 2 ^ 39 - 4096 - unat p * 12288 - 8192" "ks_hi p * 4096 = 2 ^ 39 - 4096 - unat p * 12288"
    using assms by (simp_all add: stack_pid_def ks_lo_def ks_hi_def diff_mult_distrib)
  with take_bit_stack [OF assms] show "unat (take_bit 39 (fst (pid_kernel_stack_position p))) = ks_lo p * 4096"
    "unat (take_bit 39 (snd (pid_kernel_stack_position p))) = ks_hi p * 4096"
    unfolding eq by argo+
qed

text \<open>The space after \<open>new_kernel\<close>.\<close>

lemma kernel_ok_new_kernel:
  assumes "syms_ok syms" and v: "kernel_view syms st0 (kernel_segments syms) ks st"
  shows "kernel_ok syms st ks {}"
proof -
  have l: "list_all2 (\<lambda>s a. same_header (new_area (seg_lo s) (seg_hi s) Identical (snd (snd s))) a) (kernel_segments syms) (areas ks)"
    using v by (simp add: kernel_view_def)
  have "unat (vpn_bits (range_l (vpn_range a))) \<le> 0x80800" if "a \<in> set (areas ks)" for a
  proof -
    obtain s where s: "s \<in> set (kernel_segments syms)" "same_header (new_area (seg_lo s) (seg_hi s) Identical (snd (snd s))) a"
      using list_all2_in_set2 [OF l \<open>a \<in> set (areas ks)\<close>] by blast
    have "seg_ok s" using assms(1) s(1) by (simp add: syms_ok_def)
    then have "seg_lo s \<le> 0x80800" by (simp add: seg_ok_def)
    moreover from this have "unat (of_nat (seg_lo s) :: usize) = seg_lo s" by (intro unat_of_nat_less) simp
    ultimately show ?thesis using s(2) by (simp add: same_header_def new_area_def)
  qed
  then have "kernel_areas {} (areas ks)"
    unfolding kernel_areas_def by (intro exI [of _ "areas ks"] exI [of _ "[]"]) simp
  with v show ?thesis by (simp add: kernel_ok_def kernel_view_def built_def kernel_entry_def)
qed

text \<open>A space that is in order was built from a state in which its frames are free.\<close>

lemma ms_inv_built:
  assumes "ms_inv st ms"
  obtains st0 where "built st0 st ms"
proof -
  define fs where "fs = map ft_ppn (pt_frames (page_table ms) @ ms_trackers ms)"
  have fs: "set fs = ms_frames ms" by (simp add: fs_def ms_frames_def frames_of_def ms_data_def image_Un)
  define st0 where "st0 = st\<lparr>FRAME_ALLOCATOR := (FRAME_ALLOCATOR st)\<lparr>fa_recycled := fa_recycled (FRAME_ALLOCATOR st) @ map ppn_bits fs\<rparr>\<rparr>"
  have "ppn_bits p \<in> ppn_bits ` set fs \<longleftrightarrow> p \<in> set fs" for p
    using PhysPageNum.expand by (auto simp: image_iff)
  then have "in_use st0 = in_use st - ms_frames ms"
    by (auto simp: st0_def sfa_in_use_def fs)
  moreover have "mm_mem st0 = mm_mem st" by (simp add: st0_def)
  ultimately have "built st0 st ms"
    using assms ms_invD(3) [OF assms] by (auto simp: built_def)
  with that show ?thesis .
qed

subsection \<open>Creating and dropping a kernel stack\<close>

lemma kstack_new_area:
  assumes "stack_pid p"
  shows "set (area_pages (kstack_area p)) = kstack_pages p" and "pushable (kstack_area p) None"
    and "cost Framed (area_pages (kstack_area p)) \<le> 6"
proof -
  have le: "ks_lo p \<le> ks_hi p" "ks_hi p \<le> 2 ^ 27" "ks_hi p - ks_lo p = 2" using ks_range [OF assms] by simp_all
  show "set (area_pages (kstack_area p)) = kstack_pages p" "pushable (kstack_area p) None"
    using new_area_pages [OF le(1,2), of Framed "MP_R OR MP_W"] by (simp_all add: kstack_area_def kstack_pages_def)
  show "cost Framed (area_pages (kstack_area p)) \<le> 6"
    using small_cost [OF le(1,2), of "MP_R OR MP_W"] by (simp add: kstack_area_def le(3))
qed

text \<open>
  What a change of one address space may do to the rest: new frames come from the allocator, and
  memory changes in the frames of the space and in the new ones only.
\<close>

definition space_step :: "mm_state \<Rightarrow> MemorySet \<Rightarrow> mm_state \<Rightarrow> MemorySet \<Rightarrow> bool" where
  "space_step st ms st' ms' \<longleftrightarrow> in_use st \<subseteq> in_use st' \<and> ms_frames ms' = ms_frames ms \<union> (in_use st' - in_use st) \<and>
     same_outside (ms_frames ms \<union> (in_use st' - in_use st)) (mm_mem st) (mm_mem st')"

lemma kernel_areas_snoc:
  assumes "kernel_areas P as" and "p \<notin> P" and "same_header (kstack_area p) a"
  shows "kernel_areas (insert p P) (as @ [a])"
proof -
  obtain base stacks ps where "as = base @ stacks" "\<forall>b \<in> set base. unat (vpn_bits (range_l (vpn_range b))) \<le> 0x80800"
    "distinct ps" "set ps = P" "list_all2 (\<lambda>p a. same_header (kstack_area p) a) ps stacks"
    using assms(1) by (auto simp: kernel_areas_def)
  with assms(2,3) show ?thesis
    unfolding kernel_areas_def
    by (intro exI [of _ base] exI [of _ "stacks @ [a]"] exI [of _ "ps @ [p]"]) (auto simp: list_all2_appendI)
qed

lemma KernelStack_new_ok:
  assumes "syms_ok syms" and k: "kernel_ok syms st ks P" and p: "stack_pid p" "p \<notin> P" and "6 \<le> frames_left st"
  shows "\<exists>ks' st'. KernelStack_new (PidHandle p) (ks, st) = Inr (KernelStack p, ks', st') \<and> kernel_ok syms st' ks' (insert p P) \<and>
    space_step st ks st' ks' \<and> frames_left st \<le> frames_left st' + 6"
proof -
  have inv: "ms_inv st ks" and P: "\<forall>q \<in> P. stack_pid q" and ar: "kernel_areas P (areas ks)"
    and look: "\<And>w. vpn_ok w \<Longrightarrow> w \<notin> \<Union> (kstack_pages ` P) \<Longrightarrow> ms_lookup st ks w = kernel_entry syms w"
    using k by (auto simp: kernel_ok_def)
  from ms_inv_built [OF inv] obtain st0 where b: "built st0 st ks" .
  note na = kstack_new_area [OF p(1)]
  have dis: "kstack_pages p \<inter> \<Union> (kstack_pages ` P) = {}" using kstack_disjoint(2) [OF p(1)] P p(2) by blast
  have none: "\<forall>v \<in> set (area_pages (kstack_area p)). ms_lookup st ks v = None"
    unfolding na(1) using dis look kernel_entry_kstack [OF assms(1) p(1)] by fastforce
  have "cost (map_type (kstack_area p)) (area_pages (kstack_area p)) \<le> frames_left st"
    using na(3) assms(5) by (simp add: kstack_area_def)
  from push_total [OF b na(2) none this] obtain ks' st' where r: "push (kstack_area p) None (ks, st) = Inr (ks', st')" by blast
  from push_pushed [OF b na(2) r] obtain a where a: "pushed st0 st ks (kstack_area p) None st' ks' a" .
  have "MapArea_new (VirtAddr_from (fst (pid_kernel_stack_position p))) (VirtAddr_from (snd (pid_kernel_stack_position p))) Framed (MP_R OR MP_W)
      = Inr (kstack_area p)"
    unfolding kstack_area_def using kstack_position [OF p(1)] ks_range [OF p(1)] by (intro MapArea_new_pages) simp_all
  then have n: "KernelStack_new (PidHandle p) (ks, st) = Inr (KernelStack p, ks', st')"
    using r by (simp add: KernelStack_new_def insert_framed_area_def case_prod_beta)
  have b': "built st0 st' ks'" and ar': "areas ks' = areas ks @ [a]" "same_header (kstack_area p) a" and sub: "in_use st \<subseteq> in_use st'"
    and look': "\<And>w. vpn_ok w \<Longrightarrow> ms_lookup st' ks' w = (if w \<in> kstack_pages p then Some (area_entry a w) else ms_lookup st ks w)"
    and out: "same_outside (frames_of (page_table ks) \<union> (in_use st' - in_use st)) (mm_mem st) (mm_mem st')"
    and left: "frames_left st \<le> frames_left st' + cost Framed (area_pages (kstack_area p))"
    using a by (simp_all add: pushed_def na(1)) (simp add: kstack_area_def)
  have "kernel_ok syms st' ks' (insert p P)"
    unfolding kernel_ok_def ar'(1)
    using b' P p kernel_areas_snoc [OF ar p(2) ar'(2)] look look' by (auto simp: built_def)
  moreover have "space_step st ks st' ks'"
    using b b' sub out by (auto simp: space_step_def built_def ms_frames_def intro: same_outside_mono)
  ultimately show ?thesis using n left na(3) by (intro exI [of _ ks'] exI [of _ st']) auto
qed

lemma kstack_start:
  assumes "stack_pid p" and "same_header (kstack_area p) a"
  shows "range_l (vpn_range a) = VirtPageNum (of_nat (ks_lo p))" and "unat (vpn_bits (range_l (vpn_range a))) = ks_lo p"
    and "set (area_pages a) = kstack_pages p"
proof -
  show r: "range_l (vpn_range a) = VirtPageNum (of_nat (ks_lo p))"
    using assms(2) by (simp add: same_header_def kstack_area_def new_area_def)
  have "ks_lo p < 2 ^ 64" using ks_range [OF assms(1)] by simp
  then show "unat (vpn_bits (range_l (vpn_range a))) = ks_lo p" unfolding r by (simp only: VirtPageNum.sel unat_of_nat_less)
  show "set (area_pages a) = kstack_pages p"
    using assms kstack_new_area(1) [OF assms(1)] by (simp add: same_header_def)
qed

text \<open>The segment of a pid in use is the first one that starts where its stack does.\<close>

lemma kernel_areas_find:
  assumes "kernel_areas P as" and "\<forall>q \<in> P. stack_pid q" and "p \<in> P"
  shows "\<exists>xs a ys. as = xs @ a # ys \<and> same_header (kstack_area p) a \<and>
    (\<forall>b \<in> set xs. range_l (vpn_range b) \<noteq> VirtPageNum (of_nat (ks_lo p))) \<and> kernel_areas (P - {p}) (xs @ ys)"
proof -
  obtain base stacks ps where as: "as = base @ stacks" and base: "\<forall>b \<in> set base. unat (vpn_bits (range_l (vpn_range b))) \<le> 0x80800"
    and ps: "distinct ps" "set ps = P" and l: "list_all2 (\<lambda>p a. same_header (kstack_area p) a) ps stacks"
    using assms(1) by (auto simp: kernel_areas_def)
  obtain ps1 ps2 where split: "ps = ps1 @ p # ps2" using ps(2) assms(3) by (meson split_list)
  with l obtain s1 a s2 where st: "stacks = s1 @ a # s2" "list_all2 (\<lambda>p a. same_header (kstack_area p) a) ps1 s1"
    "same_header (kstack_area p) a" "list_all2 (\<lambda>p a. same_header (kstack_area p) a) ps2 s2"
    by (auto simp: list_all2_append1 list_all2_Cons1)
  note pp = ks_range [OF bspec [OF assms(2,3)]] and start = kstack_start [OF bspec [OF assms(2,3)] st(3)]
  have "range_l (vpn_range b) \<noteq> VirtPageNum (of_nat (ks_lo p))" if "b \<in> set (base @ s1)" for b
  proof (cases "b \<in> set base")
    case True
    then have "unat (vpn_bits (range_l (vpn_range b))) \<noteq> unat (vpn_bits (range_l (vpn_range a)))" using base pp(1) start(2) by fastforce
    then show ?thesis by (auto simp: start(1))
  next
    case False
    then obtain q where q: "q \<in> set ps1" "same_header (kstack_area q) b"
      using \<open>b \<in> set (base @ s1)\<close> list_all2_in_set2 [OF st(2), of b] by auto
    have "stack_pid q" "q \<noteq> p" using q(1) ps assms(2) split by auto
    then have "unat (vpn_bits (range_l (vpn_range b))) = ks_lo q" "ks_lo q \<noteq> ks_lo p"
      using kstack_start(2) [OF _ q(2)] kstack_disjoint(1) [OF _ bspec [OF assms(2,3)]] pp(2) ks_range(2) by fastforce+
    then show ?thesis using start by auto
  qed
  moreover have "kernel_areas (P - {p}) ((base @ s1) @ s2)"
    unfolding kernel_areas_def using base ps split st
    by (intro exI [of _ base] exI [of _ "s1 @ s2"] exI [of _ "ps1 @ ps2"]) (auto simp: list_all2_appendI)
  ultimately show ?thesis
    using as st(1,3) by (intro exI [of _ "base @ s1"] exI [of _ a] exI [of _ s2]) simp
qed

lemma kstack_drop_vpn:
  assumes "stack_pid p"
  shows "VirtPageNum_from_va (VirtAddr_from (fst (pid_kernel_stack_position p))) = Inr (VirtPageNum (of_nat (ks_lo p)))"
proof -
  let ?v = "VirtAddr_from (fst (pid_kernel_stack_position p))"
  have u: "unat (va_bits ?v) = ks_lo p * 4096" using kstack_position(1) [OF assms] by simp
  have "ks_lo p < 2 ^ 64" using ks_range [OF assms] by simp
  then have "unat (of_nat (ks_lo p) :: usize) = ks_lo p" by (rule unat_of_nat_less)
  then have "unat (vpn_bits (va_floor ?v)) = unat (of_nat (ks_lo p) :: usize)"
    unfolding unat_va_floor u by simp
  then have "va_floor ?v = VirtPageNum (of_nat (ks_lo p))" by (intro VirtPageNum_eqI) simp
  moreover have "va_page_offset ?v = 0"
    unfolding va_page_offset_take take_bit_12_eq_0_iff u by simp
  ultimately show ?thesis by (simp add: VirtPageNum_from_va_def)
qed

lemma KernelStack_drop_ok:
  assumes "syms_ok syms" and k: "kernel_ok syms st ks P" and p: "p \<in> P"
  shows "\<exists>ks' st'. KernelStack_drop (KernelStack p) (ks, st) = Inr (ks', st') \<and> kernel_ok syms st' ks' (P - {p}) \<and>
    page_table ks' = page_table ks \<and> ms_frames ks' \<subseteq> ms_frames ks \<and> in_use st' = in_use st - (ms_frames ks - ms_frames ks') \<and>
    same_outside (frames_of (page_table ks)) (mm_mem st) (mm_mem st')"
proof -
  have inv: "ms_inv st ks" and P: "\<forall>q \<in> P. stack_pid q" and ar: "kernel_areas P (areas ks)"
    and look: "\<And>w. vpn_ok w \<Longrightarrow> w \<notin> \<Union> (kstack_pages ` P) \<Longrightarrow> ms_lookup st ks w = kernel_entry syms w"
    using k by (auto simp: kernel_ok_def)
  have pp: "stack_pid p" using P p by blast
  from kernel_areas_find [OF ar P p] obtain xs a ys where split: "areas ks = xs @ a # ys" and h: "same_header (kstack_area p) a"
    and first: "\<forall>b \<in> set xs. range_l (vpn_range b) \<noteq> VirtPageNum (of_nat (ks_lo p))" and rest: "kernel_areas (P - {p}) (xs @ ys)" by blast
  note s = kstack_start [OF pp h]
  from remove_area_ok [OF inv split s(1) first] obtain ks' st' where
    r: "remove_area_with_start_vpn (VirtPageNum (of_nat (ks_lo p))) (ks, st) = Inr (ks', st')" "ms_inv st' ks'" "areas ks' = xs @ ys"
      "page_table ks' = page_table ks" "in_use st' = in_use st - area_data a"
      "same_outside (frames_of (page_table ks)) (mm_mem st) (mm_mem st')"
      "\<forall>w. vpn_ok w \<longrightarrow> ms_lookup st' ks' w = (if w \<in> kstack_pages p then None else ms_lookup st ks w)"
    unfolding s(3) by blast
  have "KernelStack_drop (KernelStack p) (ks, st) = Inr (ks', st')"
    using r(1) kstack_drop_vpn [OF pp] by (simp add: KernelStack_drop_def case_prod_beta)
  moreover have "kernel_ok syms st' ks' (P - {p})"
    unfolding kernel_ok_def
  proof (intro conjI allI impI ballI)
    show "kernel_areas (P - {p}) (areas ks')" using rest r(3) by simp
    fix w
    assume w: "vpn_ok w" "w \<notin> \<Union> (kstack_pages ` (P - {p}))"
    show "ms_lookup st' ks' w = kernel_entry syms w"
    proof (cases "w \<in> kstack_pages p")
      case True
      then show ?thesis using r(7) w kernel_entry_kstack [OF assms(1) pp] by simp
    next
      case False
      then have "w \<notin> \<Union> (kstack_pages ` P)" using w(2) by blast
      with False show ?thesis using r(7) w(1) look by simp
    qed
  qed (use r(2) P in auto)
  moreover have d: "ms_data ks' = ms_data ks - area_data a" "area_data a \<subseteq> ms_data ks" "ms_data ks \<inter> frames_of (page_table ks) = {}"
    using ms_middle(3) [OF split r(3)] inv ms_data_area [of a ks] split by (auto simp: ms_inv_def)
  then have "ms_frames ks' \<subseteq> ms_frames ks" "ms_frames ks - ms_frames ks' = area_data a"
    using r(4) by (auto simp: ms_frames_def)
  ultimately show ?thesis using r by blast
qed

text \<open>The entries of the pages of a stack.\<close>

lemma kstack_lookup:
  assumes "kernel_ok syms st ks P" and "p \<in> P" and "w \<in> kstack_pages p"
  obtains ppn where "ms_lookup st ks w = Some (PageTableEntry_new ppn (MP_R OR MP_W OR PTE_V))"
proof -
  have P: "\<forall>q \<in> P. stack_pid q" and ar: "kernel_areas P (areas ks)" and inv: "ms_inv st ks" using assms(1) by (auto simp: kernel_ok_def)
  obtain xs a ys where a: "areas ks = xs @ a # ys" "same_header (kstack_area p) a" using kernel_areas_find [OF ar P assms(2)] by blast
  have "w \<in> set (area_pages a)" using kstack_start(3) [OF bspec [OF P assms(2)] a(2)] assms(3) by simp
  moreover have "area_ok st (page_table ks) a" using ms_invD(4) [OF inv, of a] a(1) by simp
  ultimately have "ms_lookup st ks w = Some (area_entry a w)" by (simp add: area_ok_def)
  then show ?thesis using that a(2) by (simp add: area_entry_def same_header_def kstack_area_def or.assoc)
qed

subsection \<open>Properties\<close>

text \<open>
  C34: pids are unique.  A new pid is not in use, also when it is a recycled one; dropping its
  handle gives back exactly this pid, and dropping the handle a second time panics.
\<close>

theorem pid_alloc_unique:
  assumes "pida_inv a" and "pida_room a" and "pid_alloc a = (h, a')"
  shows "h \<notin> pida_in_use a \<and> pida_in_use a' = insert h (pida_in_use a) \<and> pida_inv a' \<and>
    (\<exists>a''. PidHandle_drop a' h = Inr a'' \<and> pida_in_use a'' = pida_in_use a \<and> (\<exists>e. PidHandle_drop a'' h = Inl e))"
proof -
  have al: "(case pida_alloc a of (h, a') \<Rightarrow> (Some h, a')) = (Some h, a')" using assms(3) by (simp add: pid_alloc_def)
  obtain a'' where d: "PidHandle_drop a' h = Inr a''" "pida_in_use a'' = pida_in_use a"
    using pids.alloc_then_dealloc [OF assms(1,2) al] by blast
  with pids.double_dealloc_panics [OF pids.alloc_inv [OF assms(1,2) al] d(1)]
    pids.alloc_fresh [OF assms(1,2) al] pids.alloc_in_use [OF assms(1,2) al] pids.alloc_inv [OF assms(1,2) al]
  show ?thesis by blast
qed

theorem pid_alloc_unique_witness:
  "let a = \<lparr>pida_current = 3, pida_recycled = [1]\<rparr>; a' = \<lparr>pida_current = 3, pida_recycled = []\<rparr> in
   pid_alloc a = (PidHandle 1, a') \<and> PidHandle 1 \<notin> pida_in_use a \<and> pida_in_use a' = insert (PidHandle 1) (pida_in_use a)"
proof -
  let ?a = "\<lparr>pida_current = 3, pida_recycled = [1]\<rparr>" and ?a' = "\<lparr>pida_current = 3, pida_recycled = []\<rparr>"
  have "pida_inv ?a" "pida_room ?a" "pid_alloc ?a = (PidHandle 1, ?a')"
    by (simp_all add: pida_inv_def pida_room_def pid_alloc_def pida_alloc_def vec_pop_def)
  with pid_alloc_unique [OF this] show ?thesis unfolding Let_def by blast
qed

text \<open>
  Kernel stacks do not overlap.  The two copies of \<open>kernel_stack_position\<close> agree; the stack of
  the larger of two pids lies below the other with at least a page between them, also after the
  truncation of the addresses to 39 bits, and above the identity-mapped memory.
\<close>

lemma kernel_stacks_guarded:
  assumes "stack_pid q" and "p < q"
  shows "pid_kernel_stack_position p = kernel_stack_position p \<and>
    unat (take_bit 39 (snd (pid_kernel_stack_position q))) + unat PAGE_SIZE \<le> unat (take_bit 39 (fst (pid_kernel_stack_position p))) \<and>
    unat MEMORY_END + unat PAGE_SIZE \<le> unat (take_bit 39 (fst (pid_kernel_stack_position q)))"
proof -
  have lt: "unat p < unat q" using assms(2) by (simp add: word_less_nat_alt)
  then have p: "stack_pid p" using assms(1) by (simp add: stack_pid_def)
  have "ks_hi q + 1 \<le> ks_lo p" using ks_range [OF p] ks_range [OF assms(1)] lt by linarith
  with ks_range(1) [OF assms(1)] show ?thesis
    unfolding kstack_position [OF p] kstack_position [OF assms(1)]
    by (simp add: pid_kernel_stack_position_def kernel_stack_position_def)
qed

text \<open>
  C33: the life of a kernel stack.  For a pid without a stack and with six free frames
  \<open>KernelStack::new\<close> succeeds and maps its two pages writable, not executable and not for user
  code; dropping the stack then succeeds, leaves the kernel space mapping what it mapped before, and
  gives back exactly the frames that leave the space.
\<close>

theorem kernel_stack_lifecycle:
  assumes "syms_ok syms" and "kernel_ok syms st ks P" and "stack_pid p" and "p \<notin> P" and "6 \<le> frames_left st"
  shows "\<exists>ks1 st1 ks2 st2. KernelStack_new (PidHandle p) (ks, st) = Inr (KernelStack p, ks1, st1) \<and>
    (\<forall>w \<in> kstack_pages p. \<exists>e. ms_lookup st1 ks1 w = Some e \<and> writable e \<and> \<not> executable e \<and> pte_flags e AND PTE_U = 0) \<and>
    KernelStack_drop (KernelStack p) (ks1, st1) = Inr (ks2, st2) \<and> kernel_ok syms st2 ks2 P \<and>
    (\<forall>w \<in> kstack_pages p. ms_lookup st2 ks2 w = None) \<and>
    ms_frames ks2 \<subseteq> ms_frames ks1 \<and> in_use st2 = in_use st1 - (ms_frames ks1 - ms_frames ks2)"
proof -
  obtain ks1 st1 where n: "KernelStack_new (PidHandle p) (ks, st) = Inr (KernelStack p, ks1, st1)" "kernel_ok syms st1 ks1 (insert p P)"
    using KernelStack_new_ok [OF assms] by blast
  obtain ks2 st2 where d: "KernelStack_drop (KernelStack p) (ks1, st1) = Inr (ks2, st2)" "kernel_ok syms st2 ks2 P"
    "in_use st2 = in_use st1 - (ms_frames ks1 - ms_frames ks2)" "ms_frames ks2 \<subseteq> ms_frames ks1"
    using KernelStack_drop_ok [OF assms(1) n(2) insertI1] assms(4) by auto
  have "\<exists>e. ms_lookup st1 ks1 w = Some e \<and> writable e \<and> \<not> executable e \<and> pte_flags e AND PTE_U = 0" if "w \<in> kstack_pages p" for w
  proof -
    from kstack_lookup [OF n(2) insertI1 that] obtain ppn
      where "ms_lookup st1 ks1 w = Some (PageTableEntry_new ppn (MP_R OR MP_W OR PTE_V))" .
    then show ?thesis by (simp add: perm_of_entry pte_flags_new MP_defs PTE_defs)
  qed
  moreover have "ms_lookup st2 ks2 w = None" if "w \<in> kstack_pages p" for w
  proof -
    have "w \<notin> \<Union> (kstack_pages ` P)" using that kstack_disjoint(2) [OF assms(3)] assms(2,4) by (fastforce simp: kernel_ok_def)
    with d(2) kernel_entry_kstack [OF assms(1,3) that] show ?thesis by (simp add: kernel_ok_def)
  qed
  ultimately show ?thesis using n d by blast
qed

theorem kernel_stack_lifecycle_witness:
  "\<exists>ks st ks1 st1 ks2 st2. new_kernel ex_syms ex_mm = Inr (ks, st) \<and> kernel_ok ex_syms st ks {} \<and> 6 \<le> frames_left st \<and>
     KernelStack_new (PidHandle 0) (ks, st) = Inr (KernelStack 0, ks1, st1) \<and>
     KernelStack_drop (KernelStack 0) (ks1, st1) = Inr (ks2, st2) \<and> kernel_ok ex_syms st2 ks2 {}"
proof -
  have left: "31 \<le> frames_left ex_mm" by (simp add: ex_mm_left)
  obtain ks st where k: "new_kernel ex_syms ex_mm = Inr (ks, st)" and v: "kernel_view ex_syms ex_mm (kernel_segments ex_syms) ks st"
    using new_kernel_view [OF ex_syms_ok ex_mm_inv left] by blast
  note ok = kernel_ok_new_kernel [OF ex_syms_ok v]
  have f: "6 \<le> frames_left st"
    using v segments_blocks [OF ex_syms_ok] by (simp add: kernel_view_def ex_mm_left)
  have "stack_pid 0" by (simp add: stack_pid_def)
  from kernel_stack_lifecycle [OF ex_syms_ok ok this _ f] k ok f show ?thesis by blast
qed

end
