(* ===== verification/UP_Cell.thy ===== *)
theory UP_Cell
  imports Prelude
begin

text \<open>
  \<open>UPSafeCell\<close> (\<^verbatim>\<open>src/os/src/sync/up.rs\<close>): a \<open>RefCell\<close> used by one hart only.  A cell carries the
  borrow flag of \<open>RefCell\<close>; \<open>exclusive_access\<close> takes the value out under the flag and panics when
  the flag is set, and the end of the life of the \<open>RefMut\<close> puts the value back.
\<close>

record 'a UPSafeCell =
  cell_borrowed :: bool
  cell_inner :: 'a

definition UPSafeCell_new :: "'a \<Rightarrow> 'a UPSafeCell" where
  "UPSafeCell_new v = \<lparr>cell_borrowed = False, cell_inner = v\<rparr>"

definition exclusive_access :: "'a UPSafeCell \<Rightarrow> ('a \<times> 'a UPSafeCell) result" where
  "exclusive_access c =
     (if cell_borrowed c then Inl AlreadyBorrowed else Inr (cell_inner c, c\<lparr>cell_borrowed := True\<rparr>))"

text \<open>\<open>Drop for RefMut\<close>, with the value as the borrower leaves it.\<close>

definition RefMut_drop :: "'a \<Rightarrow> 'a UPSafeCell \<Rightarrow> 'a UPSafeCell" where
  "RefMut_drop v c = c\<lparr>cell_borrowed := False, cell_inner := v\<rparr>"

lemma cell_simps [simp]:
  "cell_borrowed (UPSafeCell_new v) = False" "cell_inner (UPSafeCell_new v) = v"
  "cell_borrowed (RefMut_drop v c) = False" "cell_inner (RefMut_drop v c) = v"
  by (simp_all add: UPSafeCell_new_def RefMut_drop_def)

lemma exclusive_access_free [simp]:
  "\<not> cell_borrowed c \<Longrightarrow> exclusive_access c = Inr (cell_inner c, c\<lparr>cell_borrowed := True\<rparr>)"
  by (simp add: exclusive_access_def)

lemma exclusive_access_Inr:
  "exclusive_access c = Inr (v, c') \<longleftrightarrow> \<not> cell_borrowed c \<and> v = cell_inner c \<and> c' = c\<lparr>cell_borrowed := True\<rparr>"
  by (auto simp: exclusive_access_def)

lemma RefMut_drop_borrowed [simp]: "RefMut_drop v (c\<lparr>cell_borrowed := b\<rparr>) = RefMut_drop v c"
  by (simp add: RefMut_drop_def)

lemma RefMut_drop_eq: "RefMut_drop v c = UPSafeCell_new v"
  by (simp add: RefMut_drop_def UPSafeCell_new_def)

end
