(* ===== verification/Context.thy ===== *)
theory Context
  imports Phys_Memory
begin

text \<open>
  The two kinds of saved registers: \<open>TaskContext\<close> (\<^verbatim>\<open>src/os/src/task/context.rs\<close>), which
  \<open>__switch\<close> saves and loads, and \<open>TrapContext\<close> (\<^verbatim>\<open>src/os/src/trap/context.rs\<close>), which lies in a
  physical page of the process.  Both are \<^verbatim>\<open>repr(C)\<close>: a \<open>TrapContext\<close> is 37 words at the start
  of its page, and the kernel reads and writes single fields of it there.
\<close>

subsection \<open>\<open>TaskContext\<close>\<close>

record TaskContext =
  tc_ra :: usize
  tc_sp :: usize
  tc_s :: "usize list"

definition zero_init :: TaskContext where
  "zero_init = \<lparr>tc_ra = 0, tc_sp = 0, tc_s = replicate 12 0\<rparr>"

definition goto_trap_return :: "usize \<Rightarrow> usize \<Rightarrow> TaskContext" where
  "goto_trap_return trap_return kstack_ptr = \<lparr>tc_ra = trap_return, tc_sp = kstack_ptr, tc_s = replicate 12 0\<rparr>"

subsection \<open>\<open>TrapContext\<close>\<close>

record TrapContext =
  cx_x :: "usize list"
  cx_sstatus :: usize
  cx_sepc :: usize
  cx_kernel_satp :: usize
  cx_kernel_sp :: usize
  cx_trap_handler :: usize

definition set_sp :: "TrapContext \<Rightarrow> usize \<Rightarrow> TrapContext" where
  "set_sp cx sp = cx\<lparr>cx_x := (cx_x cx)[2 := sp]\<rparr>"

text \<open>
  \<open>sstatus\<close> is the value of the register after \<open>set_spp(SPP::User)\<close>, a call of the \<^verbatim>\<open>riscv\<close> crate.
\<close>

definition app_init_context :: "usize \<Rightarrow> usize \<Rightarrow> usize \<Rightarrow> usize \<Rightarrow> usize \<Rightarrow> usize \<Rightarrow> TrapContext" where
  "app_init_context sstatus entry sp kernel_satp kernel_sp trap_handler =
     (let cx = \<lparr>cx_x = replicate 32 0, cx_sstatus = sstatus, cx_sepc = entry, cx_kernel_satp = kernel_satp,
                cx_kernel_sp = kernel_sp, cx_trap_handler = trap_handler\<rparr>
      in set_sp cx sp)"

subsection \<open>The layout in memory\<close>

definition trap_words :: "TrapContext \<Rightarrow> usize list" where
  "trap_words cx = cx_x cx @ [cx_sstatus cx, cx_sepc cx, cx_kernel_satp cx, cx_kernel_sp cx, cx_trap_handler cx]"

text \<open>The address of word \<open>i\<close> of a \<open>TrapContext\<close> at \<open>a\<close>.\<close>

definition cx_field :: "usize \<Rightarrow> usize \<Rightarrow> usize" where
  "cx_field a i = a + 8 * i"

fun write_words :: "memory \<Rightarrow> usize \<Rightarrow> nat \<Rightarrow> usize list \<Rightarrow> memory" where
  "write_words m a i [] = m"
| "write_words m a i (w # ws) = write_words (write_u64 m (cx_field a (of_nat i)) w) a (Suc i) ws"

text \<open>\<open>*trap_cx = cx\<close>\<close>

definition write_trap_cx :: "memory \<Rightarrow> usize \<Rightarrow> TrapContext \<Rightarrow> memory" where
  "write_trap_cx m a cx = write_words m a 0 (trap_words cx)"

definition read_trap_cx :: "memory \<Rightarrow> usize \<Rightarrow> TrapContext" where
  "read_trap_cx m a =
     \<lparr>cx_x = map (\<lambda>i. read_u64 m (cx_field a (of_nat i))) [0..<32], cx_sstatus = read_u64 m (cx_field a 32),
      cx_sepc = read_u64 m (cx_field a 33), cx_kernel_satp = read_u64 m (cx_field a 34),
      cx_kernel_sp = read_u64 m (cx_field a 35), cx_trap_handler = read_u64 m (cx_field a 36)\<rparr>"

definition trap_cx_ok :: "TrapContext \<Rightarrow> bool" where
  "trap_cx_ok cx \<longleftrightarrow> length (cx_x cx) = 32"

lemma app_init_context_ok: "trap_cx_ok (app_init_context ss entry sp ksatp ksp th)"
  by (simp add: trap_cx_ok_def app_init_context_def set_sp_def Let_def)

subsection \<open>Fields of a context in a physical page\<close>

text \<open>In a page the words of the context are the slots of the page.\<close>

lemma cx_field_slot: "cx_field (page_base p) i = get_pte_array p i"
  by (simp add: cx_field_def get_pte_array_def)

lemma field_slot: "read_u64 m (cx_field (page_base p) i) = slot m p i"
  by (simp add: cx_field_slot slot_def)

lemma slot_write_words:
  assumes "ppn_ok p" and "i + length ws \<le> 512" and "j < 512"
  shows "slot (write_words m (page_base p) i ws) p (of_nat j) = (if i \<le> j \<and> j < i + length ws then ws ! (j - i) else slot m p (of_nat j))"
  using assms
proof (induction ws arbitrary: m i)
  case Nil
  then show ?case by auto
next
  case (Cons w ws)
  let ?m = "write_u64 m (get_pte_array p (of_nat i)) w"
  have small: "unat (of_nat i :: usize) = i" "unat (of_nat j :: usize) = j" using Cons.prems by simp_all
  have m: "slot ?m p (of_nat j) = (if j = i then w else slot m p (of_nat j))"
  proof (cases "j = i")
    case True
    then show ?thesis by (simp add: slot_write_same)
  next
    case False
    then have "(of_nat i :: usize) \<noteq> of_nat j" using small by metis
    then show ?thesis using False Cons.prems small by (subst slot_write_other) auto
  qed
  have "slot (write_words ?m (page_base p) (Suc i) ws) p (of_nat j) =
      (if Suc i \<le> j \<and> j < Suc i + length ws then ws ! (j - Suc i) else slot ?m p (of_nat j))"
    using Cons.prems by (intro Cons.IH) auto
  then show ?case using m by (auto simp: cx_field_slot nth_Cons')
qed

lemma same_outside_write_words:
  assumes "ppn_ok p" and "i + length ws \<le> 512"
  shows "same_outside {p} m (write_words m (page_base p) i ws)"
  using assms(2)
proof (induction ws arbitrary: m i)
  case Nil
  then show ?case by simp
next
  case (Cons w ws)
  have "same_outside {p} m (write_u64 m (get_pte_array p (of_nat i)) w)"
    using Cons.prems by (intro same_outside_slot_write assms(1)) simp
  with Cons.IH [of "Suc i" "write_u64 m (get_pte_array p (of_nat i)) w"] Cons.prems show ?case
    by (auto simp: cx_field_slot intro: same_outside_trans)
qed

lemma length_trap_words: "trap_cx_ok cx \<Longrightarrow> length (trap_words cx) = 37"
  by (simp add: trap_words_def trap_cx_ok_def)

lemma same_outside_write_trap_cx:
  assumes "ppn_ok p" and "trap_cx_ok cx"
  shows "same_outside {p} m (write_trap_cx m (page_base p) cx)"
  unfolding write_trap_cx_def using length_trap_words [OF assms(2)]
  by (intro same_outside_write_words assms(1)) simp

lemma read_write_trap_cx:
  assumes "ppn_ok p" and "trap_cx_ok cx"
  shows "read_trap_cx (write_trap_cx m (page_base p) cx) (page_base p) = cx"
proof -
  have l: "length (cx_x cx) = 32" using assms(2) by (simp add: trap_cx_ok_def)
  have s: "slot (write_trap_cx m (page_base p) cx) p (of_nat j) = trap_words cx ! j" if "j < 37" for j
    unfolding write_trap_cx_def using assms that length_trap_words [OF assms(2)]
    by (subst slot_write_words) auto
  have "map (\<lambda>i. slot (write_trap_cx m (page_base p) cx) p (of_nat i)) [0..<32] = cx_x cx"
    using l by (intro nth_equalityI) (auto simp: s trap_words_def nth_append)
  moreover have "slot (write_trap_cx m (page_base p) cx) p 32 = cx_sstatus cx" "slot (write_trap_cx m (page_base p) cx) p 33 = cx_sepc cx"
    "slot (write_trap_cx m (page_base p) cx) p 34 = cx_kernel_satp cx" "slot (write_trap_cx m (page_base p) cx) p 35 = cx_kernel_sp cx"
    "slot (write_trap_cx m (page_base p) cx) p 36 = cx_trap_handler cx"
    using s [of 32] s [of 33] s [of 34] s [of 35] s [of 36] l by (simp_all add: trap_words_def nth_append)
  ultimately show ?thesis by (simp add: read_trap_cx_def field_slot)
qed

text \<open>Writing one field of a context in its page.\<close>

lemma words_upt: "[0..<37 :: nat] = [0..<32] @ [32, 33, 34, 35, 36]"
  using upt_add_eq_append [of 0 32 5] by (simp add: upt_rec)

lemma read_trap_cx_write_field:
  assumes "ppn_ok p" and "i < 37"
  shows "trap_words (read_trap_cx (write_u64 m (cx_field (page_base p) (of_nat i)) w) (page_base p)) =
    (trap_words (read_trap_cx m (page_base p)))[i := w]"
proof -
  have tw: "trap_words (read_trap_cx m' (page_base p)) = map (\<lambda>j. slot m' p (of_nat j)) [0..<37]" for m'
    unfolding words_upt by (simp add: trap_words_def read_trap_cx_def field_slot)
  have "slot (write_u64 m (get_pte_array p (of_nat i)) w) p (of_nat j) = (if j = i then w else slot m p (of_nat j))" if "j < 37" for j
    using slot_write_words [OF assms(1), of i "[w]" j m] assms(2) that by (auto simp: cx_field_slot)
  then show ?thesis
    unfolding tw cx_field_slot by (intro nth_equalityI) (auto simp: nth_list_update)
qed

lemma page_bytes_trap_cx:
  assumes "page_bytes m p = page_bytes m' q" and "ppn_ok p" and "ppn_ok q"
  shows "read_trap_cx m (page_base p) = read_trap_cx m' (page_base q)"
proof -
  have "slot m p i = slot m' q i" if "unat i < 512" for i
  proof -
    have "read_bytes m (page_base p + 8 * i) 8 = read_bytes m' (page_base q + 8 * i) 8"
    proof (rule nth_equalityI)
      fix k
      assume "k < length (read_bytes m (page_base p + 8 * i) 8)"
      then have k: "k < 8" by simp
      let ?j = "8 * unat i + k"
      have j: "?j < 4096" using k \<open>unat i < 512\<close> by linarith
      have o: "a + 8 * i + of_nat k = a + of_nat ?j" for a :: usize by (simp add: add.assoc)
      have "m (page_base p + of_nat ?j) = m' (page_base q + of_nat ?j)"
        using arg_cong [OF assms(1), of "\<lambda>bs. bs ! ?j"] unfolding page_bytes_eq nth_read_bytes [OF j] .
      then show "read_bytes m (page_base p + 8 * i) 8 ! k = read_bytes m' (page_base q + 8 * i) 8 ! k"
        unfolding nth_read_bytes [OF k] o .
    qed simp
    then show ?thesis by (simp add: slot_def read_u64_def get_pte_array_def)
  qed
  then show ?thesis by (simp add: read_trap_cx_def field_slot)
qed

end
