(* ===== verification/Task.thy ===== *)
theory Task
  imports Pid UP_Cell Context
begin

text \<open>
  Task control blocks (\<^verbatim>\<open>src/os/src/task/task.rs\<close>) and the state of the kernel they live in.  An
  \<open>Arc<TaskControlBlock>\<close> is a reference to a cell with a strong count; every clone and every drop
  of the code is written out, and the drop of the last reference drops the control block: it gives
  back the pid, the kernel stack, the address space and the references to the children, in the
  order of the fields.  \<open>Weak\<close> references do not count.
\<close>

subsection \<open>Data\<close>

type_synonym task_ref = nat

datatype TaskStatus = Ready | Running | Zombie

record TaskControlBlockInner =
  trap_cx_ppn :: PhysPageNum
  base_size :: usize
  task_cx :: TaskContext
  task_status :: TaskStatus
  memory_set :: MemorySet
  parent :: "task_ref option"
  children :: "task_ref list"
  exit_code :: i32

record TaskControlBlock =
  tcb_pid :: PidHandle
  kernel_stack :: KernelStack
  tcb_inner :: "TaskControlBlockInner UPSafeCell"

record ArcInner =
  strong :: nat
  arc_data :: TaskControlBlock

record TaskManager =
  ready_queue :: "task_ref list"

record Processor =
  current :: "task_ref option"
  idle_task_cx :: TaskContext

text \<open>
  What the code takes from outside: the symbols of the linker script and of the assembly files, the
  parser of ELF files and the value of \<open>sstatus\<close> for user mode.
\<close>

record kernel_env =
  env_syms :: linker_symbols
  env_elf_new :: "u8 list \<Rightarrow> elf_file option"
  env_sstatus :: usize
  env_trap_handler :: usize
  env_trap_return :: usize
  env_trap_from_kernel :: usize
  env_alltraps :: usize
  env_restore :: usize
  env_sbss :: usize
  env_num_app :: usize
  env_app_names :: usize

text \<open>
  Where a task that is switched out goes on when it is switched to again: in \<open>trap_return\<close> when it
  is new, else after the call of \<open>suspend_current_and_run_next\<close> that its kernel stack returns to.
\<close>

datatype resume = ResumeTrapReturn | ResumeYield | ResumeTimer | ResumeRead usize usize usize

text \<open>
  The statics of the kernel, the cells of the control blocks, the callee-saved registers of the
  hart, its \<open>satp\<close>, the activation records on the kernel stacks, the trap vector, the bit of \<open>sie\<close> that enables timer
  interrupts, the next timer interrupt, and the characters sent to the console.  A static behind a \<open>UPSafeCell\<close> is held by its value: every borrow of it ends
  within the statement or block modelled.
\<close>

record kernel =
  mm :: mm_state
  KERNEL_SPACE :: MemorySet
  PID_ALLOCATOR :: PidAllocator
  arcs :: "ArcInner option list"
  TASK_MANAGER :: TaskManager
  PROCESSOR :: Processor
  INITPROC :: "task_ref option"
  cpu :: TaskContext
  frames :: "task_ref \<Rightarrow> resume"
  khart :: hart
  stvec :: usize
  sie_stimer :: bool
  timer :: usize
  console :: "nat list"

subsection \<open>References\<close>

definition arc_get :: "task_ref \<Rightarrow> kernel \<Rightarrow> ArcInner result" where
  "arc_get t k = (if t < length (arcs k) then (case arcs k ! t of Some c \<Rightarrow> Inr c | None \<Rightarrow> Inl UseAfterFree) else Inl UseAfterFree)"

definition arc_set :: "task_ref \<Rightarrow> ArcInner option \<Rightarrow> kernel \<Rightarrow> kernel" where
  "arc_set t c k = k\<lparr>arcs := (arcs k)[t := c]\<rparr>"

text \<open>
  \<open>Arc::new\<close>, \<open>Arc::clone\<close> and \<open>Arc::strong_count\<close>.  The kernel stack of a new task is empty.
\<close>

definition Arc_new :: "TaskControlBlock \<Rightarrow> kernel \<Rightarrow> task_ref \<times> kernel" where
  "Arc_new tcb k =
     (length (arcs k),
      k\<lparr>arcs := arcs k @ [Some \<lparr>strong = 1, arc_data = tcb\<rparr>], frames := (frames k)(length (arcs k) := ResumeTrapReturn)\<rparr>)"

definition Arc_clone :: "task_ref \<Rightarrow> kernel \<Rightarrow> kernel result" where
  "Arc_clone t k = bind (arc_get t k) (\<lambda>c. Inr (arc_set t (Some (c\<lparr>strong := strong c + 1\<rparr>)) k))"

definition Arc_strong_count :: "task_ref \<Rightarrow> kernel \<Rightarrow> nat result" where
  "Arc_strong_count t k = bind (arc_get t k) (\<lambda>c. Inr (strong c))"

text \<open>
  \<open>Drop for Arc\<close>.  The nesting of drops is at most the number of cells, since each level frees one.
\<close>

primrec arc_drop :: "nat \<Rightarrow> task_ref \<Rightarrow> kernel \<Rightarrow> kernel result" where
  "arc_drop 0 t k = Inl StackOverflow"
| "arc_drop (Suc n) t k =
     bind (arc_get t k) (\<lambda>c.
     if 1 < strong c then Inr (arc_set t (Some (c\<lparr>strong := strong c - 1\<rparr>)) k)
     else
       (let k = arc_set t None k;
            tcb = arc_data c;
            inner = cell_inner (tcb_inner tcb)
        in bind (PidHandle_drop (PID_ALLOCATOR k) (tcb_pid tcb)) (\<lambda>pa.
           bind (KernelStack_drop (kernel_stack tcb) (KERNEL_SPACE k, mm k)) (\<lambda>(ks, st).
           bind (MemorySet_drop st (memory_set inner)) (\<lambda>st.
           for_each (arc_drop n) (children inner) (k\<lparr>PID_ALLOCATOR := pa, KERNEL_SPACE := ks, mm := st\<rparr>))))))"

definition Arc_drop :: "task_ref \<Rightarrow> kernel \<Rightarrow> kernel result" where
  "Arc_drop t k = arc_drop (Suc (length (arcs k))) t k"

subsection \<open>\<open>TaskControlBlockInner\<close>\<close>

definition get_trap_cx :: "TaskControlBlockInner \<Rightarrow> usize result" where
  "get_trap_cx inner = ppn_get_mut (trap_cx_ppn inner)"

definition get_user_token :: "TaskControlBlockInner \<Rightarrow> usize" where
  "get_user_token inner = ms_token (memory_set inner)"

definition get_status :: "TaskControlBlockInner \<Rightarrow> TaskStatus" where
  "get_status inner = task_status inner"

definition is_zombie :: "TaskControlBlockInner \<Rightarrow> bool" where
  "is_zombie inner \<longleftrightarrow> get_status inner = Zombie"

subsection \<open>\<open>TaskControlBlock\<close>\<close>

text \<open>\<open>inner_exclusive_access\<close>, and the end of the life of the \<open>RefMut\<close> it returns.\<close>

definition inner_exclusive_access :: "task_ref \<Rightarrow> kernel \<Rightarrow> (TaskControlBlockInner \<times> kernel) result" where
  "inner_exclusive_access t k =
     bind (arc_get t k) (\<lambda>c.
     bind (exclusive_access (tcb_inner (arc_data c))) (\<lambda>(inner, cell).
     Inr (inner, arc_set t (Some (c\<lparr>arc_data := (arc_data c)\<lparr>tcb_inner := cell\<rparr>\<rparr>)) k)))"

definition inner_release :: "task_ref \<Rightarrow> TaskControlBlockInner \<Rightarrow> kernel \<Rightarrow> kernel result" where
  "inner_release t inner k =
     bind (arc_get t k) (\<lambda>c.
     Inr (arc_set t (Some (c\<lparr>arc_data := (arc_data c)\<lparr>tcb_inner := RefMut_drop inner (tcb_inner (arc_data c))\<rparr>\<rparr>)) k))"

definition getpid :: "TaskControlBlock \<Rightarrow> usize" where
  "getpid tcb = pid_num (tcb_pid tcb)"

text \<open>\<open>memory_set.translate(VirtAddr::from(TRAP_CONTEXT).into()).unwrap().ppn()\<close>\<close>

definition find_trap_cx_ppn :: "memory \<Rightarrow> MemorySet \<Rightarrow> PhysPageNum result" where
  "find_trap_cx_ppn m ms =
     bind (VirtPageNum_from_va (VirtAddr_from TRAP_CONTEXT)) (\<lambda>vpn.
     bind (unwrap (ms_translate m ms vpn)) (\<lambda>pte. Inr (pte_ppn pte)))"

definition TaskControlBlock_new :: "kernel_env \<Rightarrow> u8 list \<Rightarrow> kernel \<Rightarrow> (TaskControlBlock \<times> kernel) result" where
  "TaskControlBlock_new env elf_data k =
     bind (from_elf (env_elf_new env) (env_syms env) elf_data (mm k)) (\<lambda>((memory_set, user_sp, entry_point), st).
     bind (find_trap_cx_ppn (mm_mem st) memory_set) (\<lambda>trap_cx_ppn.
     let (pid_handle, pa) = pid_alloc (PID_ALLOCATOR k)
     in bind (KernelStack_new pid_handle (KERNEL_SPACE k, st)) (\<lambda>(kernel_stack, ks, st).
        let kernel_stack_top = get_top kernel_stack;
            inner = \<lparr>trap_cx_ppn = trap_cx_ppn, base_size = user_sp,
                     task_cx = goto_trap_return (env_trap_return env) kernel_stack_top, task_status = Ready,
                     memory_set = memory_set, parent = None, children = [], exit_code = 0\<rparr>;
            task_control_block = \<lparr>tcb_pid = pid_handle, kernel_stack = kernel_stack, tcb_inner = UPSafeCell_new inner\<rparr>
        in bind (get_trap_cx inner) (\<lambda>trap_cx.
           let m = write_trap_cx (mm_mem st) trap_cx
                     (app_init_context (env_sstatus env) entry_point user_sp (ms_token ks) kernel_stack_top (env_trap_handler env))
           in Inr (task_control_block, k\<lparr>mm := st\<lparr>mm_mem := m\<rparr>, KERNEL_SPACE := ks, PID_ALLOCATOR := pa\<rparr>)))))"

text \<open>The assignment to \<open>inner.memory_set\<close> drops the old address space.\<close>

definition exec :: "kernel_env \<Rightarrow> task_ref \<Rightarrow> u8 list \<Rightarrow> kernel \<Rightarrow> kernel result" where
  "exec env t elf_data k =
     bind (from_elf (env_elf_new env) (env_syms env) elf_data (mm k)) (\<lambda>((memory_set, user_sp, entry_point), st).
     bind (find_trap_cx_ppn (mm_mem st) memory_set) (\<lambda>trap_cx_ppn.
     bind (inner_exclusive_access t (k\<lparr>mm := st\<rparr>)) (\<lambda>(inner, k).
     bind (MemorySet_drop (mm k) (TaskControlBlockInner.memory_set inner)) (\<lambda>st.
     let inner = inner\<lparr>memory_set := memory_set\<rparr>;
         inner = inner\<lparr>trap_cx_ppn := trap_cx_ppn\<rparr>
     in bind (get_trap_cx inner) (\<lambda>trap_cx.
        bind (arc_get t k) (\<lambda>c.
        let m = write_trap_cx (mm_mem st) trap_cx
                  (app_init_context (env_sstatus env) entry_point user_sp (ms_token (KERNEL_SPACE k))
                     (get_top (kernel_stack (arc_data c))) (env_trap_handler env))
        in inner_release t inner (k\<lparr>mm := st\<lparr>mm_mem := m\<rparr>\<rparr>)))))))"

definition fork :: "kernel_env \<Rightarrow> task_ref \<Rightarrow> kernel \<Rightarrow> (task_ref \<times> kernel) result" where
  "fork env t k =
     bind (inner_exclusive_access t k) (\<lambda>(parent_inner, k).
     bind (from_existed_user (env_syms env) (memory_set parent_inner) (mm k)) (\<lambda>(memory_set, st).
     bind (find_trap_cx_ppn (mm_mem st) memory_set) (\<lambda>trap_cx_ppn.
     let (pid_handle, pa) = pid_alloc (PID_ALLOCATOR k)
     in bind (KernelStack_new pid_handle (KERNEL_SPACE k, st)) (\<lambda>(kernel_stack, ks, st).
        let kernel_stack_top = get_top kernel_stack;
            (child, k) = Arc_new
              \<lparr>tcb_pid = pid_handle, kernel_stack = kernel_stack, tcb_inner = UPSafeCell_new
                 \<lparr>trap_cx_ppn = trap_cx_ppn, base_size = base_size parent_inner,
                  task_cx = goto_trap_return (env_trap_return env) kernel_stack_top, task_status = Ready,
                  memory_set = memory_set, parent = Some t, children = [], exit_code = 0\<rparr>\<rparr>
              (k\<lparr>mm := st, KERNEL_SPACE := ks, PID_ALLOCATOR := pa\<rparr>)
        in bind (Arc_clone child k) (\<lambda>k.
           let parent_inner = parent_inner\<lparr>children := vec_push (children parent_inner) child\<rparr>
           in bind (inner_exclusive_access child k) (\<lambda>(child_inner, k).
              bind (get_trap_cx child_inner) (\<lambda>trap_cx.
              bind (inner_release child child_inner k) (\<lambda>k.
              let k = k\<lparr>mm := (mm k)\<lparr>mm_mem := write_u64 (mm_mem (mm k)) (cx_field trap_cx 35) kernel_stack_top\<rparr>\<rparr>
              in bind (inner_release t parent_inner k) (\<lambda>k.
                 Inr (child, k))))))))))"

end
