(* ===== verification/Utf8.thy ===== *)
theory Utf8
  imports Prelude
begin

text \<open>
  \<open>core::str::from_utf8\<close> and \<open>chars()\<close>, as the console and the loader use them: a sequence of
  bytes is either the UTF-8 form of a sequence of characters or refused.  A character is the
  number of its code point.
\<close>

definition cont :: "nat \<Rightarrow> bool" where
  "cont b \<longleftrightarrow> 0x80 \<le> b \<and> b \<le> 0xBF"

text \<open>Well-formed sequences of two, three and four bytes (Table 3-7 of the Unicode standard).\<close>

definition utf8_2 :: "nat \<Rightarrow> nat \<Rightarrow> bool" where
  "utf8_2 a b \<longleftrightarrow> 0xC2 \<le> a \<and> a \<le> 0xDF \<and> cont b"

definition utf8_3 :: "nat \<Rightarrow> nat \<Rightarrow> nat \<Rightarrow> bool" where
  "utf8_3 a b c \<longleftrightarrow> 0xE0 \<le> a \<and> a \<le> 0xEF \<and> cont b \<and> cont c \<and> (a = 0xE0 \<longrightarrow> 0xA0 \<le> b) \<and> (a = 0xED \<longrightarrow> b \<le> 0x9F)"

definition utf8_4 :: "nat \<Rightarrow> nat \<Rightarrow> nat \<Rightarrow> nat \<Rightarrow> bool" where
  "utf8_4 a b c d \<longleftrightarrow> 0xF0 \<le> a \<and> a \<le> 0xF4 \<and> cont b \<and> cont c \<and> cont d \<and> (a = 0xF0 \<longrightarrow> 0x90 \<le> b) \<and> (a = 0xF4 \<longrightarrow> b \<le> 0x8F)"

function utf8_decode :: "nat list \<Rightarrow> nat list option" where
  "utf8_decode bs =
     (case bs of
        [] \<Rightarrow> Some []
      | a # bs1 \<Rightarrow>
          if a < 0x80 then map_option (Cons a) (utf8_decode bs1)
          else (case bs1 of
            [] \<Rightarrow> None
          | b # bs2 \<Rightarrow>
              if utf8_2 a b then map_option (Cons ((a - 0xC0) * 64 + (b - 0x80))) (utf8_decode bs2)
              else (case bs2 of
                [] \<Rightarrow> None
              | c # bs3 \<Rightarrow>
                  if utf8_3 a b c then map_option (Cons ((a - 0xE0) * 4096 + (b - 0x80) * 64 + (c - 0x80))) (utf8_decode bs3)
                  else (case bs3 of
                    [] \<Rightarrow> None
                  | d # bs4 \<Rightarrow>
                      if utf8_4 a b c d
                      then map_option (Cons ((a - 0xF0) * 262144 + (b - 0x80) * 4096 + (c - 0x80) * 64 + (d - 0x80))) (utf8_decode bs4)
                      else None))))"
  by pat_completeness auto
termination by (relation "measure length") auto

declare utf8_decode.simps [simp del]

definition from_utf8 :: "u8 list \<Rightarrow> nat list option" where
  "from_utf8 bs = utf8_decode (map unat bs)"

lemma utf8_decode_simps [simp]:
  "utf8_decode [] = Some []"
  "a < 0x80 \<Longrightarrow> utf8_decode (a # bs) = map_option (Cons a) (utf8_decode bs)"
  "utf8_2 a b \<Longrightarrow> utf8_decode (a # b # bs) = map_option (Cons ((a - 0xC0) * 64 + (b - 0x80))) (utf8_decode bs)"
  "utf8_3 a b c \<Longrightarrow> utf8_decode (a # b # c # bs) =
     map_option (Cons ((a - 0xE0) * 4096 + (b - 0x80) * 64 + (c - 0x80))) (utf8_decode bs)"
  "utf8_4 a b c d \<Longrightarrow> utf8_decode (a # b # c # d # bs) =
     map_option (Cons ((a - 0xF0) * 262144 + (b - 0x80) * 4096 + (c - 0x80) * 64 + (d - 0x80))) (utf8_decode bs)"
  by (subst utf8_decode.simps; auto simp: utf8_2_def utf8_3_def utf8_4_def)+

text \<open>A sequence that is cut inside a character is refused.\<close>

lemma utf8_decode_cut:
  assumes "0x80 \<le> a"
  shows "utf8_decode [a] = None"
  using assms by (subst utf8_decode.simps) simp

lemma from_utf8_ascii:
  assumes "\<forall>b \<in> set bs. unat b < 0x80"
  shows "from_utf8 bs = Some (map unat bs)"
  using assms by (induction bs) (simp_all add: from_utf8_def)

end
