(* ===== verification/Loader.thy ===== *)
theory Loader
  imports Utf8 Phys_Memory
begin

text \<open>
  The applications linked into the kernel image (\<^verbatim>\<open>src/os/src/loader.rs\<close>).  The table at \<open>_num_app\<close>
  and the names at \<open>_app_names\<close> are read from memory, where \<^verbatim>\<open>link_app.S\<close> puts them; the two
  symbols are arguments.  \<open>APP_NAMES\<close> is a lazy static computed from memory that the kernel does
  not write, so it is computed where it is used.
\<close>

definition get_num_app :: "usize \<Rightarrow> memory \<Rightarrow> usize" where
  "get_num_app num_app_sym m = read_u64 m num_app_sym"

text \<open>Element \<open>i\<close> of the slice \<open>app_start\<close> of length \<open>num_app + 1\<close>.\<close>

definition app_start :: "usize \<Rightarrow> memory \<Rightarrow> usize \<Rightarrow> usize result" where
  "app_start num_app_sym m i =
     (if i < get_num_app num_app_sym m + 1 then Inr (read_u64 m (num_app_sym + 8 + 8 * i))
      else Inl (IndexOutOfBounds (unat i)))"

definition get_app_data :: "usize \<Rightarrow> memory \<Rightarrow> usize \<Rightarrow> u8 list result" where
  "get_app_data num_app_sym m app_id =
     (let num_app = get_num_app num_app_sym m
      in bind (assert_that (app_id < num_app) (AppId app_id)) (\<lambda>_.
         bind (app_start num_app_sym m app_id) (\<lambda>a.
         bind (app_start num_app_sym m (app_id + 1)) (\<lambda>b.
         Inr (read_bytes m a (unat (b - a)))))))"

partial_function (option) name_end :: "memory \<Rightarrow> usize \<Rightarrow> usize option" where
  "name_end m e = (if m e \<noteq> 0 then name_end m (e + 1) else Some e)"

primrec app_names_loop :: "nat \<Rightarrow> memory \<Rightarrow> usize \<Rightarrow> nat list list \<Rightarrow> nat list list result option" where
  "app_names_loop 0 m start v = Some (Inr v)"
| "app_names_loop (Suc n) m start v =
     (case name_end m start of
        None \<Rightarrow> None
      | Some e \<Rightarrow>
          obind (Some (unwrap (from_utf8 (read_bytes m start (unat (e - start)))))) (\<lambda>str.
          app_names_loop n m (e + 1) (vec_push v str)))"

definition APP_NAMES :: "usize \<Rightarrow> usize \<Rightarrow> memory \<Rightarrow> nat list list result option" where
  "APP_NAMES num_app_sym names_sym m = app_names_loop (unat (get_num_app num_app_sym m)) m names_sym []"

definition get_app_data_by_name :: "usize \<Rightarrow> usize \<Rightarrow> nat list \<Rightarrow> memory \<Rightarrow> u8 list option result option" where
  "get_app_data_by_name num_app_sym names_sym name m =
     (let num_app = get_num_app num_app_sym m
      in obind (APP_NAMES num_app_sym names_sym m) (\<lambda>names.
         case find (\<lambda>i. names ! i = name) [0..<unat num_app] of
           None \<Rightarrow> Some (Inr None)
         | Some i \<Rightarrow> Some (bind (get_app_data num_app_sym m (of_nat i)) (\<lambda>data. Inr (Some data)))))"

text \<open>The characters that \<open>list_apps\<close> prints.\<close>

definition list_apps :: "usize \<Rightarrow> usize \<Rightarrow> memory \<Rightarrow> nat list result option" where
  "list_apps num_app_sym names_sym m =
     obind (APP_NAMES num_app_sym names_sym m) (\<lambda>names.
     Some (Inr (map of_char ''/**** APPS ****'' @ [10] @ concat (map (\<lambda>app. app @ [10]) names) @ map of_char ''**************/'' @ [10])))"

subsection \<open>The table that \<^verbatim>\<open>link_app.S\<close> lays out\<close>

text \<open>The bytes of the names, each followed by a zero byte.\<close>

definition name_bytes :: "u8 list list \<Rightarrow> u8 list" where
  "name_bytes ns = concat (map (\<lambda>n. n @ [0]) ns)"

definition app_image :: "usize \<Rightarrow> usize \<Rightarrow> u8 list list \<Rightarrow> u8 list list \<Rightarrow> memory \<Rightarrow> bool" where
  "app_image num_app_sym names_sym ns ds m \<longleftrightarrow> length ns = length ds \<and> length ds + 1 < 2 ^ 64 \<and>
     read_u64 m num_app_sym = of_nat (length ds) \<and>
     (\<forall>n \<in> set ns. 0 \<notin> set n \<and> from_utf8 n \<noteq> None) \<and> length (name_bytes ns) < 2 ^ 64 \<and>
     read_bytes m names_sym (length (name_bytes ns)) = name_bytes ns \<and>
     (\<forall>i < length ds. \<exists>a. read_u64 m (num_app_sym + 8 + 8 * of_nat i) = a \<and>
        read_u64 m (num_app_sym + 8 + 8 * of_nat (i + 1)) = a + of_nat (length (ds ! i)) \<and>
        length (ds ! i) < 2 ^ 64 \<and> read_bytes m a (length (ds ! i)) = ds ! i)"

lemma read_bytes_append: "read_bytes m a (n + k) = read_bytes m a n @ read_bytes m (a + of_nat n) k"
  by (rule nth_equalityI) (auto simp: nth_append add.assoc simp flip: of_nat_add)

lemma name_end_zero [simp]: "m e = 0 \<Longrightarrow> name_end m e = Some e"
  by (simp add: name_end.simps)

lemma name_end_ok:
  assumes "read_bytes m a (length n + 1) = n @ [0]" and "0 \<notin> set n"
  shows "name_end m a = Some (a + of_nat (length n))"
  using assms
proof (induction n arbitrary: a)
  case Nil
  then show ?case by (simp add: read_bytes_def)
next
  case (Cons b n)
  have s: "read_bytes m a (1 + (length n + 1)) = b # n @ [0]" using Cons.prems(1) by (simp add: add.commute)
  then have "m a = b" "read_bytes m (a + 1) (length n + 1) = n @ [0]"
    unfolding read_bytes_append by (simp_all add: read_bytes_def [of m a "Suc 0"])
  with Cons.IH [of "a + 1"] Cons.prems(2) show ?case
    by (subst name_end.simps) (auto simp: add.assoc)
qed

lemma app_names_loop_ok:
  assumes "read_bytes m a (length (name_bytes ns)) = name_bytes ns" and "\<forall>n \<in> set ns. 0 \<notin> set n \<and> from_utf8 n \<noteq> None"
    and "length (name_bytes ns) < 2 ^ 64"
  shows "app_names_loop (length ns) m a v = Some (Inr (v @ map (\<lambda>n. the (from_utf8 n)) ns))"
  using assms
proof (induction ns arbitrary: a v)
  case Nil
  then show ?case by simp
next
  case (Cons n ns)
  have nb: "name_bytes (n # ns) = (n @ [0]) @ name_bytes ns" by (simp add: name_bytes_def)
  have "read_bytes m a (length (n @ [0]) + length (name_bytes ns)) = (n @ [0]) @ name_bytes ns"
    using Cons.prems(1) unfolding nb by simp
  then have "read_bytes m a (length (n @ [0])) = n @ [0] \<and> read_bytes m (a + of_nat (length (n @ [0]))) (length (name_bytes ns)) = name_bytes ns"
    unfolding read_bytes_append by (simp only: append_eq_append_conv length_read_bytes simp_thms)
  then have r: "read_bytes m a (length n + 1) = n @ [0]" "read_bytes m (a + of_nat (length n + 1)) (length (name_bytes ns)) = name_bytes ns"
    by simp_all
  have "read_bytes m a (length n + 1) = n @ [0]" by (rule r(1))
  then have n: "read_bytes m a (length n) = n" unfolding read_bytes_append by simp
  have "length n < 2 ^ 64" using Cons.prems(3) nb by simp
  then have u: "unat (of_nat (length n) :: usize) = length n" by (rule unat_of_nat_less)
  obtain str where str: "from_utf8 n = Some str" "0 \<notin> set n" using Cons.prems(2) by auto
  have "app_names_loop (length ns) m (a + of_nat (length n + 1)) (v @ [str]) = Some (Inr ((v @ [str]) @ map (\<lambda>n. the (from_utf8 n)) ns))"
    using Cons.prems(2,3) r(2) nb by (intro Cons.IH) auto
  then show ?case
    using name_end_ok [OF r(1) str(2)] n str(1) u by (simp add: add.assoc add.commute [of 1])
qed

lemma get_app_data_ok:
  assumes "app_image num names ns ds m" and "i < length ds"
  shows "get_app_data num m (of_nat i) = Inr (ds ! i)"
proof -
  have l: "length ds + 1 < 2 ^ 64" and n: "get_num_app num m = of_nat (length ds)"
    using assms(1) by (auto simp: app_image_def get_num_app_def)
  obtain a where a: "read_u64 m (num + 8 + 8 * of_nat i) = a" "read_u64 m (num + 8 + 8 * of_nat (i + 1)) = a + of_nat (length (ds ! i))"
    "length (ds ! i) < 2 ^ 64" "read_bytes m a (length (ds ! i)) = ds ! i"
    using assms by (auto simp: app_image_def)
  have lt: "(of_nat x :: usize) < of_nat y" if "x < y" "y \<le> length ds + 1" for x y
    using that l by (simp add: word_less_nat_alt unat_of_nat_less)
  have c: "(of_nat (length ds) :: usize) + 1 = of_nat (length ds + 1)" "(of_nat i :: usize) + 1 = of_nat (i + 1)" by simp_all
  have "unat (of_nat (length (ds ! i)) :: usize) = length (ds ! i)" using a(3) by (rule unat_of_nat_less)
  then show ?thesis
    unfolding get_app_data_def Let_def n app_start_def c
    using lt [OF assms(2)] lt [of i "length ds + 1"] lt [of "i + 1" "length ds + 1"] assms(2) a
    by (simp add: assert_that_def del: of_nat_Suc of_nat_add)
qed

subsection \<open>Properties\<close>

lemma APP_NAMES_ok:
  assumes "app_image num names ns ds m"
  shows "APP_NAMES num names m = Some (Inr (map (\<lambda>n. the (from_utf8 n)) ns))" and "unat (get_num_app num m) = length ds"
proof -
  have l: "length ns = length ds" "length ds < 2 ^ 64" and num: "get_num_app num m = of_nat (length ds)"
    using assms by (auto simp: app_image_def get_num_app_def)
  show k: "unat (get_num_app num m) = length ds" unfolding num using l(2) by (rule unat_of_nat_less)
  have "app_names_loop (length ns) m names [] = Some (Inr ([] @ map (\<lambda>n. the (from_utf8 n)) ns))"
    using assms by (intro app_names_loop_ok) (auto simp: app_image_def)
  then show "APP_NAMES num names m = Some (Inr (map (\<lambda>n. the (from_utf8 n)) ns))" by (simp add: APP_NAMES_def k l(1))
qed

text \<open>
  Looking up an application.  When memory holds the table that \<^verbatim>\<open>link_app.S\<close> lays out,
  \<open>get_app_data_by_name\<close> returns; the result is the data of the first application of that name,
  and \<open>None\<close> when there is none.
\<close>

lemma get_app_data_by_name_eq:
  assumes "app_image num names ns ds m"
  shows "get_app_data_by_name num names name m =
    Some (Inr (map_option snd (find (\<lambda>(n, d). from_utf8 n = Some name) (zip ns ds))))"
proof -
  have l: "length ns = length ds" and u: "\<forall>n \<in> set ns. from_utf8 n \<noteq> None" using assms by (auto simp: app_image_def)
  note a = APP_NAMES_ok(1) [OF assms] and k = APP_NAMES_ok(2) [OF assms]
  let ?P = "\<lambda>i. map (\<lambda>n. the (from_utf8 n)) ns ! i = name"
  have P: "?P i \<longleftrightarrow> from_utf8 (ns ! i) = Some name" if "i < length ds" for i
    using that u l by (metis nth_map nth_mem option.collapse option.sel)
  show ?thesis
  proof (cases "find ?P [0..<length ds]")
    case None
    then have "\<forall>i < length ds. from_utf8 (ns ! i) \<noteq> Some name" using P by (auto simp: find_None_iff)
    then have "find (\<lambda>(n, d). from_utf8 n = Some name) (zip ns ds) = None"
      by (auto simp: find_None_iff in_set_zip l)
    with a None show ?thesis by (simp add: get_app_data_by_name_def k)
  next
    case (Some i)
    then have i: "i < length ds" "?P i" "\<forall>j < i. \<not> ?P j" by (auto simp: find_Some_iff)
    then have "find (\<lambda>(n, d). from_utf8 n = Some name) (zip ns ds) = Some (ns ! i, ds ! i)"
      using P l by (auto simp: find_Some_iff intro!: exI [of _ i])
    with a Some i get_app_data_ok [OF assms i(1)] show ?thesis by (simp add: get_app_data_by_name_def k)
  qed
qed

end
