(* ===== verification/Queue_Spec.thy ===== *)
theory Queue_Spec
  imports Prelude
begin

text \<open>
  The contract of the queue of ready tasks (\<^verbatim>\<open>src/os/src/task/manager.rs\<close>): what is fetched comes
  out in the order in which it was added.
\<close>

datatype 'a queue_op = Add 'a | Fetch

fun added :: "'a queue_op list \<Rightarrow> 'a list" where
  "added [] = []"
| "added (Add x # ops) = x # added ops"
| "added (Fetch # ops) = added ops"

text \<open>A sequence of operations: what the fetches return, and the queue at the end.\<close>

fun queue_ops :: "('a \<Rightarrow> 'q \<Rightarrow> 'q) \<Rightarrow> ('q \<Rightarrow> 'a option \<times> 'q) \<Rightarrow> 'a queue_op list \<Rightarrow> 'q \<Rightarrow> 'a list \<times> 'q" where
  "queue_ops add fetch [] q = ([], q)"
| "queue_ops add fetch (Add x # ops) q = queue_ops add fetch ops (add x q)"
| "queue_ops add fetch (Fetch # ops) q =
     (case fetch q of
        (None, q) \<Rightarrow> queue_ops add fetch ops q
      | (Some x, q) \<Rightarrow> (case queue_ops add fetch ops q of (xs, q) \<Rightarrow> (x # xs, q)))"

locale fifo_queue =
  fixes add :: "'a \<Rightarrow> 'q \<Rightarrow> 'q"
    and fetch :: "'q \<Rightarrow> 'a option \<times> 'q"
    and items :: "'q \<Rightarrow> 'a list"
  assumes items_add: "items (add x q) = items q @ [x]"
    and fetch_Nil: "items q = [] \<Longrightarrow> fetch q = (None, q)"
    and fetch_Cons: "items q = x # xs \<Longrightarrow> \<exists>q'. fetch q = (Some x, q') \<and> items q' = xs"
begin

lemma in_order: "case queue_ops add fetch ops q of (xs, q') \<Rightarrow> items q @ added ops = xs @ items q'"
proof (induction ops arbitrary: q)
  case Nil
  then show ?case by simp
next
  case (Cons op ops)
  show ?case
  proof (cases op)
    case (Add x)
    with Cons [of "add x q"] show ?thesis by (simp add: items_add split: prod.splits)
  next
    case Fetch
    show ?thesis
    proof (cases "items q")
      case Nil
      with Fetch Cons [of q] show ?thesis by (simp add: fetch_Nil split: prod.splits)
    next
      case (Cons x xs)
      from fetch_Cons [OF this] obtain q' where "fetch q = (Some x, q')" "items q' = xs" by blast
      with Fetch Cons \<open>\<And>q. case queue_ops add fetch ops q of (xs, q') \<Rightarrow> items q @ added ops = xs @ items q'\<close> [of q']
      show ?thesis by (simp split: prod.splits)
    qed
  qed
qed

text \<open>An item is fetched after as many fetches as there are items before it, whatever is added in between.\<close>

lemma served:
  assumes "items q = xs @ x # ys" and "queue_ops add fetch ops q = (zs, q')" and "length xs < length zs"
  shows "zs ! length xs = x"
proof -
  have "xs @ x # ys @ added ops = zs @ items q'" using in_order [of q ops] assms by simp
  then have "(xs @ x # ys @ added ops) ! length xs = zs ! length xs" using assms(3) by (simp add: nth_append)
  then show ?thesis by simp
qed

end

end
