(* ===== verification/Process.thy ===== *)
theory Process
  imports Task Loader Queue_Spec
begin

text \<open>
  The scheduler: \<open>TaskManager\<close> (\<^verbatim>\<open>src/os/src/task/manager.rs\<close>), \<open>Processor\<close> and the idle loop
  (\<^verbatim>\<open>src/os/src/task/processor.rs\<close>), and the two ways a task gives up the hart, suspending and
  exiting (\<^verbatim>\<open>src/os/src/task/mod.rs\<close>).  \<open>__switch\<close> saves the callee-saved registers and loads
  those of the other control flow; what follows a switch is the business of the resumed side, which
  \<open>frames\<close> records.
\<close>

subsection \<open>\<open>TaskManager\<close>\<close>

definition TaskManager_new :: TaskManager where
  "TaskManager_new = \<lparr>ready_queue = []\<rparr>"

definition tm_add :: "task_ref \<Rightarrow> TaskManager \<Rightarrow> TaskManager" where
  "tm_add task tm = tm\<lparr>ready_queue := ready_queue tm @ [task]\<rparr>"

definition tm_fetch :: "TaskManager \<Rightarrow> task_ref option \<times> TaskManager" where
  "tm_fetch tm = (case ready_queue tm of [] \<Rightarrow> (None, tm) | task # q \<Rightarrow> (Some task, tm\<lparr>ready_queue := q\<rparr>))"

interpretation ready: fifo_queue tm_add tm_fetch ready_queue
proof unfold_locales
  fix q :: TaskManager and x :: task_ref and xs
  assume "ready_queue q = x # xs"
  then show "\<exists>q'. tm_fetch q = (Some x, q') \<and> ready_queue q' = xs" by (simp add: tm_fetch_def)
qed (simp_all add: tm_add_def tm_fetch_def)

definition add_task :: "task_ref \<Rightarrow> kernel \<Rightarrow> kernel" where
  "add_task task k = k\<lparr>TASK_MANAGER := tm_add task (TASK_MANAGER k)\<rparr>"

definition fetch_task :: "kernel \<Rightarrow> task_ref option \<times> kernel" where
  "fetch_task k = (case tm_fetch (TASK_MANAGER k) of (task, tm) \<Rightarrow> (task, k\<lparr>TASK_MANAGER := tm\<rparr>))"

subsection \<open>\<open>Processor\<close>\<close>

definition Processor_new :: Processor where
  "Processor_new = \<lparr>current = None, idle_task_cx = zero_init\<rparr>"

definition take_current :: "Processor \<Rightarrow> task_ref option \<times> Processor" where
  "take_current p = (current p, p\<lparr>current := None\<rparr>)"

text \<open>\<open>Processor::current\<close>, which clones the reference.\<close>

definition take_current_task :: "kernel \<Rightarrow> task_ref option \<times> kernel" where
  "take_current_task k = (case take_current (PROCESSOR k) of (task, p) \<Rightarrow> (task, k\<lparr>PROCESSOR := p\<rparr>))"

definition current_task :: "kernel \<Rightarrow> (task_ref option \<times> kernel) result" where
  "current_task k =
     (case current (PROCESSOR k) of
        None \<Rightarrow> Inr (None, k)
      | Some task \<Rightarrow> bind (Arc_clone task k) (\<lambda>k. Inr (Some task, k)))"

text \<open>The borrow and the clone of the task end with the statement that makes them.\<close>

definition current_user_token :: "kernel \<Rightarrow> (usize \<times> kernel) result" where
  "current_user_token k =
     bind (current_task k) (\<lambda>(task, k).
     bind (unwrap task) (\<lambda>task.
     bind (inner_exclusive_access task k) (\<lambda>(inner, k).
     let token = get_user_token inner
     in bind (inner_release task inner k) (\<lambda>k.
        bind (Arc_drop task k) (\<lambda>k. Inr (token, k))))))"

definition current_trap_cx :: "kernel \<Rightarrow> (usize \<times> kernel) result" where
  "current_trap_cx k =
     bind (current_task k) (\<lambda>(task, k).
     bind (unwrap task) (\<lambda>task.
     bind (inner_exclusive_access task k) (\<lambda>(inner, k).
     bind (get_trap_cx inner) (\<lambda>cx.
     bind (inner_release task inner k) (\<lambda>k.
     bind (Arc_drop task k) (\<lambda>k. Inr (cx, k)))))))"

text \<open>
  \<open>__switch(cur, next)\<close>: the registers are stored through \<open>cur\<close>, a raw pointer, and loaded from
  \<open>next\<close>.
\<close>

definition switch :: "(TaskContext \<Rightarrow> kernel \<Rightarrow> kernel result) \<Rightarrow> TaskContext \<Rightarrow> kernel \<Rightarrow> kernel result" where
  "switch store_cur next k = bind (store_cur (cpu k) k) (\<lambda>k. Inr (k\<lparr>cpu := next\<rparr>))"

definition store_task_cx :: "task_ref \<Rightarrow> TaskContext \<Rightarrow> kernel \<Rightarrow> kernel result" where
  "store_task_cx t cx k =
     bind (arc_get t k) (\<lambda>c.
     let cell = tcb_inner (arc_data c);
         cell = cell\<lparr>cell_inner := (cell_inner cell)\<lparr>task_cx := cx\<rparr>\<rparr>
     in Inr (arc_set t (Some (c\<lparr>arc_data := (arc_data c)\<lparr>tcb_inner := cell\<rparr>\<rparr>)) k))"

definition store_idle_cx :: "TaskContext \<Rightarrow> kernel \<Rightarrow> kernel result" where
  "store_idle_cx cx k = Inr (k\<lparr>PROCESSOR := (PROCESSOR k)\<lparr>idle_task_cx := cx\<rparr>\<rparr>)"

text \<open>One iteration of the loop of \<open>run_tasks\<close>: the task that is switched to, or \<open>None\<close>.\<close>

definition run_tasks_step :: "kernel \<Rightarrow> (task_ref option \<times> kernel) result" where
  "run_tasks_step k =
     (case fetch_task k of
        (None, k) \<Rightarrow> Inr (None, k)
      | (Some task, k) \<Rightarrow>
          bind (inner_exclusive_access task k) (\<lambda>(task_inner, k).
          let next_task_cx = task_cx task_inner;
              task_inner = task_inner\<lparr>task_status := Running\<rparr>
          in bind (inner_release task task_inner k) (\<lambda>k.
             let old = current (PROCESSOR k);
                 k = k\<lparr>PROCESSOR := (PROCESSOR k)\<lparr>current := Some task\<rparr>\<rparr>
             in bind (case old of None \<Rightarrow> Inr k | Some t \<Rightarrow> Arc_drop t k) (\<lambda>k.
                bind (switch store_idle_cx next_task_cx k) (\<lambda>k.
                Inr (Some task, k))))))"

definition schedule :: "(TaskContext \<Rightarrow> kernel \<Rightarrow> kernel result) \<Rightarrow> kernel \<Rightarrow> kernel result" where
  "schedule store_switched k = switch store_switched (idle_task_cx (PROCESSOR k)) k"

subsection \<open>Suspending\<close>

definition suspend_current_and_run_next :: "resume \<Rightarrow> kernel \<Rightarrow> kernel result" where
  "suspend_current_and_run_next r k =
     (case take_current_task k of (task, k) \<Rightarrow>
      bind (unwrap task) (\<lambda>task.
      bind (inner_exclusive_access task k) (\<lambda>(task_inner, k).
      let task_inner = task_inner\<lparr>task_status := Ready\<rparr>
      in bind (inner_release task task_inner k) (\<lambda>k.
         let k = add_task task k
         in bind (schedule (store_task_cx task) k) (\<lambda>k.
            Inr (k\<lparr>frames := (frames k)(task := r)\<rparr>))))))"

subsection \<open>Exiting\<close>

text \<open>\<open>*INITPROC\<close>: the lazy static is computed on first use.\<close>

definition INITPROC_deref :: "kernel_env \<Rightarrow> kernel \<Rightarrow> (task_ref \<times> kernel) result option" where
  "INITPROC_deref env k =
     (case INITPROC k of
        Some t \<Rightarrow> Some (Inr (t, k))
      | None \<Rightarrow>
          obind (get_app_data_by_name (env_num_app env) (env_app_names env) (map of_char ''initproc'') (mm_mem (mm k))) (\<lambda>data.
          Some (bind (unwrap data) (\<lambda>data.
                bind (TaskControlBlock_new env data k) (\<lambda>(tcb, k).
                let (t, k) = Arc_new tcb k
                in Inr (t, k\<lparr>INITPROC := Some t\<rparr>))))))"

text \<open>The body of the loop that moves a child to \<open>initproc\<close>.\<close>

definition adopt :: "task_ref \<Rightarrow> task_ref \<Rightarrow> TaskControlBlockInner \<times> kernel \<Rightarrow> (TaskControlBlockInner \<times> kernel) result" where
  "adopt initproc c = (\<lambda>(initproc_inner, k).
     bind (inner_exclusive_access c k) (\<lambda>(child_inner, k).
     bind (inner_release c (child_inner\<lparr>parent := Some initproc\<rparr>) k) (\<lambda>k.
     bind (Arc_clone c k) (\<lambda>k.
     Inr (initproc_inner\<lparr>children := vec_push (children initproc_inner) c\<rparr>, k)))))"

definition exit_current_and_run_next :: "kernel_env \<Rightarrow> i32 \<Rightarrow> kernel \<Rightarrow> kernel result option" where
  "exit_current_and_run_next env code k =
     (case take_current_task k of (task, k) \<Rightarrow>
      obind (Some (bind (unwrap task) (\<lambda>task. bind (inner_exclusive_access task k) (\<lambda>(inner, k). Inr (task, inner, k))))) (\<lambda>(task, inner, k).
      let inner = inner\<lparr>task_status := Zombie\<rparr>;
          inner = inner\<lparr>exit_code := code\<rparr>
      in obind (INITPROC_deref env k) (\<lambda>(initproc, k).
         Some (
           bind (inner_exclusive_access initproc k) (\<lambda>(initproc_inner, k).
           bind (for_each (adopt initproc) (children inner) (initproc_inner, k)) (\<lambda>(initproc_inner, k).
           bind (inner_release initproc initproc_inner k) (\<lambda>k.
           bind (for_each Arc_drop (children inner) k) (\<lambda>k.
           let inner = inner\<lparr>children := []\<rparr>
           in bind (recycle_data_pages (memory_set inner, mm k)) (\<lambda>(ms, st).
              bind (inner_release task (inner\<lparr>memory_set := ms\<rparr>) (k\<lparr>mm := st\<rparr>)) (\<lambda>k.
              bind (Arc_drop task k) (\<lambda>k.
              schedule (\<lambda>_ k. Inr k) k)))))))))))"

definition add_initproc :: "kernel_env \<Rightarrow> kernel \<Rightarrow> kernel result option" where
  "add_initproc env k =
     obind (INITPROC_deref env k) (\<lambda>(t, k).
     Some (bind (Arc_clone t k) (\<lambda>k. Inr (add_task t k))))"

end
