(* ===== verification/Process_Table.thy ===== *)
theory Process_Table
  imports Process "HOL-Library.Multiset"
begin

text \<open>
  The process table: what the cells of the control blocks, the ready queue and the current task say
  together.  \<open>table_inv\<close> is the invariant: no cell is borrowed; the ready queue holds exactly the
  ready tasks and each once; the running task is the current one; every task but \<open>initproc\<close> is in
  the list of children of exactly one task, to which its parent pointer points and which is
  \<open>initproc\<close> or older; the strong count is the number of these references; a zombie has no children.  The lemmas here are about the updates
  that the operations make to the table, on the table alone.
\<close>

subsection \<open>Views of the state\<close>

definition cellk :: "kernel \<Rightarrow> task_ref \<Rightarrow> ArcInner option" where
  "cellk k t = (if t < length (arcs k) then arcs k ! t else None)"

abbreviation inner_of :: "ArcInner \<Rightarrow> TaskControlBlockInner" where
  "inner_of c \<equiv> cell_inner (tcb_inner (arc_data c))"

abbreviation borrowed :: "ArcInner \<Rightarrow> bool" where
  "borrowed c \<equiv> cell_borrowed (tcb_inner (arc_data c))"

definition kids :: "ArcInner option \<Rightarrow> task_ref list" where
  "kids o' = (case o' of None \<Rightarrow> [] | Some c \<Rightarrow> children (inner_of c))"

definition status :: "(task_ref \<Rightarrow> ArcInner option) \<Rightarrow> task_ref \<Rightarrow> TaskStatus option" where
  "status f t = map_option (\<lambda>c. task_status (inner_of c)) (f t)"

definition kidlist :: "(task_ref \<Rightarrow> ArcInner option) \<Rightarrow> nat \<Rightarrow> task_ref list" where
  "kidlist f n = concat (map (\<lambda>t. kids (f t)) [0..<n])"

text \<open>The strong references to a task: \<open>INITPROC\<close>, the current task, the queue, and the children lists.\<close>

definition strong_refs :: "(task_ref \<Rightarrow> ArcInner option) \<Rightarrow> nat \<Rightarrow> task_ref list \<Rightarrow> task_ref option \<Rightarrow> task_ref \<Rightarrow> task_ref \<Rightarrow> nat" where
  "strong_refs f n q cur init t = of_bool (t = init) + of_bool (cur = Some t) + count (mset q) t + count (mset (kidlist f n)) t"

definition table_inv :: "(task_ref \<Rightarrow> ArcInner option) \<Rightarrow> nat \<Rightarrow> task_ref list \<Rightarrow> task_ref option \<Rightarrow> task_ref \<Rightarrow> bool" where
  "table_inv f n q cur init \<longleftrightarrow> f init \<noteq> None \<and> dom f \<subseteq> {..<n} \<and>
     (\<forall>t c. f t = Some c \<longrightarrow> \<not> borrowed c \<and> strong c = (if task_status (inner_of c) = Zombie then 1 else 2) \<and>
        (task_status (inner_of c) = Zombie \<longrightarrow> t \<noteq> init \<and> children (inner_of c) = []) \<and>
        (\<forall>u \<in> set (children (inner_of c)). (t = init \<or> t < u) \<and> (\<exists>d. f u = Some d \<and> parent (inner_of d) = Some t))) \<and>
     distinct q \<and> set q = {t. status f t = Some Ready} \<and> set_option cur = {t. status f t = Some Running} \<and>
     distinct (kidlist f n) \<and> set (kidlist f n) = dom f - {init}"

lemma table_invD:
  assumes "table_inv f n q cur init"
  shows "f init \<noteq> None" and "f t = Some c \<Longrightarrow> t < n" and "f t = Some c \<Longrightarrow> \<not> borrowed c"
    and "f t = Some c \<Longrightarrow> strong c = (if task_status (inner_of c) = Zombie then 1 else 2)"
    and "f t = Some c \<Longrightarrow> task_status (inner_of c) = Zombie \<Longrightarrow> children (inner_of c) = []"
    and "status f init \<noteq> Some Zombie"
    and "f t = Some c \<Longrightarrow> u \<in> set (children (inner_of c)) \<Longrightarrow> \<exists>d. f u = Some d \<and> parent (inner_of d) = Some t"
    and "distinct q" and "set q = {t. status f t = Some Ready}" and "set_option cur = {t. status f t = Some Running}"
    and "distinct (kidlist f n)" and "set (kidlist f n) = dom f - {init}"
    and "f t = Some c \<Longrightarrow> u \<in> set (children (inner_of c)) \<Longrightarrow> t = init \<or> t < u"
  using assms by (auto simp: table_inv_def status_def)

text \<open>The count of every task is the number of references to it.\<close>

lemma count_distinct: "distinct xs \<Longrightarrow> count (mset xs) x = of_bool (x \<in> set xs)"
  by (induction xs) auto

lemma table_inv_strong:
  assumes inv: "table_inv f n q cur init" and t: "f t = Some c"
  shows "strong c = strong_refs f n q cur init t"
proof -
  have "count (mset q) t = of_bool (task_status (inner_of c) = Ready)"
    using table_invD(8,9) [OF inv] t by (simp add: count_distinct status_def)
  moreover have "(cur = Some t) = (task_status (inner_of c) = Running)"
    using table_invD(10) [OF inv] t by (auto simp: status_def set_eq_iff)
  moreover have "count (mset (kidlist f n)) t = of_bool (t \<noteq> init)"
    using table_invD(11,12) [OF inv] t by (auto simp: count_distinct)
  ultimately show ?thesis
    using table_invD(4) [OF inv t] by (cases "task_status (inner_of c)") (auto simp: strong_refs_def)
qed

subsection \<open>The list of all children\<close>

lemma kidlist_cong: "(\<And>t. t < n \<Longrightarrow> kids (f t) = kids (g t)) \<Longrightarrow> kidlist f n = kidlist g n"
  by (auto simp: kidlist_def intro!: arg_cong [of _ _ concat])

lemma kidlist_Suc: "kidlist f (Suc n) = kidlist f n @ kids (f n)"
  by (simp add: kidlist_def)

lemma kidlist_upd_out: "n \<le> t \<Longrightarrow> kidlist (f(t := x)) n = kidlist f n"
  by (rule kidlist_cong) simp

lemma mset_kidlist_upd:
  assumes "t < n"
  shows "mset (kidlist (f(t := x)) n) + mset (kids (f t)) = mset (kidlist f n) + mset (kids x)"
  using assms
proof (induction n)
  case 0
  then show ?case by simp
next
  case (Suc n)
  show ?case
  proof (cases "t = n")
    case True
    have "kidlist (f(n := x)) n = kidlist f n" by (rule kidlist_upd_out) simp
    then show ?thesis unfolding True kidlist_Suc by (simp only: fun_upd_same mset_append add.assoc add.commute add.left_commute)
  next
    case False
    then have "t < n" using Suc.prems by simp
    note Suc.IH [OF this]
    moreover have "(f(t := x)) n = f n" using False by simp
    ultimately show ?thesis unfolding kidlist_Suc mset_append by (simp only: union_ac)
  qed
qed

lemma kidlist_kids: "t < n \<Longrightarrow> u \<in> set (kids (f t)) \<Longrightarrow> u \<in> set (kidlist f n)"
  by (auto simp: kidlist_def)

lemma kids_Some [simp]: "kids (Some c) = children (inner_of c)" "kids None = []"
  by (simp_all add: kids_def)

text \<open>A task is a child of one task only.\<close>

lemma table_inv_kids:
  assumes inv: "table_inv f n q cur init" and t: "f t = Some c" and u: "u \<in> set (children (inner_of c))"
  shows "u \<noteq> init" and "u \<noteq> t" and "distinct (children (inner_of c))" and "f s = Some d \<Longrightarrow> u \<in> set (children (inner_of d)) \<Longrightarrow> s = t"
proof -
  have tn: "t < n" using table_invD(2) [OF inv t] .
  have "u \<in> set (kidlist f n)" using kidlist_kids [OF tn, of u f] t u by simp
  then show i: "u \<noteq> init" using table_invD(12) [OF inv] by blast
  then show "u \<noteq> t" using table_invD(13) [OF inv t u] by auto
  have m: "mset (kidlist (f(t := None)) n) + mset (children (inner_of c)) = mset (kidlist f n)"
    using mset_kidlist_upd [OF tn, of f None] t by simp
  then have "mset (kidlist (f(t := None)) n @ children (inner_of c)) = mset (kidlist f n)" by simp
  then have d: "distinct (kidlist (f(t := None)) n @ children (inner_of c))"
    using table_invD(11) [OF inv] mset_eq_imp_distinct_iff by blast
  then show "distinct (children (inner_of c))" by simp
  show "s = t" if "f s = Some d" "u \<in> set (children (inner_of d))"
  proof (rule ccontr)
    assume "s \<noteq> t"
    then have "u \<in> set (kidlist (f(t := None)) n)"
      using kidlist_kids [of s n u "f(t := None)"] table_invD(2) [OF inv that(1)] that by simp
    with d u show False by auto
  qed
qed

subsection \<open>Updates of the table\<close>

text \<open>Changes of a control block that the table does not see.\<close>

definition same_proc :: "ArcInner \<Rightarrow> ArcInner \<Rightarrow> bool" where
  "same_proc c d \<longleftrightarrow> strong d = strong c \<and> \<not> borrowed d \<and> children (inner_of d) = children (inner_of c) \<and>
     parent (inner_of d) = parent (inner_of c)"

lemma kidlist_same: "kids x = kids (f t) \<Longrightarrow> kidlist (f(t := x)) n = kidlist f n"
  by (rule kidlist_cong) auto

text \<open>A change of status between \<open>Ready\<close> and \<open>Running\<close>, with the queue and the current task after it.\<close>

lemma table_inv_status:
  assumes inv: "table_inv f n q cur init" and t: "f t = Some c" "same_proc c d"
    and st: "task_status (inner_of c) \<noteq> Zombie" "task_status (inner_of d) \<noteq> Zombie"
    and q': "distinct q'" "set q' = {u. status (f(t := Some d)) u = Some Ready}" "set_option cur' = {u. status (f(t := Some d)) u = Some Running}"
  shows "table_inv (f(t := Some d)) n q' cur' init"
proof -
  have k: "kidlist (f(t := Some d)) n = kidlist f n" using t by (intro kidlist_same) (simp add: same_proc_def)
  have "(s = init \<or> s < u) \<and> (\<exists>e. (f(t := Some d)) u = Some e \<and> parent (inner_of e) = Some s)"
    if s: "(f(t := Some d)) s = Some a" "u \<in> set (children (inner_of a))" for s a u
  proof -
    obtain b where b: "f s = Some b" "children (inner_of b) = children (inner_of a)"
      using s t by (auto simp: same_proc_def split: if_splits)
    then obtain e where e: "f u = Some e" "parent (inner_of e) = Some s" using table_invD(7) [OF inv b(1)] s(2) by auto
    then have "\<exists>e. (f(t := Some d)) u = Some e \<and> parent (inner_of e) = Some s" using t by (cases "u = t") (auto simp: same_proc_def)
    then show ?thesis using table_invD(13) [OF inv b(1), of u] b(2) s(2) by simp
  qed
  moreover have "dom (f(t := Some d)) = dom f" using t by auto
  ultimately show ?thesis
    unfolding table_inv_def k using inv t st q' by (auto simp: table_inv_def same_proc_def)
qed

lemma table_inv_same:
  assumes inv: "table_inv f n q cur init" and t: "f t = Some c" "same_proc c d" and st: "task_status (inner_of d) = task_status (inner_of c)"
    and run: "task_status (inner_of c) \<noteq> Zombie"
  shows "table_inv (f(t := Some d)) n q cur init"
proof (rule table_inv_status [OF inv t run])
  have "status (f(t := Some d)) = status f" using t st by (auto simp: status_def)
  then show "set q = {u. status (f(t := Some d)) u = Some Ready}" "set_option cur = {u. status (f(t := Some d)) u = Some Running}"
    using table_invD(9,10) [OF inv] by simp_all
qed (use table_invD(8) [OF inv] run st in simp_all)

lemma table_inv_suspend:
  assumes inv: "table_inv f n q (Some t) init" and t: "f t = Some c" "same_proc c d" and st: "task_status (inner_of d) = Ready"
  shows "table_inv (f(t := Some d)) n (q @ [t]) None init"
proof -
  have run: "{u. status f u = Some Running} = {t}" using table_invD(10) [OF inv] by auto
  then have "status f t = Some Running" by blast
  then have r: "task_status (inner_of c) = Running" using t(1) by (simp add: status_def)
  have s: "status (f(t := Some d)) u = (if u = t then Some Ready else status f u)" for u by (simp add: status_def st)
  have "t \<notin> set q" using table_invD(9) [OF inv] t(1) r by (simp add: status_def)
  then show ?thesis
    using table_invD(8,9) [OF inv] r run
    by (intro table_inv_status [OF inv t]) (auto simp: s st set_eq_iff)
qed

lemma table_inv_run:
  assumes inv: "table_inv f n (t # q) None init" and t: "f t = Some c" "same_proc c d" and st: "task_status (inner_of d) = Running"
  shows "table_inv (f(t := Some d)) n q (Some t) init"
proof -
  have "status f t = Some Ready" using table_invD(9) [OF inv] by auto
  then have r: "task_status (inner_of c) = Ready" "t \<notin> set q" "distinct q" using table_invD(8) [OF inv] t(1) by (auto simp: status_def)
  have no: "status f u \<noteq> Some Running" for u using table_invD(10) [OF inv] by auto
  have s: "status (f(t := Some d)) u = (if u = t then Some Running else status f u)" for u by (simp add: status_def st)
  have "u \<in> set q \<longleftrightarrow> u \<noteq> t \<and> status f u = Some Ready" for u
    using table_invD(9) [OF inv] r(2) by (auto simp: set_eq_iff)
  then show ?thesis
    using r no by (intro table_inv_status [OF inv t]) (auto simp: s st)
qed

lemma kidlist_mset_distinct:
  assumes "mset xs = mset ys"
  shows "distinct xs \<longleftrightarrow> distinct ys" and "set xs = set ys"
  using mset_eq_imp_distinct_iff [OF assms] mset_eq_setD [OF assms] by simp_all

text \<open>\<open>fork\<close>: the new cell is the child of the parent and ready.\<close>

lemma table_inv_fork:
  assumes inv: "table_inv f n q cur init" and p: "f p = Some c" and run: "task_status (inner_of c) = Running"
    and d: "strong d = strong c" "\<not> borrowed d" "children (inner_of d) = children (inner_of c) @ [n]"
      "parent (inner_of d) = parent (inner_of c)" "task_status (inner_of d) = Running"
    and e: "strong e = 2" "\<not> borrowed e" "children (inner_of e) = []" "parent (inner_of e) = Some p" "task_status (inner_of e) = Ready"
  shows "table_inv (f(p := Some d, n := Some e)) (Suc n) (q @ [n]) cur init"
proof -
  let ?g = "f(p := Some d, n := Some e)"
  have pn: "p < n" "f n = None" using table_invD(2) [OF inv] p by (auto simp: domIff) (metis less_irrefl not_Some_eq)
  have k: "mset (kidlist ?g (Suc n)) = mset (kidlist f n @ [n])"
  proof -
    have "kidlist ?g (Suc n) = kidlist (f(p := Some d)) n" using e(3) by (simp only: kidlist_Suc kidlist_upd_out order_refl fun_upd_same kids_Some append_Nil2)
    moreover have "mset (kidlist (f(p := Some d)) n) + mset (children (inner_of c)) = mset (kidlist f n @ [n]) + mset (children (inner_of c))"
      using mset_kidlist_upd [OF pn(1), of f "Some d"] p d(3) by simp
    ultimately show ?thesis by (metis add_right_imp_eq)
  qed
  have s: "status ?g u = (if u = n then Some Ready else status f u)" for u using p run d(5) e(5) by (simp add: status_def)
  have sn: "status f n = None" using pn by (simp add: status_def)
  have dom: "dom ?g = insert n (dom f)" using p by auto
  have nk: "n \<notin> set (kidlist f n)" "n \<notin> set q" using table_invD(9,12) [OF inv] pn by (auto simp: status_def)
  have init: "init \<noteq> n" "f init \<noteq> None" using table_invD(1) [OF inv] pn by auto
  show ?thesis
    unfolding table_inv_def kidlist_mset_distinct [OF k]
  proof (intro conjI allI impI)
    show "?g init \<noteq> None" using init by simp
    show "dom ?g \<subseteq> {..<Suc n}" unfolding dom using inv by (auto simp: table_inv_def)
    show "distinct (kidlist f n @ [n])" "set (kidlist f n @ [n]) = dom ?g - {init}"
      using table_invD(11,12) [OF inv] nk init(1) unfolding dom by auto
    show "distinct (q @ [n])" "set (q @ [n]) = {t. status ?g t = Some Ready}"
      using table_invD(8,9) [OF inv] nk sn by (auto simp: s)
    show "set_option cur = {t. status ?g t = Some Running}"
      using table_invD(10) [OF inv] sn by (auto simp: s)
    fix t a
    assume ta: "?g t = Some a"
    show "\<not> borrowed a" "strong a = (if task_status (inner_of a) = Zombie then 1 else 2)"
      using ta d e table_invD(3,4) [OF inv] p run by (auto split: if_splits)
    show "t \<noteq> init" "children (inner_of a) = []" if "task_status (inner_of a) = Zombie"
      using ta that d e inv by (auto simp: table_inv_def split: if_splits)
    show "\<forall>u \<in> set (children (inner_of a)). (t = init \<or> t < u) \<and> (\<exists>b. ?g u = Some b \<and> parent (inner_of b) = Some t)"
    proof
      fix u
      assume u: "u \<in> set (children (inner_of a))"
      show "(t = init \<or> t < u) \<and> (\<exists>b. ?g u = Some b \<and> parent (inner_of b) = Some t)"
      proof (cases "u = n")
        case True
        then have "t = p" using ta u e(3) table_invD(7) [OF inv, of t a n] pn by (auto split: if_splits)
        then show ?thesis using True e(4) pn(1) by simp
      next
        case False
        then obtain a' where a': "f t = Some a'" "u \<in> set (children (inner_of a'))" using ta u d(3) e(3) p by (auto split: if_splits)
        then obtain b where "f u = Some b" "parent (inner_of b) = Some t" using table_invD(7) [OF inv] by blast
        then show ?thesis using False p d(4) table_invD(13) [OF inv a'] by auto
      qed
    qed
  qed
qed

text \<open>
  \<open>exit\<close>: the task becomes a zombie without children, \<open>initproc\<close> gets its children, and their
  parent pointers follow.
\<close>

definition exit_table ::
  "(task_ref \<Rightarrow> ArcInner option) \<Rightarrow> task_ref \<Rightarrow> ArcInner \<Rightarrow> task_ref \<Rightarrow> ArcInner \<Rightarrow> (ArcInner \<Rightarrow> ArcInner) \<Rightarrow> task_ref list \<Rightarrow> task_ref \<Rightarrow> ArcInner option" where
  "exit_table f t z init i h us u =
     (if u = t then Some z else if u = init then Some i else if u \<in> set us then map_option h (f u) else f u)"

lemma table_inv_exit:
  assumes inv: "table_inv f n q (Some t) init" and t: "f t = Some c" "t \<noteq> init" and i0: "f init = Some i0"
    and z: "strong z = 1" "\<not> borrowed z" "children (inner_of z) = []" "parent (inner_of z) = parent (inner_of c)" "task_status (inner_of z) = Zombie"
    and i: "strong i = strong i0" "\<not> borrowed i" "children (inner_of i) = children (inner_of i0) @ children (inner_of c)"
      "parent (inner_of i) = parent (inner_of i0)" "task_status (inner_of i) = task_status (inner_of i0)"
    and h: "\<And>d. strong (h d) = strong d" "\<And>d. \<not> borrowed (h d)" "\<And>d. children (inner_of (h d)) = children (inner_of d)"
      "\<And>d. parent (inner_of (h d)) = Some init" "\<And>d. task_status (inner_of (h d)) = task_status (inner_of d)"
  shows "table_inv (exit_table f t z init i h (children (inner_of c))) n q None init"
proof -
  let ?us = "children (inner_of c)"
  let ?g = "exit_table f t z init i h ?us"
  have tn: "t < n" "init < n" using table_invD(2) [OF inv] t i0 by auto
  have us: "u \<noteq> init \<and> u \<noteq> t \<and> f u \<noteq> None" if "u \<in> set ?us" for u
    using table_inv_kids(1,2) [OF inv t(1) that] table_invD(7) [OF inv t(1) that] by auto
  have g: "?g u = (if u = t then Some z else if u = init then Some i else if u \<in> set ?us then map_option h (f u) else f u)" for u
    by (simp add: exit_table_def)
  have kd: "kids (?g u) = (if u = t then [] else if u = init then children (inner_of i0) @ ?us else kids (f u))" for u
    using z(3) i(3) h(3) by (cases "f u") (simp_all add: g)
  have k: "mset (kidlist ?g n) = mset (kidlist f n)"
  proof -
    define f1 where "f1 = f(t := Some z)"
    define f2 where "f2 = f1(init := Some i)"
    have "kidlist ?g n = kidlist f2 n"
      using t(2) by (intro kidlist_cong) (auto simp: kd f2_def f1_def z(3) i(3))
    moreover have "mset (kidlist f1 n) + mset ?us = mset (kidlist f n)"
      using mset_kidlist_upd [OF tn(1), of f "Some z"] t(1) z(3) unfolding f1_def by simp
    moreover have "mset (kidlist f2 n) + mset (children (inner_of i0)) = mset (kidlist f1 n) + mset (children (inner_of i0) @ ?us)"
      using mset_kidlist_upd [OF tn(2), of f1 "Some i"] t(2) i0 i(3) unfolding f2_def by (simp add: f1_def)
    ultimately show ?thesis by (simp add: union_ac)
  qed
  have s: "status ?g u = (if u = t then Some Zombie else status f u)" for u
    using z(5) i(5) h(5) i0 by (cases "f u") (auto simp: g status_def)
  have dom: "dom ?g = dom f" using t i0 by (auto simp: g domIff split: if_splits)
  have run: "{u. status f u = Some Running} = {t}" using table_invD(10) [OF inv] by auto
  then have st: "status f t = Some Running" by blast
  show ?thesis
    unfolding table_inv_def kidlist_mset_distinct [OF k] dom
  proof (intro conjI allI impI)
    show "?g init \<noteq> None" using t(2) by (simp add: g)
    show "dom f \<subseteq> {..<n}" "distinct q" "distinct (kidlist f n)" "set (kidlist f n) = dom f - {init}" using inv by (auto simp: table_inv_def)
    show "set q = {t. status ?g t = Some Ready}" "set_option None = {t. status ?g t = Some Running}"
      using table_invD(9) [OF inv] run st by (auto simp: s)
    fix u a
    assume a: "?g u = Some a"
    show "\<not> borrowed a" "strong a = (if task_status (inner_of a) = Zombie then 1 else 2)"
      using a z i h table_invD(3,4) [OF inv] i0 by (auto simp: g split: if_splits)
    show "u \<noteq> init" "children (inner_of a) = []" if zm: "task_status (inner_of a) = Zombie"
    proof -
      have "status ?g u = Some Zombie" using a zm by (simp add: status_def)
      then have zf: "u = t \<or> status f u = Some Zombie" by (simp add: s split: if_splits)
      then show ui: "u \<noteq> init" using t(2) table_invD(6) [OF inv] by auto
      show "children (inner_of a) = []"
        using a ui zf z(3) h(3) table_invD(5) [OF inv] by (auto simp: g status_def split: if_splits)
    qed
    show "\<forall>w \<in> set (children (inner_of a)). (u = init \<or> u < w) \<and> (\<exists>b. ?g w = Some b \<and> parent (inner_of b) = Some u)"
    proof
      fix w
      assume "w \<in> set (children (inner_of a))"
      then have w: "w \<in> set (kids (?g u))" using a by simp
      show "(u = init \<or> u < w) \<and> (\<exists>b. ?g w = Some b \<and> parent (inner_of b) = Some u)"
      proof (cases "w \<in> set ?us")
        case True
        have "u = init"
        proof (rule ccontr)
          assume "u \<noteq> init"
          then have "w \<in> set (kids (f u))" "u \<noteq> t" using w by (auto simp: kd split: if_splits)
          then show False using table_inv_kids(4) [OF inv t(1) True, of u] by (cases "f u") auto
        qed
        moreover obtain e where "f w = Some e" using us [OF True] by blast
        ultimately show ?thesis using True us [OF True] h(4) by (simp add: g)
      next
        case False
        then have wu: "w \<in> set (kids (f u))" using w i0 by (auto simp: kd split: if_splits)
        then obtain b where b: "f u = Some b" "w \<in> set (children (inner_of b))" by (cases "f u") auto
        obtain e where "f w = Some e" "parent (inner_of e) = Some u" using table_invD(7) [OF inv b] by blast
        then show ?thesis using False table_invD(13) [OF inv b] z(4) i(4) t(1) i0 by (auto simp: g)
      qed
    qed
  qed
qed

text \<open>\<open>waitpid\<close>: a zombie is taken out of the list of its parent and its cell is freed.\<close>

lemma table_inv_reap:
  assumes inv: "table_inv f n q cur init" and p: "f p = Some c" and e: "f u = Some e" "task_status (inner_of e) = Zombie"
    and kids: "children (inner_of c) = as @ u # bs"
    and d: "strong d = strong c" "\<not> borrowed d" "children (inner_of d) = as @ bs" "parent (inner_of d) = parent (inner_of c)"
      "task_status (inner_of d) = task_status (inner_of c)"
  shows "table_inv (f(p := Some d, u := None)) n q cur init"
proof -
  let ?g = "f(p := Some d, u := None)"
  have uc: "u \<in> set (children (inner_of c))" using kids by simp
  note tk = table_inv_kids [OF inv p uc]
  have pn: "p < n" "u < n" using table_invD(2) [OF inv] p e(1) by auto
  have ku: "children (inner_of e) = []" using table_invD(5) [OF inv e] .
  have k: "mset (u # kidlist ?g n) = mset (kidlist f n)"
  proof -
    have "kidlist ?g n = kidlist (f(p := Some d)) n"
      using tk(2) e(1) ku by (intro kidlist_same) simp
    moreover have "mset (kidlist (f(p := Some d)) n) + mset (as @ u # bs) = mset (kidlist f n) + mset (as @ bs)"
      using mset_kidlist_upd [OF pn(1), of f "Some d"] p kids d(3) by simp
    ultimately show ?thesis by simp
  qed
  have "distinct (u # kidlist ?g n)" "set (u # kidlist ?g n) = dom f - {init}"
    unfolding kidlist_mset_distinct [OF k] using table_invD(11,12) [OF inv] by simp_all
  then have kl: "distinct (kidlist ?g n)" "set (kidlist ?g n) = dom f - {init} - {u}" by auto
  have s: "status ?g w = (if w = u then None else status f w)" for w using p d(5) tk(2) by (simp add: status_def)
  have zu: "status f u = Some Zombie" using e by (simp add: status_def)
  have dom: "dom ?g = dom f - {u}" using p tk(2) by auto
  show ?thesis
    unfolding table_inv_def dom
  proof (intro conjI allI impI)
    show "?g init \<noteq> None" using tk(1) table_invD(1) [OF inv] by simp
    show "dom f - {u} \<subseteq> {..<n}" "distinct q" using inv by (auto simp: table_inv_def)
    show "distinct (kidlist ?g n)" "set (kidlist ?g n) = dom f - {u} - {init}" using kl by auto
    show "set q = {t. status ?g t = Some Ready}" "set_option cur = {t. status ?g t = Some Running}"
      using table_invD(9,10) [OF inv] zu by (auto simp: s)
    fix t a
    assume a: "?g t = Some a"
    obtain a0 where a0: "f t = Some a0" "strong a = strong a0" "\<not> borrowed a" "parent (inner_of a) = parent (inner_of a0)"
      "task_status (inner_of a) = task_status (inner_of a0)" "set (children (inner_of a)) \<subseteq> set (children (inner_of a0)) - {u}" "t \<noteq> u"
    proof -
      have "distinct (as @ u # bs)" using tk(3) kids by simp
      moreover have "u \<notin> set (children (inner_of x))" if "f t = Some x" "t \<noteq> p" for x
        using tk(4) [OF that(1)] that(2) by blast
      ultimately show ?thesis using that a p d kids tk(2) table_invD(3) [OF inv] by (auto split: if_splits)
    qed
    show "\<not> borrowed a" "strong a = (if task_status (inner_of a) = Zombie then 1 else 2)"
      using a0 table_invD(4) [OF inv a0(1)] by auto
    show "t \<noteq> init" "children (inner_of a) = []" if "task_status (inner_of a) = Zombie"
      using inv a0 that by (auto simp: table_inv_def)
    show "\<forall>w \<in> set (children (inner_of a)). (t = init \<or> t < w) \<and> (\<exists>b. ?g w = Some b \<and> parent (inner_of b) = Some t)"
    proof
      fix w
      assume "w \<in> set (children (inner_of a))"
      then have w: "w \<in> set (children (inner_of a0))" "w \<noteq> u" using a0(6) by auto
      obtain b where "f w = Some b" "parent (inner_of b) = Some t" using table_invD(7) [OF inv a0(1) w(1)] by blast
      then show "(t = init \<or> t < w) \<and> (\<exists>b. ?g w = Some b \<and> parent (inner_of b) = Some t)"
        using table_invD(13) [OF inv a0(1) w(1)] w(2) p d(4) by auto
    qed
  qed
qed

end
