(* ===== verification/User_Buffer.thy ===== *)
theory User_Buffer
  imports Page_Table
begin

text \<open>
  How the kernel reaches memory of a user process, from \<^verbatim>\<open>src/os/src/mm/page_table.rs\<close>:
  \<open>translated_byte_buffer\<close>, \<open>translated_str\<close> and \<open>translated_refmut\<close>.  The two loops may run
  forever, so they are partial functions whose value \<open>None\<close> is not returning.  The reference is
  the translation of each single byte (\<open>user_pa\<close>): the slices of a buffer are the translated
  bytes in order, the string is the translated bytes up to the terminator.
\<close>

subsection \<open>\<open>translated_byte_buffer\<close>\<close>

text \<open>One iteration of the loop: the slice that is pushed and the new value of \<open>start\<close>.\<close>

definition buffer_step :: "memory \<Rightarrow> PageTable \<Rightarrow> usize \<Rightarrow> usize \<Rightarrow> (slice \<times> usize) result" where
  "buffer_step m page_table start end =
     (let start_va = VirtAddr_from start;
          vpn = va_floor start_va
      in bind (unwrap (translate m page_table vpn)) (\<lambda>pte.
         let ppn = pte_ppn pte;
             vpn = vpn_step vpn;
             end_va = VirtAddr_from_vpn vpn;
             end_va = min end_va (VirtAddr_from end)
         in bind (if va_page_offset end_va = 0
                  then slice_from (get_bytes_array ppn) (va_page_offset start_va)
                  else slice_range (get_bytes_array ppn) (va_page_offset start_va) (va_page_offset end_va))
              (\<lambda>s. Inr (s, va_bits end_va))))"

partial_function (option) buffer_loop ::
  "memory \<Rightarrow> PageTable \<Rightarrow> usize \<Rightarrow> usize \<Rightarrow> slice list \<Rightarrow> slice list result option" where
  "buffer_loop m page_table start end v =
     (if start < end then
        (case buffer_step m page_table start end of
           Inl e \<Rightarrow> Some (Inl e)
         | Inr (s, start') \<Rightarrow> buffer_loop m page_table start' end (vec_push v s))
      else Some (Inr v))"

definition translated_byte_buffer :: "memory \<Rightarrow> usize \<Rightarrow> usize \<Rightarrow> usize \<Rightarrow> slice list result option" where
  "translated_byte_buffer m tok ptr len =
     (let page_table = from_token tok;
          start = ptr;
          end = start + len
      in buffer_loop m page_table start end [])"

subsection \<open>\<open>translated_str\<close> and \<open>translated_refmut\<close>\<close>

definition str_step :: "memory \<Rightarrow> PageTable \<Rightarrow> usize \<Rightarrow> u8 result" where
  "str_step m page_table va =
     bind (unwrap (translate_va m page_table (VirtAddr_from va))) (\<lambda>pa.
     bind (pa_get_mut pa) (\<lambda>a. Inr (m a)))"

text \<open>\<open>ch as char\<close> is the character whose code is the byte.\<close>

partial_function (option) str_loop :: "memory \<Rightarrow> PageTable \<Rightarrow> usize \<Rightarrow> string \<Rightarrow> string result option" where
  "str_loop m page_table va string =
     (case str_step m page_table va of
        Inl e \<Rightarrow> Some (Inl e)
      | Inr ch \<Rightarrow>
          if ch = 0 then Some (Inr string)
          else str_loop m page_table (va + 1) (string @ [char_of (unat ch)]))"

definition translated_str :: "memory \<Rightarrow> usize \<Rightarrow> usize \<Rightarrow> string result option" where
  "translated_str m tok ptr = str_loop m (from_token tok) ptr []"

text \<open>The reference to a value of type \<open>T\<close> is the address of its first byte.\<close>

definition translated_refmut :: "memory \<Rightarrow> usize \<Rightarrow> usize \<Rightarrow> usize result" where
  "translated_refmut m tok ptr =
     bind (unwrap (translate_va m (from_token tok) (VirtAddr_from ptr))) pa_get_mut"

subsection \<open>The reference: one byte at a time\<close>

definition user_pa :: "memory \<Rightarrow> PageTable \<Rightarrow> usize \<Rightarrow> usize option" where
  "user_pa m pt a = map_option pa_bits (translate_va m pt (VirtAddr_from a))"

definition slice_addrs :: "slice \<Rightarrow> usize list" where
  "slice_addrs s = map (\<lambda>k. slice_ptr s + of_nat k) [0..<unat (slice_len s)]"

lemma slice_read_addrs: "slice_read m s = map m (slice_addrs s)"
  by (simp add: slice_read_def read_bytes_def slice_addrs_def comp_def)

lemma VirtAddr_from_id: "unat a < 2 ^ 39 \<Longrightarrow> VirtAddr_from a = VirtAddr a"
  by (rule VirtAddr.expand) (simp add: take_bit_eq_self_if_less)

lemma user_pa_translate:
  assumes "unat a < 2 ^ 39" and "translate m pt (va_floor (VirtAddr a)) = Some e"
  shows "user_pa m pt a = Some (page_base (pte_ppn e) + take_bit 12 a)"
  using assms by (simp add: user_pa_def translate_va_translate VirtAddr_from_id)

text \<open>Inside one page the physical address advances with the virtual one.\<close>

lemma user_pa_same_page:
  assumes "user_pa m pt a = Some p" and "unat a mod 4096 + k < 4096" and "unat a + k < 2 ^ 39"
  shows "user_pa m pt (a + of_nat k) = Some (p + of_nat k)"
proof -
  have k: "unat (of_nat k :: usize) = k" using assms(2) by (intro unat_of_nat_less) simp
  have ak: "unat (a + of_nat k) = unat a + k"
    using assms(3) k by (subst unat_add_less) simp_all
  note page = same_page_nat [OF assms(2)]
  have vpn: "va_floor (VirtAddr (a + of_nat k)) = va_floor (VirtAddr a)"
    by (intro VirtPageNum_eqI) (simp add: unat_va_floor ak page)
  have "take_bit 12 (a + of_nat k) = take_bit 12 a + (of_nat k :: usize)"
    using assms(2) by (simp add: word_unat_eq_iff unat_take_bit ak unat_add_less k page)
  moreover obtain e where e: "translate m pt (va_floor (VirtAddr a)) = Some e"
    using assms(1,3) by (auto simp: user_pa_def translate_va_translate VirtAddr_from_id)
  ultimately show ?thesis
    using assms(1,3) user_pa_translate [OF _ e] user_pa_translate [of "a + of_nat k" m pt e] vpn
    by (simp add: ak add.assoc)
qed

subsection \<open>The loop over the pages of a buffer\<close>

text \<open>The end of the part of the buffer that lies in the page of \<open>start\<close>.\<close>

definition chunk_end :: "usize \<Rightarrow> usize \<Rightarrow> nat" where
  "chunk_end start end = min (unat start div 4096 * 4096 + 4096) (unat end)"

lemma chunk_end_bounds:
  assumes "unat start < unat end"
  shows "unat start < chunk_end start end" and "chunk_end start end \<le> unat end"
    and "unat start mod 4096 + (chunk_end start end - unat start) \<le> 4096"
proof -
  have "unat start = unat start div 4096 * 4096 + unat start mod 4096" "unat start mod 4096 < 4096"
    by simp_all
  with assms show "unat start < chunk_end start end" and "chunk_end start end \<le> unat end"
    and "unat start mod 4096 + (chunk_end start end - unat start) \<le> 4096"
    unfolding chunk_end_def by linarith+
qed

lemma buffer_end_va:
  assumes "unat start < 2 ^ 39" and "unat end < 2 ^ 39"
  shows "unat (va_bits (min (VirtAddr_from_vpn (vpn_step (va_floor (VirtAddr start)))) (VirtAddr end))) = chunk_end start end"
proof -
  have "unat start div 4096 < 2 ^ 27" using assms(1) by (simp add: less_mult_imp_div_less)
  then have "unat (vpn_bits (vpn_step (va_floor (VirtAddr start)))) = unat start div 4096 + 1"
    by (simp add: vpn_step_def) (subst unat_add_less; simp add: unat_va_floor)
  moreover from this have "unat (va_bits (VirtAddr_from_vpn (vpn_step (va_floor (VirtAddr start))))) = unat start div 4096 * 4096 + 4096"
    using \<open>unat start div 4096 < 2 ^ 27\<close> by (subst unat_VirtAddr_from_vpn) simp_all
  ultimately show ?thesis
    by (auto simp: chunk_end_def min_def less_eq_VirtAddr_def word_le_nat_alt)
qed

lemma chunk_end_mod:
  assumes "unat start < unat end"
  shows "(if chunk_end start end mod 4096 = 0 then 4096 else chunk_end start end mod 4096) =
    unat start mod 4096 + (chunk_end start end - unat start)"
proof -
  let ?n = "chunk_end start end" and ?b = "unat start div 4096 * 4096"
  have start: "unat start = ?b + unat start mod 4096" by simp
  define d where "d = ?n - ?b"
  have n: "?n = d + unat start div 4096 * 4096" and d: "0 < d" "d \<le> 4096" "unat start mod 4096 + (?n - unat start) = d"
    using chunk_end_bounds [OF assms] start unfolding d_def by linarith+
  have "?n mod 4096 = d mod 4096" unfolding n by (rule mod_mult_self1)
  with d show ?thesis by (cases "d = 4096") auto
qed

lemma buffer_step_ok:
  assumes "unat start < unat end" and "unat end < 2 ^ 39" and "user_pa m pt start = Some p"
  shows "buffer_step m pt start end =
    Inr (\<lparr>slice_ptr = p, slice_len = of_nat (chunk_end start end - unat start)\<rparr>, of_nat (chunk_end start end))"
proof -
  let ?n = "chunk_end start end" and ?off = "take_bit 12 start"
  define end_va where "end_va = min (VirtAddr_from_vpn (vpn_step (va_floor (VirtAddr start)))) (VirtAddr end)"
  have lt: "unat start < 2 ^ 39" using assms by simp
  obtain e where e: "translate m pt (va_floor (VirtAddr start)) = Some e"
    and p: "p = page_base (pte_ppn e) + ?off"
    using assms(3) lt by (auto simp: user_pa_def translate_va_translate VirtAddr_from_id)
  have n: "unat (va_bits end_va) = ?n"
    unfolding end_va_def using lt assms(2) by (rule buffer_end_va)
  note b = chunk_end_bounds [OF assms(1)] and stop = chunk_end_mod [OF assms(1)]
  have off: "unat ?off = unat start mod 4096" by (simp add: unat_take_bit)
  have small: "unat (of_nat (?n - unat start) :: usize) = ?n - unat start" "unat (of_nat ?n :: usize) = ?n"
    using b assms(2) by (intro unat_of_nat_less; simp)+
  have "va_bits end_va = of_nat ?n" using n small(2) by (simp add: word_unat_eq_iff)
  moreover have "(if va_page_offset end_va = 0 then slice_from (get_bytes_array (pte_ppn e)) ?off
      else slice_range (get_bytes_array (pte_ppn e)) ?off (va_page_offset end_va)) =
    Inr \<lparr>slice_ptr = p, slice_len = of_nat (?n - unat start)\<rparr>"
  proof -
    define stop_off where "stop_off = (if va_page_offset end_va = 0 then 4096 else va_page_offset end_va)"
    have u: "unat stop_off = unat ?off + (?n - unat start)"
      using stop n off by (auto simp: stop_off_def take_bit_12_eq_0_iff unat_take_bit split: if_splits)
    then have "?off \<le> stop_off" "stop_off \<le> 4096" and len: "stop_off - ?off = of_nat (?n - unat start)"
      using b(3) off small(1) by (simp_all add: word_le_nat_alt word_unat_eq_iff unat_sub)
    then have "slice_range (get_bytes_array (pte_ppn e)) ?off stop_off = Inr \<lparr>slice_ptr = p, slice_len = of_nat (?n - unat start)\<rparr>"
      by (simp add: slice_range_def get_bytes_array_def p)
    then show ?thesis
      by (simp add: slice_from_def get_bytes_array_def stop_off_def split: if_splits)
  qed
  moreover have "buffer_step m pt start end =
      bind (if va_page_offset end_va = 0 then slice_from (get_bytes_array (pte_ppn e)) ?off
        else slice_range (get_bytes_array (pte_ppn e)) ?off (va_page_offset end_va)) (\<lambda>s. Inr (s, va_bits end_va))"
    using lt assms(2) e by (simp add: buffer_step_def VirtAddr_from_id Let_def end_va_def)
  ultimately show ?thesis by (simp only: bind_Inr)
qed

text \<open>The slices of the loop are the translated bytes from \<open>start\<close> to \<open>end\<close>, in order.\<close>

lemma buffer_loop_ok:
  assumes "unat start \<le> unat end" and "unat end < 2 ^ 39"
    and "\<And>k. k < unat end - unat start \<Longrightarrow> user_pa m pt (start + of_nat k) \<noteq> None"
  shows "\<exists>v'. buffer_loop m pt start end v = Some (Inr (v @ v')) \<and>
    map Some (concat (map slice_addrs v')) = map (\<lambda>k. user_pa m pt (start + of_nat k)) [0..<unat end - unat start]"
  using assms
proof (induction "unat end - unat start" arbitrary: start v rule: less_induct)
  case less
  show ?case
  proof (cases "unat start < unat end")
    case False
    then show ?thesis
      by (subst buffer_loop.simps) (auto simp: word_less_nat_alt)
  next
    case True
    let ?n = "chunk_end start end"
    define k where "k = ?n - unat start"
    note b = chunk_end_bounds [OF True]
    obtain p where p: "user_pa m pt start = Some p"
      using less.prems(3) [of 0] True by auto
    let ?s = "\<lparr>slice_ptr = p, slice_len = of_nat k\<rparr>"
    note step = buffer_step_ok [OF True less.prems(2) p, folded k_def]
    have n: "unat (of_nat ?n :: usize) = ?n" and k: "unat (of_nat k :: usize) = k"
      using b less.prems(2) by (intro unat_of_nat_less; simp add: k_def)+
    have tail: "of_nat ?n + of_nat i = start + (of_nat (k + i) :: usize)" for i
      using b(1) unfolding k_def by (simp add: of_nat_diff less_imp_le)
    have "\<exists>v'. buffer_loop m pt (of_nat ?n) end (v @ [?s]) = Some (Inr ((v @ [?s]) @ v')) \<and>
      map Some (concat (map slice_addrs v')) =
        map (\<lambda>i. user_pa m pt (of_nat ?n + of_nat i)) [0..<unat end - unat (of_nat ?n :: usize)]"
    proof (rule less.hyps)
      show "unat end - unat (of_nat ?n :: usize) < unat end - unat start" "unat (of_nat ?n :: usize) \<le> unat end"
        using b n by linarith+
      show "user_pa m pt (of_nat ?n + of_nat i) \<noteq> None" if "i < unat end - unat (of_nat ?n :: usize)" for i
      proof -
        have "k + i < unat end - unat start" using that b(1,2) n unfolding k_def by linarith
        from less.prems(3) [OF this] show ?thesis by (simp only: tail not_False_eq_True)
      qed
    qed (rule less.prems(2))
    then obtain v' where v': "buffer_loop m pt (of_nat ?n) end (v @ [?s]) = Some (Inr (v @ ?s # v'))"
      "map Some (concat (map slice_addrs v')) = map (\<lambda>i. user_pa m pt (start + of_nat (k + i))) [0..<unat end - ?n]"
      unfolding n tail by auto
    have head: "user_pa m pt (start + of_nat i) = Some (p + of_nat i)" if "i < k" for i
      using that b less.prems(2) by (intro user_pa_same_page [OF p]) (auto simp: k_def)
    have "map Some (slice_addrs ?s) = map (\<lambda>i. user_pa m pt (start + of_nat i)) [0..<k]"
      using k by (simp add: slice_addrs_def head)
    moreover have "[0..<unat end - unat start] = [0..<k] @ map (\<lambda>i. k + i) [0..<unat end - ?n]"
    proof -
      have "unat end - unat start = k + (unat end - ?n)" using b unfolding k_def by linarith
      then show ?thesis by (simp only: upt_split)
    qed
    ultimately have "map Some (concat (map slice_addrs (?s # v'))) =
        map (\<lambda>k. user_pa m pt (start + of_nat k)) [0..<unat end - unat start]"
      using v'(2) by (simp add: comp_def)
    moreover have "buffer_loop m pt start end v = Some (Inr (v @ ?s # v'))"
      using True v'(1) step by (subst buffer_loop.simps) (simp add: word_less_nat_alt)
    ultimately show ?thesis by blast
  qed
qed

subsection \<open>Buffers above the 39-bit address space\<close>

text \<open>
  The step masks both addresses, so it is the step between the masked addresses; at the masked
  end it makes no progress.
\<close>

lemma buffer_step_masked:
  "buffer_step m pt start end = buffer_step m pt (take_bit 39 start) (take_bit 39 end)"
proof -
  have "VirtAddr_from (take_bit 39 w) = VirtAddr_from w" for w
    by (rule VirtAddr.expand) simp
  then show ?thesis unfolding buffer_step_def by simp
qed

lemma buffer_step_at_end:
  assumes "unat a < 2 ^ 39" and "user_pa m pt a \<noteq> None"
  shows "\<exists>s. buffer_step m pt a a = Inr (s, a)"
proof -
  obtain e where e: "translate m pt (va_floor (VirtAddr a)) = Some e"
    using assms by (auto simp: user_pa_def translate_va_translate VirtAddr_from_id)
  have "chunk_end a a = unat a"
  proof -
    have "unat a < unat a div 4096 * 4096 + 4096" by (metis add.commute div_mod_decomp mod_less_divisor nat_add_left_cancel_less zero_less_numeral)
    then show ?thesis by (simp add: chunk_end_def)
  qed
  then have "min (VirtAddr_from_vpn (vpn_step (va_floor (VirtAddr a)))) (VirtAddr a) = VirtAddr a"
    using buffer_end_va [OF assms(1,1)] by (intro VirtAddr_eqI) simp
  moreover have "take_bit 12 a \<le> 0x1000"
    by (simp add: word_le_nat_alt unat_take_bit less_imp_le)
  ultimately show ?thesis
    using e assms(1) by (simp add: buffer_step_def VirtAddr_from_id slice_from_def slice_range_def get_bytes_array_def Let_def)
qed

text \<open>A loop whose step keeps an invariant that implies the loop condition never returns.\<close>

lemma buffer_loop_never_returns:
  assumes "I start" and "\<And>a. I a \<Longrightarrow> a < end \<and> (\<exists>s b. buffer_step m pt a end = Inr (s, b) \<and> I b)"
  shows "buffer_loop m pt start end v = None"
proof -
  have "\<not> (m' = m \<and> pt' = pt \<and> end' = end \<and> I a)"
    if "buffer_loop m' pt' a end' v' = Some y" for m' pt' a end' v' y
  proof (rule buffer_loop.raw_induct [OF _ that])
    fix loop m' pt' a end' v' y
    assume IH: "\<And>m' pt' a end' v' y. loop m' pt' a end' v' = Some y \<Longrightarrow> \<not> (m' = m \<and> pt' = pt \<and> end' = end \<and> I a)"
      and body: "(if a < end' then case buffer_step m' pt' a end' of Inl e \<Rightarrow> Some (Inl e)
         | Inr (s, b) \<Rightarrow> loop m' pt' b end' (vec_push v' s) else Some (Inr v')) = Some y"
    show "\<not> (m' = m \<and> pt' = pt \<and> end' = end \<and> I a)"
    proof
      assume a: "m' = m \<and> pt' = pt \<and> end' = end \<and> I a"
      with assms(2) [of a] obtain s b where "a < end" "buffer_step m pt a end = Inr (s, b)" "I b" by auto
      with body a IH [of m pt b "end" "vec_push v' s" y] show False by simp
    qed
  qed
  with assms(1) show ?thesis by (cases "buffer_loop m pt start end v") auto
qed

lemma buffer_loop_diverges:
  assumes "2 ^ 39 \<le> unat end" and "unat (take_bit 39 start) \<le> unat (take_bit 39 end)" and "start < end"
    and mapped: "\<And>x. unat (take_bit 39 start) \<le> unat x \<Longrightarrow> unat x \<le> unat (take_bit 39 end) \<Longrightarrow> user_pa m pt x \<noteq> None"
  shows "buffer_loop m pt start end v = None"
proof (rule buffer_loop_never_returns [where I = "\<lambda>a. a < end \<and> unat (take_bit 39 start) \<le> unat (take_bit 39 a) \<and>
    unat (take_bit 39 a) \<le> unat (take_bit 39 end)"])
  fix a :: usize
  let ?a = "take_bit 39 a" and ?e = "take_bit 39 end"
  assume a: "a < end \<and> unat (take_bit 39 start) \<le> unat ?a \<and> unat ?a \<le> unat ?e"
  then have m: "user_pa m pt ?a \<noteq> None" by (intro mapped) auto
  have e: "unat ?e < 2 ^ 39" by (simp add: unat_take_bit)
  have "\<exists>s b. buffer_step m pt ?a ?e = Inr (s, b) \<and> unat ?a \<le> unat b \<and> unat b \<le> unat ?e"
  proof (cases "unat ?a < unat ?e")
    case True
    note c = chunk_end_bounds [OF True]
    obtain p where "user_pa m pt ?a = Some p" using m by auto
    from buffer_step_ok [OF True e this] c e show ?thesis by simp
  next
    case False
    with a have eq: "?a = ?e" by (simp add: word_unat_eq_iff)
    have "user_pa m pt ?e \<noteq> None" using m eq by simp
    from buffer_step_at_end [OF e this] eq show ?thesis by fastforce
  qed
  then obtain s b where s: "buffer_step m pt a end = Inr (s, b)" and b: "unat ?a \<le> unat b" "unat b \<le> unat ?e"
    using buffer_step_masked by metis
  have "take_bit 39 b = b" using b(2) e by (intro take_bit_eq_self_if_less) simp
  moreover have "b < end" using b(2) e assms(1) by (simp add: word_less_nat_alt)
  ultimately show "a < end \<and> (\<exists>s b. buffer_step m pt a end = Inr (s, b) \<and> b < end \<and>
      unat (take_bit 39 start) \<le> unat (take_bit 39 b) \<and> unat (take_bit 39 b) \<le> unat ?e)"
    using a s b by (intro conjI exI [of _ s] exI [of _ b]) auto
qed (use assms in auto)

subsection \<open>Strings and references\<close>

lemma user_pa_unwrap:
  "user_pa m pt a = Some p \<Longrightarrow> bind (unwrap (translate_va m pt (VirtAddr_from a))) f = f (PhysAddr p)"
  by (auto simp: user_pa_def)

lemma str_step_ok: "user_pa m pt a = Some p \<Longrightarrow> p \<noteq> 0 \<Longrightarrow> str_step m pt a = Inr (m p)"
  by (simp add: str_step_def user_pa_unwrap pa_get_mut_def as_mut_unwrap_def)

lemma str_loop_ok:
  assumes "\<And>k. k \<le> n \<Longrightarrow> \<exists>p. user_pa m pt (va + of_nat k) = Some p \<and> p \<noteq> 0 \<and> (m p = 0 \<longleftrightarrow> k = n)"
  shows "str_loop m pt va str =
    Some (Inr (str @ map (\<lambda>k. char_of (unat (m (the (user_pa m pt (va + of_nat k)))))) [0..<n]))"
  using assms
proof (induction n arbitrary: va str)
  case 0
  then obtain p where "user_pa m pt va = Some p" "p \<noteq> 0" "m p = 0" by force
  then show ?case by (subst str_loop.simps) (simp add: str_step_ok)
next
  case (Suc n)
  obtain p where p: "user_pa m pt va = Some p" "p \<noteq> 0" "m p \<noteq> 0" using Suc.prems [of 0] by auto
  have "\<exists>p. user_pa m pt (va + 1 + of_nat k) = Some p \<and> p \<noteq> 0 \<and> (m p = 0 \<longleftrightarrow> k = n)" if "k \<le> n" for k
    using Suc.prems [of "Suc k"] that by (simp add: add.assoc)
  note IH = Suc.IH [OF this]
  have "str_loop m pt va str = str_loop m pt (va + 1) (str @ [char_of (unat (m p))])"
    using p by (subst str_loop.simps) (simp add: str_step_ok)
  also have "\<dots> = Some (Inr (str @ map (\<lambda>k. char_of (unat (m (the (user_pa m pt (va + of_nat k)))))) [0..<Suc n]))"
  proof -
    have "[0..<Suc n] = 0 # map Suc [0..<n]" by (simp add: upt_conv_Cons map_Suc_upt del: upt_Suc)
    with p show ?thesis by (simp add: IH comp_def add.assoc del: upt_Suc)
  qed
  finally show ?case .
qed

text \<open>The concrete buffers of the witnesses lie in the page that \<open>ex_mapped_table\<close> maps.\<close>

lemma ex_user_table:
  obtains pt st where "pt_inv st pt" and
    "\<And>a. unat a div 4096 = 5 \<Longrightarrow> user_pa (mm_mem st) (from_token (token pt)) a = Some (0x80500000 + take_bit 12 a)"
proof -
  obtain pt st where pt: "pt_inv st pt"
    "\<And>w. pt_lookup (mm_mem st) pt w = (if indexes w = indexes (VirtPageNum 5)
       then Some (PageTableEntry_new (PhysPageNum 0x80500) (PTE_R OR PTE_V)) else None)"
    using ex_mapped_table by blast
  have p: "page_base (pte_ppn (PageTableEntry_new (PhysPageNum 0x80500) (PTE_R OR PTE_V))) = 0x80500000"
    by (subst pte_ppn_new) (simp_all add: ppn_ok_def page_base_def PhysAddr_from_ppn_def)
  have root: "root_ppn (from_token (token pt)) = root_ppn pt"
    using root_ppn_ok [OF pt(1)] by (rule from_token_token)
  have "user_pa (mm_mem st) (from_token (token pt)) a = Some (0x80500000 + take_bit 12 a)" if "unat a div 4096 = 5" for a
  proof -
    have v: "va_floor (VirtAddr a) = VirtPageNum 5"
      using that by (intro VirtPageNum_eqI) (simp add: unat_va_floor)
    have "unat a = unat a div 4096 * 4096 + unat a mod 4096" "unat a mod 4096 < 4096" by simp_all
    then have "unat a < 2 ^ 39" unfolding that by simp
    moreover have "translate (mm_mem st) (from_token (token pt)) (va_floor (VirtAddr a)) =
        Some (PageTableEntry_new (PhysPageNum 0x80500) (PTE_R OR PTE_V))"
      unfolding translate_def find_pte_root [OF root] using translate_mapped [of "mm_mem st" pt "VirtPageNum 5"] pt(2) v
      by (simp add: translate_def)
    ultimately show ?thesis by (simp add: user_pa_translate p)
  qed
  with that pt(1) show ?thesis by blast
qed

text \<open>A memory in which every word is the entry \<open>0x6873\<close>, which is valid and names page \<open>0x1a\<close>, in every table.\<close>

lemma ex_sh_memory:
  obtains m :: memory where "\<forall>pt a. unat a < 2 ^ 39 \<longrightarrow> user_pa m pt a = Some (0x1a000 + take_bit 12 a)"
    and "m 0x1a000 = 0x73" and "m 0x1a001 = 0x68" and "m 0x1a002 = 0"
proof -
  define m :: memory where "m = (\<lambda>a. if unat a mod 8 = 0 then 0x73 else if unat a mod 8 = 1 then 0x68 else 0)"
  have mod: "unat (8 * a + k) mod 8 = unat k mod 8" for a k :: usize
    by (simp add: unat_word_ariths mod_mod_cancel mod_simps)
  have "read_bytes m (8 * a) 8 = [0x73, 0x68, 0, 0, 0, 0, 0, 0]" for a
  proof -
    have "[0..<8] = [0, 1, 2, 3, 4, 5, 6, 7 :: nat]" by (simp add: upt_rec)
    then show ?thesis using mod [of a 0] by (simp add: read_bytes_def m_def mod)
  qed
  then have word: "read_u64 m (8 * a) = 0x6873" for a
    by (simp add: read_u64_def)
  have slots: "get_pte_array p i = 8 * (push_bit 9 (ppn_bits p) + i)" for p i
    by (simp add: get_pte_array_def page_base_def PhysAddr_from_ppn_def push_bit_eq_mult algebra_simps)
  have load: "load_pte m (get_pte_array p i) = PageTableEntry 0x6873" for p i
    unfolding slots load_pte_def word ..
  have valid: "is_valid (PageTableEntry 0x6873)" by (simp add: is_valid_iff)
  have "translate m pt v = Some (PageTableEntry 0x6873)" for pt v
    by (simp add: translate_def find_pte_def indexes_eq load valid)
  then have pa: "user_pa m pt a = Some (0x1a000 + take_bit 12 a)" if "unat a < 2 ^ 39" for pt a
    using that by (subst user_pa_translate [where e = "PageTableEntry 0x6873"])
      (simp_all add: page_base_def PhysAddr_from_ppn_def pte_simps)
  have bytes: "m 0x1a000 = 0x73" "m 0x1a001 = 0x68" "m 0x1a002 = 0" by (simp_all add: m_def)
  from that [OF _ bytes] pa show ?thesis by blast
qed

lemma translated_byte_buffer_ok:
  assumes "unat ptr + unat len < 2 ^ 39"
    and "\<forall>k < unat len. user_pa m (from_token tok) (ptr + of_nat k) \<noteq> None"
  shows "\<exists>v. translated_byte_buffer m tok ptr len = Some (Inr v) \<and>
    map Some (concat (map slice_addrs v)) = map (\<lambda>k. user_pa m (from_token tok) (ptr + of_nat k)) [0..<unat len]"
proof -
  have e: "unat (ptr + len) = unat ptr + unat len"
    using assms(1) by (intro unat_add_less) simp
  have "\<exists>v. buffer_loop m (from_token tok) ptr (ptr + len) [] = Some (Inr ([] @ v)) \<and>
    map Some (concat (map slice_addrs v)) =
      map (\<lambda>k. user_pa m (from_token tok) (ptr + of_nat k)) [0..<unat (ptr + len) - unat ptr]"
    by (rule buffer_loop_ok) (use assms e in auto)
  then show ?thesis by (simp add: translated_byte_buffer_def e)
qed

subsection \<open>Properties\<close>

text \<open>
  C25: a user buffer that lies below the end of the 39-bit address space and whose bytes all
  translate is returned, and the slices are exactly the translated bytes of the buffer, in order
  and without overlap or gap.
\<close>

theorem translated_byte_buffer_covers:
  assumes "unat ptr + unat len < 2 ^ 39"
    and "\<forall>k < unat len. user_pa m (from_token tok) (ptr + of_nat k) \<noteq> None"
  shows "\<exists>v. translated_byte_buffer m tok ptr len = Some (Inr v) \<and>
    map Some (concat (map slice_addrs v)) = map (\<lambda>k. user_pa m (from_token tok) (ptr + of_nat k)) [0..<unat len]"
  using assms by (rule translated_byte_buffer_ok)

theorem translated_byte_buffer_covers_witness:
  "\<exists>st pt v. pt_inv st pt \<and> translated_byte_buffer (mm_mem st) (token pt) 0x5ff8 8 = Some (Inr v) \<and>
     map Some (concat (map slice_addrs v)) =
       map (\<lambda>k. user_pa (mm_mem st) (from_token (token pt)) (0x5ff8 + of_nat k)) [0..<8]"
proof -
  obtain pt st where pt: "pt_inv st pt"
    "\<And>a. unat a div 4096 = 5 \<Longrightarrow> user_pa (mm_mem st) (from_token (token pt)) a = Some (0x80500000 + take_bit 12 a)"
    using ex_user_table by blast
  have "user_pa (mm_mem st) (from_token (token pt)) (0x5ff8 + of_nat k) \<noteq> None" if "k < 8" for k
  proof -
    have "unat (0x5ff8 + of_nat k :: usize) = 0x5ff8 + k" using that by (subst unat_add_less) simp_all
    moreover have "(0x5ff8 + k) div 4096 = 5" using that by (intro div_nat_eqI) simp_all
    ultimately show ?thesis using pt(2) by simp
  qed
  then have "\<forall>k < unat (8 :: usize). user_pa (mm_mem st) (from_token (token pt)) (0x5ff8 + of_nat k) \<noteq> None"
    by simp
  from translated_byte_buffer_covers [OF _ this] pt(1) show ?thesis by auto
qed

text \<open>
  C39: a buffer above the 39-bit address space, whose masked pages are mapped, is never returned:
  \<open>start\<close> is masked to 39 bits in every round and \<open>end\<close> is not, so the loop condition stays true.
  The kernel pushes slices until its heap is exhausted.
\<close>

theorem translated_byte_buffer_diverges:
  assumes "2 ^ 39 \<le> unat ptr" and "0 < unat len" and "unat ptr + unat len < 2 ^ 64"
    and "unat (take_bit 39 ptr) \<le> unat (take_bit 39 (ptr + len))"
    and "\<forall>x. unat (take_bit 39 ptr) \<le> unat x \<longrightarrow> unat x \<le> unat (take_bit 39 (ptr + len)) \<longrightarrow>
      user_pa m (from_token tok) x \<noteq> None"
  shows "translated_byte_buffer m tok ptr len = None"
proof -
  have e: "unat (ptr + len) = unat ptr + unat len"
    using assms(3) by (intro unat_add_less) simp
  have "buffer_loop m (from_token tok) ptr (ptr + len) [] = None"
    by (rule buffer_loop_diverges) (use assms e in \<open>auto simp: word_less_nat_alt\<close>)
  then show ?thesis by (simp add: translated_byte_buffer_def)
qed

theorem translated_byte_buffer_diverges_witness:
  "\<exists>st pt. pt_inv st pt \<and> translated_byte_buffer (mm_mem st) (token pt) (0x8000000000 + 0x5100) 16 = None"
proof -
  obtain pt st where pt: "pt_inv st pt"
    "\<And>a. unat a div 4096 = 5 \<Longrightarrow> user_pa (mm_mem st) (from_token (token pt)) a = Some (0x80500000 + take_bit 12 a)"
    using ex_user_table by blast
  have t: "unat (take_bit 39 (0x8000005100 :: usize)) = 0x5100" "unat (take_bit 39 (0x8000005110 :: usize)) = 0x5110"
    by (simp_all add: unat_take_bit)
  have "user_pa (mm_mem st) (from_token (token pt)) x \<noteq> None" if "0x5100 \<le> unat x" "unat x \<le> 0x5110" for x
    using that pt(2) [of x] by (simp add: div_nat_eqI)
  then have "translated_byte_buffer (mm_mem st) (token pt) 0x8000005100 16 = None"
    by (intro translated_byte_buffer_diverges) (simp_all add: t)
  with pt(1) show ?thesis by auto
qed

text \<open>
  C37: \<open>translated_str\<close> on a string that is terminated and mapped returns, with the bytes before
  the terminator in order, also when the string crosses pages.
\<close>

theorem translated_str_reads:
  assumes "\<forall>k \<le> n. \<exists>p. user_pa m (from_token tok) (ptr + of_nat k) = Some p \<and> p \<noteq> 0 \<and> (m p = 0 \<longleftrightarrow> k = n)"
  shows "translated_str m tok ptr =
    Some (Inr (map (\<lambda>k. char_of (unat (m (the (user_pa m (from_token tok) (ptr + of_nat k)))))) [0..<n]))"
  using str_loop_ok [of n m "from_token tok" ptr "[]"] assms by (simp add: translated_str_def)

theorem translated_str_reads_witness:
  "\<exists>m tok. translated_str m tok 0x5000 = Some (Inr ''sh'')"
proof -
  obtain m :: memory where "\<forall>pt a. unat a < 2 ^ 39 \<longrightarrow> user_pa m pt a = Some (0x1a000 + take_bit 12 a)"
    and bytes: "m 0x1a000 = 0x73" "m 0x1a001 = 0x68" "m 0x1a002 = 0" by (rule ex_sh_memory)
  then have pa: "user_pa m pt a = Some (0x1a000 + take_bit 12 a)" if "unat a < 2 ^ 39" for pt a using that by blast
  have "\<exists>p. user_pa m (from_token 0) (0x5000 + of_nat k) = Some p \<and> p \<noteq> 0 \<and> (m p = 0 \<longleftrightarrow> k = 2)" if "k \<le> 2" for k
  proof -
    have "k = 0 \<or> k = 1 \<or> k = 2" using that by auto
    then show ?thesis by (auto simp: pa bytes)
  qed
  then have "translated_str m 0 0x5000 =
      Some (Inr (map (\<lambda>k. char_of (unat (m (the (user_pa m (from_token 0) (0x5000 + of_nat k)))))) [0..<2]))"
    by (intro translated_str_reads) blast
  moreover have "[0..<2] = [0, 1 :: nat]" by (simp add: upt_rec)
  ultimately have "translated_str m 0 0x5000 = Some (Inr ''sh'')"
    by (simp add: pa bytes char_of_def bit_0)
  then show ?thesis by blast
qed

text \<open>
  A reference to a value of \<open>n\<close> bytes that lies in one mapped page addresses exactly the
  translated bytes of the value; outside one page only the first byte is looked at.
\<close>

lemma translated_refmut_bytes:
  assumes "translated_refmut m tok ptr = Inr a" and "unat ptr mod 4096 + n \<le> 4096" and "unat ptr + n < 2 ^ 39"
    and "k < n"
  shows "user_pa m (from_token tok) (ptr + of_nat k) = Some (a + of_nat k)"
proof -
  have "user_pa m (from_token tok) ptr = Some a"
    using assms(1) by (auto simp: translated_refmut_def user_pa_def res_simps pa_get_mut_def as_mut_unwrap_def split: if_splits)
  then show ?thesis using assms(2-4) by (intro user_pa_same_page) auto
qed

end
