(* ===== verification/Timer.thy ===== *)
theory Timer
  imports Prelude
begin

text \<open>
  The timer (\<^verbatim>\<open>src/os/src/timer.rs\<close>) on the QEMU board.  \<open>now\<close> is the value of the \<open>time\<close> register.
\<close>

definition CLOCK_FREQ :: usize where
  [simp]: "CLOCK_FREQ = 12500000"

definition TICKS_PER_SEC :: usize where
  [simp]: "TICKS_PER_SEC = 100"

definition MSEC_PER_SEC :: usize where
  [simp]: "MSEC_PER_SEC = 1000"

definition get_time :: "usize \<Rightarrow> usize" where
  "get_time now = now"

definition get_time_ms :: "usize \<Rightarrow> usize" where
  "get_time_ms now = now div (CLOCK_FREQ div MSEC_PER_SEC)"

text \<open>The argument of \<open>set_timer\<close>.\<close>

definition set_next_trigger :: "usize \<Rightarrow> usize" where
  "set_next_trigger now = get_time now + CLOCK_FREQ div TICKS_PER_SEC"

lemma unat_get_time_ms: "unat (get_time_ms now) = unat now div 12500"
  by (simp add: get_time_ms_def unat_div)

end
