(* ===== verification/Syscall.thy ===== *)
theory Syscall
  imports Process User_Buffer Timer
begin

text \<open>
  The system calls (\<^verbatim>\<open>src/os/src/syscall/\<close>).  A call either returns to its caller or gives up the
  hart, in which case the idle loop runs next; it may also not return at all, since it may loop in
  \<open>translated_byte_buffer\<close> or \<open>translated_str\<close>.  What the hardware and the SBI answer during the
  call, the time and a character of the console, is an argument.
\<close>

datatype 'a flow = Returns 'a kernel | Switched kernel

record answers =
  ans_time :: usize
  ans_char :: usize

definition FD_STDIN :: usize where
  [simp]: "FD_STDIN = 0"

definition FD_STDOUT :: usize where
  [simp]: "FD_STDOUT = 1"

subsection \<open>\<^verbatim>\<open>fs.rs\<close>\<close>

text \<open>\<open>print!("{}", str)\<close>\<close>

definition print :: "nat list \<Rightarrow> kernel \<Rightarrow> kernel" where
  "print s k = k\<lparr>console := console k @ s\<rparr>"

definition write_buffer :: "slice \<Rightarrow> kernel \<Rightarrow> kernel result" where
  "write_buffer buffer k = bind (unwrap (from_utf8 (slice_read (mm_mem (mm k)) buffer))) (\<lambda>s. Inr (print s k))"

definition sys_write :: "usize \<Rightarrow> usize \<Rightarrow> usize \<Rightarrow> kernel \<Rightarrow> isize flow result option" where
  "sys_write fd buf len k =
     (if fd = FD_STDOUT then
        obind (Some (current_user_token k)) (\<lambda>(tok, k).
        obind (translated_byte_buffer (mm_mem (mm k)) tok buf len) (\<lambda>buffers.
        Some (bind (for_each write_buffer buffers k) (\<lambda>k. Inr (Returns len k)))))
      else Some (Inl (UnsupportedFd fd)))"

text \<open>The loop of \<open>sys_read\<close> from a call of \<open>console_getchar\<close> on, which answers \<open>c\<close>.\<close>

definition read_loop :: "usize \<Rightarrow> usize \<Rightarrow> usize \<Rightarrow> usize \<Rightarrow> kernel \<Rightarrow> isize flow result option" where
  "read_loop c fd buf len k =
     (if c = 0 then Some (bind (suspend_current_and_run_next (ResumeRead fd buf len) k) (\<lambda>k. Inr (Switched k)))
      else
        (let ch = ucast c :: u8
         in obind (Some (current_user_token k)) (\<lambda>(tok, k).
            obind (translated_byte_buffer (mm_mem (mm k)) tok buf len) (\<lambda>buffers.
            case buffers of
              [] \<Rightarrow> Some (Inl (IndexOutOfBounds 0))
            | b # _ \<Rightarrow> Some (Inr (Returns 1 (k\<lparr>mm := (mm k)\<lparr>mm_mem := (mm_mem (mm k))(slice_ptr b := ch)\<rparr>\<rparr>)))))))"

definition sys_read :: "answers \<Rightarrow> usize \<Rightarrow> usize \<Rightarrow> usize \<Rightarrow> kernel \<Rightarrow> isize flow result option" where
  "sys_read ans fd buf len k =
     (if fd = FD_STDIN then
        obind (Some (assert_that (len = 1) (UnsupportedLen len))) (\<lambda>_.
        read_loop (ans_char ans) fd buf len k)
      else Some (Inl (UnsupportedFd fd)))"

subsection \<open>\<^verbatim>\<open>process.rs\<close>\<close>

text \<open>The \<open>panic!\<close> after the call is never reached: the call does not return.\<close>

definition sys_exit :: "kernel_env \<Rightarrow> i32 \<Rightarrow> kernel \<Rightarrow> isize flow result option" where
  "sys_exit env code k = obind (exit_current_and_run_next env code k) (\<lambda>k. Some (Inr (Switched k)))"

definition sys_yield :: "kernel \<Rightarrow> isize flow result" where
  "sys_yield k = bind (suspend_current_and_run_next ResumeYield k) (\<lambda>k. Inr (Switched k))"

definition sys_get_time :: "answers \<Rightarrow> kernel \<Rightarrow> isize flow" where
  "sys_get_time ans k = Returns (get_time_ms (ans_time ans)) k"

definition sys_getpid :: "kernel \<Rightarrow> isize flow result" where
  "sys_getpid k =
     bind (current_task k) (\<lambda>(task, k).
     bind (unwrap task) (\<lambda>task.
     bind (arc_get task k) (\<lambda>c.
     bind (Arc_drop task k) (\<lambda>k.
     Inr (Returns (pid_num (tcb_pid (arc_data c))) k)))))"

definition sys_fork :: "kernel_env \<Rightarrow> kernel \<Rightarrow> isize flow result" where
  "sys_fork env k =
     bind (current_task k) (\<lambda>(task, k).
     bind (unwrap task) (\<lambda>task.
     bind (fork env task k) (\<lambda>(new_task, k).
     bind (arc_get new_task k) (\<lambda>c.
     let new_pid = pid_num (tcb_pid (arc_data c))
     in bind (inner_exclusive_access new_task k) (\<lambda>(inner, k).
        bind (get_trap_cx inner) (\<lambda>trap_cx.
        bind (inner_release new_task inner k) (\<lambda>k.
        let k = k\<lparr>mm := (mm k)\<lparr>mm_mem := write_u64 (mm_mem (mm k)) (cx_field trap_cx 10) 0\<rparr>\<rparr>;
            k = add_task new_task k
        in bind (Arc_drop task k) (\<lambda>k.
           Inr (Returns new_pid k)))))))))"

definition sys_exec :: "kernel_env \<Rightarrow> usize \<Rightarrow> kernel \<Rightarrow> isize flow result option" where
  "sys_exec env path k =
     obind (Some (current_user_token k)) (\<lambda>(tok, k).
     obind (translated_str (mm_mem (mm k)) tok path) (\<lambda>path.
     obind (get_app_data_by_name (env_num_app env) (env_app_names env) (map of_char path) (mm_mem (mm k))) (\<lambda>data.
     case data of
       Some data \<Rightarrow>
         Some (bind (current_task k) (\<lambda>(task, k).
               bind (unwrap task) (\<lambda>task.
               bind (exec env task data k) (\<lambda>k.
               bind (Arc_drop task k) (\<lambda>k.
               Inr (Returns 0 k))))))
     | None \<Rightarrow> Some (Inr (Returns (- 1) k)))))"

text \<open>
  \<open>iter().enumerate().find(p)\<close> with a predicate that borrows cells; \<open>any\<close> is that there is such an element.
\<close>

fun find_child :: "(task_ref \<Rightarrow> kernel \<Rightarrow> (bool \<times> kernel) result) \<Rightarrow> nat \<Rightarrow> task_ref list \<Rightarrow> kernel \<Rightarrow> ((nat \<times> task_ref) option \<times> kernel) result" where
  "find_child p idx [] k = Inr (None, k)"
| "find_child p idx (c # cs) k =
     bind (p c k) (\<lambda>(b, k). if b then Inr (Some (idx, c), k) else find_child p (Suc idx) cs k)"

definition match_pid :: "isize \<Rightarrow> task_ref \<Rightarrow> kernel \<Rightarrow> (bool \<times> kernel) result" where
  "match_pid pid p k = bind (arc_get p k) (\<lambda>c. Inr (pid = - 1 \<or> pid = getpid (arc_data c), k))"

definition match_zombie :: "isize \<Rightarrow> task_ref \<Rightarrow> kernel \<Rightarrow> (bool \<times> kernel) result" where
  "match_zombie pid p k =
     bind (inner_exclusive_access p k) (\<lambda>(inner, k).
     bind (if is_zombie inner then match_pid pid p k else Inr (False, k)) (\<lambda>(b, k).
     bind (inner_release p inner k) (\<lambda>k. Inr (b, k))))"

text \<open>The branch of \<open>sys_waitpid\<close> that takes the child with index \<open>idx\<close>; \<open>c\<close> is that child.\<close>

definition take_child :: "usize \<Rightarrow> nat \<Rightarrow> task_ref \<Rightarrow> TaskControlBlockInner \<Rightarrow> kernel \<Rightarrow> (isize \<times> TaskControlBlockInner \<times> kernel) result" where
  "take_child exit_code_ptr idx c inner k =
     (let inner = inner\<lparr>children := take idx (children inner) @ drop (Suc idx) (children inner)\<rparr>
      in bind (Arc_strong_count c k) (\<lambda>n.
         bind (assert_that (n = 1) (StrongCount n)) (\<lambda>_.
         bind (arc_get c k) (\<lambda>cell.
         let found_pid = getpid (arc_data cell)
         in bind (inner_exclusive_access c k) (\<lambda>(child_inner, k).
            let exit_code = exit_code child_inner
            in bind (inner_release c child_inner k) (\<lambda>k.
               bind (translated_refmut (mm_mem (mm k)) (ms_token (memory_set inner)) exit_code_ptr) (\<lambda>a.
               let k = k\<lparr>mm := (mm k)\<lparr>mm_mem := write_bytes (mm_mem (mm k)) a (le_bytes 4 exit_code)\<rparr>\<rparr>
               in bind (Arc_drop c k) (\<lambda>k.
                  Inr (found_pid, inner, k)))))))))"

definition sys_waitpid :: "isize \<Rightarrow> usize \<Rightarrow> kernel \<Rightarrow> isize flow result" where
  "sys_waitpid pid exit_code_ptr k =
     bind (current_task k) (\<lambda>(task, k).
     bind (unwrap task) (\<lambda>task.
     bind (inner_exclusive_access task k) (\<lambda>(inner, k).
     bind (find_child (match_pid pid) 0 (children inner) k) (\<lambda>(any, k).
     bind (case any of
         None \<Rightarrow> Inr (- 1, inner, k)
       | Some _ \<Rightarrow>
           bind (find_child (match_zombie pid) 0 (children inner) k) (\<lambda>(pair, k).
           case pair of
             Some (idx, c) \<Rightarrow> take_child exit_code_ptr idx c inner k
           | None \<Rightarrow> Inr (- 2, inner, k))) (\<lambda>(r, inner, k).
     bind (inner_release task inner k) (\<lambda>k.
     bind (Arc_drop task k) (\<lambda>k.
     Inr (Returns r k))))))))"

subsection \<open>Dispatch\<close>

definition SYSCALL_READ :: usize where [simp]: "SYSCALL_READ = 63"
definition SYSCALL_WRITE :: usize where [simp]: "SYSCALL_WRITE = 64"
definition SYSCALL_EXIT :: usize where [simp]: "SYSCALL_EXIT = 93"
definition SYSCALL_YIELD :: usize where [simp]: "SYSCALL_YIELD = 124"
definition SYSCALL_GET_TIME :: usize where [simp]: "SYSCALL_GET_TIME = 169"
definition SYSCALL_GETPID :: usize where [simp]: "SYSCALL_GETPID = 172"
definition SYSCALL_FORK :: usize where [simp]: "SYSCALL_FORK = 220"
definition SYSCALL_EXEC :: usize where [simp]: "SYSCALL_EXEC = 221"
definition SYSCALL_WAITPID :: usize where [simp]: "SYSCALL_WAITPID = 260"

definition syscall :: "kernel_env \<Rightarrow> answers \<Rightarrow> usize \<Rightarrow> usize \<Rightarrow> usize \<Rightarrow> usize \<Rightarrow> kernel \<Rightarrow> isize flow result option" where
  "syscall env ans syscall_id a0 a1 a2 k =
     (if syscall_id = SYSCALL_READ then sys_read ans a0 a1 a2 k
      else if syscall_id = SYSCALL_WRITE then sys_write a0 a1 a2 k
      else if syscall_id = SYSCALL_EXIT then sys_exit env (ucast a0) k
      else if syscall_id = SYSCALL_YIELD then Some (sys_yield k)
      else if syscall_id = SYSCALL_GET_TIME then Some (Inr (sys_get_time ans k))
      else if syscall_id = SYSCALL_GETPID then Some (sys_getpid k)
      else if syscall_id = SYSCALL_FORK then Some (sys_fork env k)
      else if syscall_id = SYSCALL_EXEC then sys_exec env a0 k
      else if syscall_id = SYSCALL_WAITPID then Some (sys_waitpid a0 a1 k)
      else Some (Inl (UnsupportedSyscall syscall_id)))"

end
