(* ===== verification/Trap.thy ===== *)
theory Trap
  imports Syscall
begin

text \<open>
  Traps (\<^verbatim>\<open>src/os/src/trap/mod.rs\<close>).  \<open>trap_handler\<close> runs with the trap context saved in the page
  of the current task; it ends in \<open>trap_return\<close>, whose jump to \<open>__restore\<close> is the value \<open>ToUser\<close>, or
  gives up the hart.  \<open>resume_task\<close> is what a task does that is switched to again.  The messages
  the kernel prints itself are not part of \<open>console\<close>.
\<close>

datatype trap =
    UserEnvCall | StoreFault | StorePageFault | InstructionFault | InstructionPageFault | LoadFault | LoadPageFault
  | IllegalInstruction | SupervisorTimer | OtherTrap

text \<open>The jump to \<open>__restore\<close>: the address, and \<open>a0\<close> and \<open>a1\<close>.\<close>

record user_entry =
  restore_va :: usize
  trap_cx_ptr :: usize
  user_satp :: usize

datatype outcome = ToUser user_entry kernel | ToIdle kernel

definition set_kernel_trap_entry :: "kernel_env \<Rightarrow> kernel \<Rightarrow> kernel" where
  "set_kernel_trap_entry env k = k\<lparr>stvec := env_trap_from_kernel env\<rparr>"

definition set_user_trap_entry :: "kernel \<Rightarrow> kernel" where
  "set_user_trap_entry k = k\<lparr>stvec := TRAMPOLINE\<rparr>"

definition enable_timer_interrupt :: "kernel \<Rightarrow> kernel" where
  "enable_timer_interrupt k = k\<lparr>sie_stimer := True\<rparr>"

definition trap_init :: "kernel_env \<Rightarrow> kernel \<Rightarrow> kernel" where
  "trap_init env k = set_kernel_trap_entry env k"

definition trap_return :: "kernel_env \<Rightarrow> kernel \<Rightarrow> outcome result" where
  "trap_return env k =
     (let k = set_user_trap_entry k
      in bind (current_user_token k) (\<lambda>(user_satp, k).
         Inr (ToUser \<lparr>restore_va = env_restore env - env_alltraps env + TRAMPOLINE, trap_cx_ptr = TRAP_CONTEXT, user_satp = user_satp\<rparr> k)))"

text \<open>The end of the arm for system calls: the result goes to \<open>x[10]\<close> of the context, which is looked up again.\<close>

definition finish_syscall :: "kernel_env \<Rightarrow> isize flow result option \<Rightarrow> outcome result option" where
  "finish_syscall env r =
     obind r (\<lambda>flow.
     case flow of
       Switched k \<Rightarrow> Some (Inr (ToIdle k))
     | Returns result k \<Rightarrow>
         Some (bind (current_trap_cx k) (\<lambda>(cx, k).
               let k = k\<lparr>mm := (mm k)\<lparr>mm_mem := write_u64 (mm_mem (mm k)) (cx_field cx 10) result\<rparr>\<rparr>
               in trap_return env k)))"

definition trap_handler :: "kernel_env \<Rightarrow> answers \<Rightarrow> trap \<Rightarrow> kernel \<Rightarrow> outcome result option" where
  "trap_handler env ans cause k =
     (let k = set_kernel_trap_entry env k
      in case cause of
           UserEnvCall \<Rightarrow>
             obind (Some (current_trap_cx k)) (\<lambda>(cx, k).
             let m = mm_mem (mm k);
                 m = write_u64 m (cx_field cx 33) (read_u64 m (cx_field cx 33) + 4);
                 k = k\<lparr>mm := (mm k)\<lparr>mm_mem := m\<rparr>\<rparr>
             in finish_syscall env
                  (syscall env ans (read_u64 m (cx_field cx 17)) (read_u64 m (cx_field cx 10)) (read_u64 m (cx_field cx 11))
                     (read_u64 m (cx_field cx 12)) k))
         | SupervisorTimer \<Rightarrow>
             (let k = k\<lparr>timer := set_next_trigger (ans_time ans)\<rparr>
              in Some (bind (suspend_current_and_run_next ResumeTimer k) (\<lambda>k. Inr (ToIdle k))))
         | IllegalInstruction \<Rightarrow> obind (exit_current_and_run_next env (- 3) k) (\<lambda>k. Some (Inr (ToIdle k)))
         | OtherTrap \<Rightarrow> Some (Inl UnsupportedTrap)
         | _ \<Rightarrow>
             obind (Some (current_trap_cx k)) (\<lambda>(cx, k).
             obind (exit_current_and_run_next env (- 2) k) (\<lambda>k. Some (Inr (ToIdle k)))))"

definition trap_from_kernel :: "outcome result" where
  "trap_from_kernel = Inl KernelTrap"

text \<open>What follows a switch to task \<open>t\<close>: the rest of the functions on its kernel stack.\<close>

definition resume_task :: "kernel_env \<Rightarrow> answers \<Rightarrow> task_ref \<Rightarrow> kernel \<Rightarrow> outcome result option" where
  "resume_task env ans t k =
     (case frames k t of
        ResumeTrapReturn \<Rightarrow> Some (trap_return env k)
      | ResumeTimer \<Rightarrow> Some (trap_return env k)
      | ResumeYield \<Rightarrow> finish_syscall env (Some (Inr (Returns 0 k)))
      | ResumeRead fd buf len \<Rightarrow> finish_syscall env (read_loop (ans_char ans) fd buf len k))"

end
