(* ===== verification/Process_Inv.thy ===== *)
theory Process_Inv
  imports Process_Table Trap "HOL-Library.Sublist"
begin

text \<open>
  Every operation on processes keeps the invariant of the process table.  The invariant speaks of
  the cells, the queue and the current task only (\<open>proc_inv\<close>), so it does not depend on what user
  code or a system call writes to memory; the pids of the live tasks are exactly the pids in use.
\<close>

subsection \<open>The invariant\<close>

abbreviation queue :: "kernel \<Rightarrow> task_ref list" where
  "queue k \<equiv> ready_queue (TASK_MANAGER k)"

abbreviation cur :: "kernel \<Rightarrow> task_ref option" where
  "cur k \<equiv> current (PROCESSOR k)"

definition pids_ok :: "(task_ref \<Rightarrow> ArcInner option) \<Rightarrow> PidAllocator \<Rightarrow> bool" where
  "pids_ok f pa \<longleftrightarrow> pida_inv pa \<and> pida_in_use pa = {tcb_pid (arc_data c) | c t. f t = Some c} \<and>
     (\<forall>t u c d. f t = Some c \<longrightarrow> f u = Some d \<longrightarrow> tcb_pid (arc_data c) = tcb_pid (arc_data d) \<longrightarrow> t = u) \<and>
     (\<forall>t c. f t = Some c \<longrightarrow> kernel_stack (arc_data c) = KernelStack (pid_num (tcb_pid (arc_data c))))"

definition proc_inv :: "kernel \<Rightarrow> bool" where
  "proc_inv k \<longleftrightarrow> pids_ok (cellk k) (PID_ALLOCATOR k) \<and>
     (\<exists>init. INITPROC k = Some init \<and> table_inv (cellk k) (length (arcs k)) (queue k) (cur k) init)"

text \<open>
  What the kernel keeps of a task that is not running: its saved registers, the page number of its trap context,
  the handle of its address space, and the point in the kernel where it resumes.  The contents of memory are not part of it.
\<close>

definition saved :: "kernel \<Rightarrow> task_ref \<Rightarrow> (TaskContext \<times> PhysPageNum \<times> MemorySet) option \<times> resume" where
  "saved k t = (map_option (\<lambda>c. (task_cx (inner_of c), trap_cx_ppn (inner_of c), memory_set (inner_of c))) (cellk k t), frames k t)"

text \<open>Ready tasks keep their place in the queue, and what is saved for them.\<close>

definition keeps :: "kernel \<Rightarrow> kernel \<Rightarrow> bool" where
  "keeps k k' \<longleftrightarrow> prefix (queue k) (queue k') \<and> (\<forall>t \<in> set (queue k). saved k' t = saved k t)"

lemma keeps_refl [simp]: "keeps k k"
  by (simp add: keeps_def)

lemma keeps_trans:
  assumes "keeps k k'" and "keeps k' k''"
  shows "keeps k k''"
proof -
  have "set (queue k) \<subseteq> set (queue k')" using assms(1) by (simp add: keeps_def set_mono_prefix)
  with assms show ?thesis by (auto simp: keeps_def intro: prefix_order.trans)
qed

subsection \<open>Cells\<close>

lemma arc_get_cellk: "arc_get t k = (case cellk k t of Some c \<Rightarrow> Inr c | None \<Rightarrow> Inl UseAfterFree)"
  by (simp add: arc_get_def cellk_def)

lemma arc_get_Inr [simp]: "arc_get t k = Inr c \<longleftrightarrow> cellk k t = Some c"
  by (auto simp: arc_get_cellk split: option.splits)

lemma cellk_length: "cellk k t = Some c \<Longrightarrow> t < length (arcs k)"
  by (simp add: cellk_def split: if_splits)

lemma cellk_arc_set: "cellk k t \<noteq> None \<Longrightarrow> cellk (arc_set t x k) = (cellk k)(t := x)"
  by (rule ext) (auto simp: cellk_def arc_set_def split: if_splits)

lemma arc_set_fields [simp]:
  "length (arcs (arc_set t x k)) = length (arcs k)" "mm (arc_set t x k) = mm k" "KERNEL_SPACE (arc_set t x k) = KERNEL_SPACE k"
  "PID_ALLOCATOR (arc_set t x k) = PID_ALLOCATOR k" "TASK_MANAGER (arc_set t x k) = TASK_MANAGER k"
  "PROCESSOR (arc_set t x k) = PROCESSOR k" "INITPROC (arc_set t x k) = INITPROC k" "cpu (arc_set t x k) = cpu k"
  "frames (arc_set t x k) = frames k" "khart (arc_set t x k) = khart k" "stvec (arc_set t x k) = stvec k" "sie_stimer (arc_set t x k) = sie_stimer k" "timer (arc_set t x k) = timer k" "console (arc_set t x k) = console k"
  by (simp_all add: arc_set_def)

lemma cellk_fields [simp]:
  "cellk (k\<lparr>mm := a\<rparr>) = cellk k" "cellk (k\<lparr>KERNEL_SPACE := b\<rparr>) = cellk k" "cellk (k\<lparr>PID_ALLOCATOR := c\<rparr>) = cellk k"
  "cellk (k\<lparr>TASK_MANAGER := d\<rparr>) = cellk k" "cellk (k\<lparr>PROCESSOR := e\<rparr>) = cellk k" "cellk (k\<lparr>INITPROC := f\<rparr>) = cellk k"
  "cellk (k\<lparr>cpu := g\<rparr>) = cellk k" "cellk (k\<lparr>frames := h\<rparr>) = cellk k" "cellk (k\<lparr>stvec := i\<rparr>) = cellk k" "cellk (k\<lparr>sie_stimer := i'\<rparr>) = cellk k"
  "cellk (k\<lparr>khart := h'\<rparr>) = cellk k" "cellk (k\<lparr>timer := j\<rparr>) = cellk k" "cellk (k\<lparr>console := l\<rparr>) = cellk k"
  by (rule ext; simp add: cellk_def)+

lemma saved_fields [simp]:
  "saved (k\<lparr>mm := a\<rparr>) = saved k" "saved (k\<lparr>KERNEL_SPACE := b\<rparr>) = saved k" "saved (k\<lparr>PID_ALLOCATOR := c\<rparr>) = saved k"
  "saved (k\<lparr>TASK_MANAGER := d\<rparr>) = saved k" "saved (k\<lparr>PROCESSOR := e\<rparr>) = saved k" "saved (k\<lparr>INITPROC := f\<rparr>) = saved k"
  "saved (k\<lparr>cpu := g\<rparr>) = saved k" "saved (k\<lparr>stvec := i\<rparr>) = saved k" "saved (k\<lparr>sie_stimer := i'\<rparr>) = saved k"
  "saved (k\<lparr>khart := h\<rparr>) = saved k" "saved (k\<lparr>timer := j\<rparr>) = saved k" "saved (k\<lparr>console := l\<rparr>) = saved k"
  by (simp_all add: saved_def fun_eq_iff)

lemma keeps_fields [simp]:
  "keeps k (k\<lparr>mm := a\<rparr>)" "keeps k (k\<lparr>stvec := b\<rparr>)" "keeps k (k\<lparr>timer := c\<rparr>)" "keeps k (k\<lparr>console := d\<rparr>)"
  by (simp_all add: keeps_def)

lemma keepsI:
  assumes "prefix (queue k) (queue k')" and "\<And>t. t \<in> set (queue k) \<Longrightarrow> cellk k' t = cellk k t" and "\<And>t. t \<in> set (queue k) \<Longrightarrow> frames k' t = frames k t"
  shows "keeps k k'"
  using assms by (simp add: keeps_def saved_def)

text \<open>The part of the state that the operations on one cell leave alone.\<close>

definition same_rest :: "kernel \<Rightarrow> kernel \<Rightarrow> bool" where
  "same_rest k k' \<longleftrightarrow> length (arcs k') = length (arcs k) \<and> mm k' = mm k \<and> KERNEL_SPACE k' = KERNEL_SPACE k \<and>
     PID_ALLOCATOR k' = PID_ALLOCATOR k \<and> TASK_MANAGER k' = TASK_MANAGER k \<and> PROCESSOR k' = PROCESSOR k \<and>
     INITPROC k' = INITPROC k \<and> cpu k' = cpu k \<and> frames k' = frames k \<and> khart k' = khart k \<and> stvec k' = stvec k \<and> sie_stimer k' = sie_stimer k \<and> timer k' = timer k \<and> console k' = console k"

lemma same_rest_arc_set [simp]: "same_rest k (arc_set t x k)"
  by (simp add: same_rest_def)

lemma same_rest_refl [simp]: "same_rest k k"
  by (simp add: same_rest_def)

lemma same_rest_trans: "same_rest k k' \<Longrightarrow> same_rest k' k'' \<Longrightarrow> same_rest k k''"
  by (simp add: same_rest_def)

lemma kernel_eqI:
  assumes "same_rest k k'" and "cellk k' = cellk k"
  shows "k' = k"
proof -
  have "arcs k' = arcs k"
  proof (rule nth_equalityI)
    show "length (arcs k') = length (arcs k)" using assms(1) by (simp add: same_rest_def)
    fix i
    assume "i < length (arcs k')"
    then show "arcs k' ! i = arcs k ! i"
      using fun_cong [OF assms(2), of i] assms(1) by (simp add: cellk_def same_rest_def split: if_splits)
  qed
  with assms(1) show ?thesis by (simp add: same_rest_def)
qed

text \<open>Borrowing and releasing a cell.\<close>

definition set_inner :: "TaskControlBlockInner \<Rightarrow> ArcInner \<Rightarrow> ArcInner" where
  "set_inner i c = c\<lparr>arc_data := (arc_data c)\<lparr>tcb_inner := UPSafeCell_new i\<rparr>\<rparr>"

definition set_borrowed :: "ArcInner \<Rightarrow> ArcInner" where
  "set_borrowed c = c\<lparr>arc_data := (arc_data c)\<lparr>tcb_inner := (tcb_inner (arc_data c))\<lparr>cell_borrowed := True\<rparr>\<rparr>\<rparr>"

lemma cell_update_simps [simp]:
  "strong (set_inner i c) = strong c" "inner_of (set_inner i c) = i" "\<not> borrowed (set_inner i c)"
  "tcb_pid (arc_data (set_inner i c)) = tcb_pid (arc_data c)" "kernel_stack (arc_data (set_inner i c)) = kernel_stack (arc_data c)"
  "strong (set_borrowed c) = strong c" "inner_of (set_borrowed c) = inner_of c" "borrowed (set_borrowed c)"
  "tcb_pid (arc_data (set_borrowed c)) = tcb_pid (arc_data c)" "kernel_stack (arc_data (set_borrowed c)) = kernel_stack (arc_data c)"
  "set_inner i (set_borrowed c) = set_inner i c" "set_inner i (set_inner j c) = set_inner i c"
  "set_inner i (c\<lparr>strong := n\<rparr>) = (set_inner i c)\<lparr>strong := n\<rparr>"
  "set_borrowed (c\<lparr>strong := n\<rparr>) = (set_borrowed c)\<lparr>strong := n\<rparr>"
  by (simp_all add: set_inner_def set_borrowed_def)

lemma set_inner_strong [simp]: "(set_inner i c)\<lparr>strong := strong c\<rparr> = set_inner i c"
  by (simp add: set_inner_def)

lemma set_inner_same [simp]: "\<not> borrowed c \<Longrightarrow> set_inner (inner_of c) c = c"
  by (simp add: set_inner_def UPSafeCell_new_def)

lemma inner_exclusive_access_eq:
  "cellk k t = Some c \<Longrightarrow> \<not> borrowed c \<Longrightarrow> inner_exclusive_access t k = Inr (inner_of c, arc_set t (Some (set_borrowed c)) k)"
  by (simp add: inner_exclusive_access_def arc_get_cellk set_borrowed_def)

lemma inner_exclusive_access_borrowed:
  "cellk k t = Some c \<Longrightarrow> borrowed c \<Longrightarrow> inner_exclusive_access t k = Inl AlreadyBorrowed"
  by (simp add: inner_exclusive_access_def arc_get_cellk exclusive_access_def)

lemma inner_release_eq:
  "cellk k t = Some c \<Longrightarrow> inner_release t i k = Inr (arc_set t (Some (set_inner i c)) k)"
  by (simp add: inner_release_def arc_get_cellk set_inner_def RefMut_drop_eq)

lemma Arc_clone_eq: "cellk k t = Some c \<Longrightarrow> Arc_clone t k = Inr (arc_set t (Some (c\<lparr>strong := strong c + 1\<rparr>)) k)"
  by (simp add: Arc_clone_def arc_get_cellk)

lemma Arc_drop_eq:
  "cellk k t = Some c \<Longrightarrow> 1 < strong c \<Longrightarrow> Arc_drop t k = Inr (arc_set t (Some (c\<lparr>strong := strong c - 1\<rparr>)) k)"
  by (simp add: Arc_drop_def arc_get_cellk)

lemmas cell_ops = inner_exclusive_access_eq inner_release_eq Arc_clone_eq Arc_drop_eq

lemma arc_set_arc_set [simp]: "arc_set t x (arc_set t y k) = arc_set t x k"
  by (simp add: arc_set_def)

lemma arc_set_same: "cellk k t = Some c \<Longrightarrow> arc_set t (Some c) k = k"
  by (auto simp: arc_set_def cellk_def list_update_same_conv split: if_splits)

lemma arc_set_update [simp]:
  "arc_set t x (k\<lparr>mm := a\<rparr>) = (arc_set t x k)\<lparr>mm := a\<rparr>" "arc_set t x (k\<lparr>PROCESSOR := b\<rparr>) = (arc_set t x k)\<lparr>PROCESSOR := b\<rparr>"
  "arc_set t x (k\<lparr>TASK_MANAGER := c\<rparr>) = (arc_set t x k)\<lparr>TASK_MANAGER := c\<rparr>" "arc_set t x (k\<lparr>cpu := d\<rparr>) = (arc_set t x k)\<lparr>cpu := d\<rparr>"
  "arc_set t x (k\<lparr>frames := e\<rparr>) = (arc_set t x k)\<lparr>frames := e\<rparr>"
  by (simp_all add: arc_set_def)

subsection \<open>The current task\<close>

text \<open>A task that can be borrowed and to which there is a reference.\<close>

definition running :: "kernel \<Rightarrow> task_ref \<Rightarrow> ArcInner \<Rightarrow> bool" where
  "running k t c \<longleftrightarrow> cur k = Some t \<and> cellk k t = Some c \<and> \<not> borrowed c \<and> 1 \<le> strong c"

lemma current_task_eq:
  "running k t c \<Longrightarrow> current_task k = Inr (Some t, arc_set t (Some (c\<lparr>strong := strong c + 1\<rparr>)) k)"
  by (simp add: running_def current_task_def Arc_clone_eq)

lemma current_user_token_eq:
  assumes "running k t c"
  shows "current_user_token k = Inr (get_user_token (inner_of c), k)"
  using assms
  by (simp add: current_user_token_def current_task_eq [OF assms] running_def cell_ops cellk_arc_set Let_def arc_set_same)

lemma current_trap_cx_eq:
  assumes "running k t c"
  shows "current_trap_cx k = bind (get_trap_cx (inner_of c)) (\<lambda>cx. Inr (cx, k))"
  using assms
  by (simp add: current_trap_cx_def current_task_eq [OF assms] running_def cell_ops cellk_arc_set Let_def arc_set_same)

lemma sys_getpid_eq:
  assumes "running k t c"
  shows "sys_getpid k = Inr (Returns (pid_num (tcb_pid (arc_data c))) k)"
  using assms
  by (simp add: sys_getpid_def current_task_eq [OF assms] running_def cell_ops cellk_arc_set arc_get_cellk arc_set_same)

lemma proc_inv_running:
  assumes "proc_inv k" and "cur k = Some t"
  obtains c where "running k t c" and "strong c = 2" and "task_status (inner_of c) = Running"
proof -
  obtain init where inv: "table_inv (cellk k) (length (arcs k)) (queue k) (cur k) init" using assms(1) by (auto simp: proc_inv_def)
  have "t \<in> {t. status (cellk k) t = Some Running}" using table_invD(10) [OF inv] assms(2) by auto
  then obtain c where "cellk k t = Some c" "task_status (inner_of c) = Running" by (auto simp: status_def)
  with that [of c] table_invD(3,4) [OF inv] assms(2) show ?thesis by (auto simp: running_def)
qed

lemma cur_not_queued:
  assumes "proc_inv k" and "cur k = Some t"
  shows "t \<notin> set (queue k)" and "cellk k u = None \<Longrightarrow> u \<notin> set (queue k)"
proof -
  obtain init where inv: "table_inv (cellk k) (length (arcs k)) (queue k) (cur k) init" using assms(1) by (auto simp: proc_inv_def)
  have "t \<in> {t. status (cellk k) t = Some Running}" using table_invD(10) [OF inv] assms(2) by auto
  then show "t \<notin> set (queue k)" using table_invD(9) [OF inv] by simp
  show "cellk k u = None \<Longrightarrow> u \<notin> set (queue k)" using table_invD(9) [OF inv] by (simp add: status_def)
qed

subsection \<open>Switching\<close>

lemma cell_store: "\<not> cell_borrowed x \<Longrightarrow> x\<lparr>cell_inner := v\<rparr> = UPSafeCell_new v"
  by (simp add: UPSafeCell_new_def)

lemma suspend_eq:
  assumes "running k t c"
  defines "d \<equiv> set_inner ((inner_of c)\<lparr>task_status := Ready, task_cx := cpu k\<rparr>) c"
  shows "suspend_current_and_run_next r k =
    Inr ((arc_set t (Some d) k)\<lparr>PROCESSOR := (PROCESSOR k)\<lparr>current := None\<rparr>, TASK_MANAGER := tm_add t (TASK_MANAGER k),
           cpu := idle_task_cx (PROCESSOR k), frames := (frames k)(t := r)\<rparr>)"
proof -
  have "store_task_cx t cx k' = Inr (arc_set t (Some (set_inner ((inner_of e)\<lparr>task_cx := cx\<rparr>) e)) k')"
    if "cellk k' t = Some e" "\<not> borrowed e" for k' e cx
    using that by (simp add: store_task_cx_def arc_get_cellk set_inner_def cell_store Let_def)
  then show ?thesis
    using assms(1)
    by (simp add: suspend_current_and_run_next_def take_current_task_def take_current_def running_def cell_ops cellk_arc_set
        add_task_def schedule_def switch_def d_def)
qed

lemma run_tasks_step_Nil: "queue k = [] \<Longrightarrow> run_tasks_step k = Inr (None, k)"
  by (simp add: run_tasks_step_def fetch_task_def tm_fetch_def)

lemma run_tasks_step_Cons:
  assumes "queue k = t # q" and "cellk k t = Some c" and "\<not> borrowed c" and "cur k = None"
  shows "run_tasks_step k =
    Inr (Some t, (arc_set t (Some (set_inner ((inner_of c)\<lparr>task_status := Running\<rparr>) c)) k)
      \<lparr>TASK_MANAGER := (TASK_MANAGER k)\<lparr>ready_queue := q\<rparr>, PROCESSOR := (PROCESSOR k)\<lparr>current := Some t, idle_task_cx := cpu k\<rparr>,
       cpu := task_cx (inner_of c)\<rparr>)"
  using assms
  by (simp add: run_tasks_step_def fetch_task_def tm_fetch_def cell_ops cellk_arc_set switch_def store_idle_cx_def)

lemma pids_ok_upd:
  assumes "pids_ok f pa" and "f t = Some c" and "tcb_pid (arc_data d) = tcb_pid (arc_data c)" and "kernel_stack (arc_data d) = kernel_stack (arc_data c)"
  shows "pids_ok (f(t := Some d)) pa"
proof -
  have "{tcb_pid (arc_data e) | e u. (f(t := Some d)) u = Some e} = {tcb_pid (arc_data e) | e u. f u = Some e}"
    using assms(2,3) by auto (metis option.inject)+
  with assms show ?thesis unfolding pids_ok_def by auto
qed

lemma proc_inv_suspend:
  assumes inv: "proc_inv k" and "cur k = Some t"
  shows "\<exists>k'. suspend_current_and_run_next r k = Inr k' \<and> proc_inv k' \<and> cur k' = None \<and> keeps k k'"
proof -
  from proc_inv_running [OF assms] obtain c where c: "running k t c" "strong c = 2" "task_status (inner_of c) = Running" .
  define d where "d = set_inner ((inner_of c)\<lparr>task_status := Ready, task_cx := cpu k\<rparr>) c"
  obtain init where i: "INITPROC k = Some init" "table_inv (cellk k) (length (arcs k)) (queue k) (Some t) init" and pk: "pids_ok (cellk k) (PID_ALLOCATOR k)"
    using inv assms(2) by (auto simp: proc_inv_def)
  have ck: "cellk k t = Some c" using c(1) by (simp add: running_def)
  have "same_proc c d" "task_status (inner_of d) = Ready" by (simp_all add: same_proc_def d_def)
  note tab = table_inv_suspend [OF i(2) ck this] and pid = pids_ok_upd [OF pk ck, of d]
  have "cellk (arc_set t (Some d) k) = (cellk k)(t := Some d)" using ck by (simp add: cellk_arc_set)
  with suspend_eq [OF c(1), of r, folded d_def] tab pid i(1) cur_not_queued(1) [OF assms] show ?thesis
    by (auto simp: proc_inv_def tm_add_def d_def intro!: keepsI)
qed

lemma proc_inv_run:
  assumes inv: "proc_inv k" and idle: "cur k = None"
  shows "\<exists>r k'. run_tasks_step k = Inr (r, k') \<and> proc_inv k' \<and> cur k' = r \<and>
    (case r of
       None \<Rightarrow> queue k = [] \<and> k' = k
     | Some t \<Rightarrow> queue k = t # queue k' \<and> (\<forall>u. saved k' u = saved k u) \<and> map_option fst (fst (saved k t)) = Some (cpu k'))"
proof (cases "queue k")
  case Nil
  then show ?thesis using assms by (simp add: run_tasks_step_Nil)
next
  case (Cons t q)
  obtain init where i: "INITPROC k = Some init" "table_inv (cellk k) (length (arcs k)) (t # q) None init" and pk: "pids_ok (cellk k) (PID_ALLOCATOR k)"
    using inv idle Cons by (auto simp: proc_inv_def)
  have "t \<in> {t. status (cellk k) t = Some Ready}" using table_invD(9) [OF i(2)] by auto
  then obtain c where c: "cellk k t = Some c" by (auto simp: status_def)
  have b: "\<not> borrowed c" using table_invD(3) [OF i(2) c] .
  define d where "d = set_inner ((inner_of c)\<lparr>task_status := Running\<rparr>) c"
  have "same_proc c d" "task_status (inner_of d) = Running" by (simp_all add: same_proc_def d_def)
  note tab = table_inv_run [OF i(2) c this] and pid = pids_ok_upd [OF pk c, of d]
  have "cellk (arc_set t (Some d) k) = (cellk k)(t := Some d)" using c by (simp add: cellk_arc_set)
  with run_tasks_step_Cons [OF Cons c b idle, folded d_def] tab pid i(1) Cons c show ?thesis
    by (auto simp: proc_inv_def d_def saved_def)
qed

subsection \<open>\<open>exec\<close>\<close>

lemma exec_effect:
  assumes c: "cellk k t = Some c" "\<not> borrowed c" and r: "exec env t data k = Inr k'"
  shows "\<exists>ms ppn st. k' = (arc_set t (Some (set_inner ((inner_of c)\<lparr>memory_set := ms, trap_cx_ppn := ppn\<rparr>) c)) k)\<lparr>mm := st\<rparr>"
proof -
  obtain ms sp entry st1 ppn st2 cx where
    f: "from_elf (env_elf_new env) (env_syms env) data (mm k) = Inr ((ms, sp, entry), st1)" "find_trap_cx_ppn (mm_mem st1) ms = Inr ppn"
    and d: "MemorySet_drop st1 (memory_set (inner_of c)) = Inr st2"
    and g: "get_trap_cx ((inner_of c)\<lparr>memory_set := ms, trap_cx_ppn := ppn\<rparr>) = Inr cx"
    using r c unfolding exec_def
    by (auto simp: inner_exclusive_access_eq Let_def elim!: bind_InrE)
  with r c show ?thesis
    by (auto simp: exec_def cell_ops cellk_arc_set Let_def arc_get_cellk)
qed

subsection \<open>\<open>fork\<close>\<close>

lemma cellk_Arc_new: "cellk (snd (Arc_new tcb k)) = (cellk k)(length (arcs k) := Some \<lparr>strong = 1, arc_data = tcb\<rparr>)"
  by (rule ext) (auto simp: Arc_new_def cellk_def nth_append)

text \<open>The cell of the child when \<open>fork\<close> returns.\<close>

definition child_cell :: "kernel_env \<Rightarrow> PidHandle \<Rightarrow> task_ref \<Rightarrow> TaskControlBlockInner \<Rightarrow> MemorySet \<Rightarrow> PhysPageNum \<Rightarrow> nat \<Rightarrow> ArcInner" where
  "child_cell env h t inner ms ppn n =
     \<lparr>strong = n, arc_data = \<lparr>tcb_pid = h, kernel_stack = KernelStack (pid_num h), tcb_inner = UPSafeCell_new
        \<lparr>trap_cx_ppn = ppn, base_size = base_size inner,
         task_cx = goto_trap_return (env_trap_return env) (get_top (KernelStack (pid_num h))), task_status = Ready,
         memory_set = ms, parent = Some t, children = [], exit_code = 0\<rparr>\<rparr>\<rparr>"

lemma KernelStack_new_pid: "KernelStack_new h s = Inr (ks, s') \<Longrightarrow> ks = KernelStack (pid_num h)"
  by (auto simp: KernelStack_new_def Let_def split: prod.splits elim!: bind_InrE)

text \<open>The state \<open>k'\<close> after a fork of task \<open>t\<close>, with everything that was computed on the way.\<close>

definition forked ::
  "kernel_env \<Rightarrow> task_ref \<Rightarrow> ArcInner \<Rightarrow> kernel \<Rightarrow> task_ref \<Rightarrow> kernel \<Rightarrow> PidHandle \<Rightarrow> MemorySet \<Rightarrow> PhysPageNum \<Rightarrow> mm_state \<Rightarrow> mm_state \<Rightarrow> usize \<Rightarrow> bool" where
  "forked env t c k u k' h ms ppn st1 st2 cx \<longleftrightarrow>
     u = length (arcs k) \<and> pid_alloc (PID_ALLOCATOR k) = (h, PID_ALLOCATOR k') \<and>
     from_existed_user (env_syms env) (memory_set (inner_of c)) (mm k) = Inr (ms, st1) \<and> find_trap_cx_ppn (mm_mem st1) ms = Inr ppn \<and>
     KernelStack_new h (KERNEL_SPACE k, st1) = Inr (KernelStack (pid_num h), KERNEL_SPACE k', st2) \<and> ppn_get_mut ppn = Inr cx \<and>
     cellk k' = (cellk k)(t := Some (set_inner ((inner_of c)\<lparr>children := children (inner_of c) @ [u]\<rparr>) c),
       u := Some (child_cell env h t (inner_of c) ms ppn 2)) \<and>
     length (arcs k') = Suc (length (arcs k)) \<and> PROCESSOR k' = PROCESSOR k \<and> INITPROC k' = INITPROC k \<and>
     frames k' = (frames k)(u := ResumeTrapReturn) \<and> cpu k' = cpu k"

text \<open>The whole of \<open>fork\<close> once the space is copied and the kernel stack is mapped.\<close>

lemma fork_eq:
  assumes c: "cellk k t = Some c" "\<not> borrowed c" and h: "pid_alloc (PID_ALLOCATOR k) = (h, pa)"
    and f: "from_existed_user (env_syms env) (memory_set (inner_of c)) (mm k) = Inr (ms, st1)" "find_trap_cx_ppn (mm_mem st1) ms = Inr ppn"
      "KernelStack_new h (KERNEL_SPACE k, st1) = Inr (KernelStack (pid_num h), ks, st2)"
  obtains k2 where "fork env t k = bind (ppn_get_mut ppn) (\<lambda>cx. Inr (length (arcs k), k2 cx))"
    and "\<forall>cx. ppn_get_mut ppn = Inr cx \<longrightarrow> forked env t c k (length (arcs k)) (k2 cx) h ms ppn st1 st2 cx"
    and "\<forall>cx. mm (k2 cx) = st2\<lparr>mm_mem := write_u64 (mm_mem st2) (cx_field cx 35) (get_top (KernelStack (pid_num h)))\<rparr>"
    and "\<forall>cx. TASK_MANAGER (k2 cx) = TASK_MANAGER k"
proof -
  let ?n = "length (arcs k)"
  have tn: "t < ?n" using cellk_length [OF c(1)] .
  define k1 where "k1 = (arc_set t (Some (set_borrowed c)) k)\<lparr>mm := st2, KERNEL_SPACE := ks, PID_ALLOCATOR := pa\<rparr>"
  define k2 where "k2 = snd (Arc_new (arc_data (child_cell env h t (inner_of c) ms ppn 1)) k1)"
  have k2: "Arc_new (arc_data (child_cell env h t (inner_of c) ms ppn 1)) k1 = (?n, k2)" by (simp add: k2_def k1_def Arc_new_def)
  have c2: "cellk k2 = (cellk k)(t := Some (set_borrowed c), ?n := Some (child_cell env h t (inner_of c) ms ppn 1))"
    unfolding k2_def cellk_Arc_new using c(1) by (simp add: k1_def cellk_arc_set child_cell_def)
  have k2f: "length (arcs k2) = Suc ?n" "PID_ALLOCATOR k2 = pa" "KERNEL_SPACE k2 = ks" "mm k2 = st2" "TASK_MANAGER k2 = TASK_MANAGER k"
    "PROCESSOR k2 = PROCESSOR k" "INITPROC k2 = INITPROC k" "frames k2 = (frames k)(?n := ResumeTrapReturn)" "cpu k2 = cpu k"
    by (simp_all add: k2_def Arc_new_def k1_def)
  let ?e = "child_cell env h t (inner_of c) ms ppn" and ?d = "set_inner ((inner_of c)\<lparr>children := children (inner_of c) @ [?n]\<rparr>) c"
  have e: "inner_of (?e m) = inner_of (?e 1)" "\<not> borrowed (?e m)" "trap_cx_ppn (inner_of (?e m)) = ppn" "(?e m)\<lparr>strong := m'\<rparr> = ?e m'"
    "strong (?e m) = m" for m m'
    by (simp_all add: child_cell_def)
  define k3 where "k3 cx = arc_set t (Some ?d) ((arc_set ?n (Some (?e 2)) k2)
      \<lparr>mm := st2\<lparr>mm_mem := write_u64 (mm_mem st2) (cx_field cx 35) (get_top (KernelStack (pid_num h)))\<rparr>\<rparr>)" for cx
  have "fork env t k = bind (Arc_clone ?n k2) (\<lambda>k.
      bind (inner_exclusive_access ?n k) (\<lambda>(child_inner, k).
      bind (get_trap_cx child_inner) (\<lambda>trap_cx.
      bind (inner_release ?n child_inner k) (\<lambda>k.
      bind (inner_release t ((inner_of c)\<lparr>children := children (inner_of c) @ [?n]\<rparr>)
             (k\<lparr>mm := (mm k)\<lparr>mm_mem := write_u64 (mm_mem (mm k)) (cx_field trap_cx 35) (get_top (KernelStack (pid_num h)))\<rparr>\<rparr>)) (\<lambda>k.
      Inr (?n, k))))))"
    using c h f k2 [unfolded k1_def] by (simp add: fork_def inner_exclusive_access_eq Let_def child_cell_def)
  moreover have "cellk k2 ?n = Some (?e 1)" "cellk k2 t = Some (set_borrowed c)" using c2 tn by auto
  ultimately have "fork env t k = bind (ppn_get_mut ppn) (\<lambda>cx. Inr (?n, k3 cx))"
    using e tn k2f(4) by (simp add: cell_ops cellk_arc_set get_trap_cx_def numeral_2_eq_2 k3_def cong: bind_cong)
  moreover have "cellk (k3 cx) = (cellk k)(t := Some ?d, ?n := Some (?e 2))" for cx
    unfolding k3_def using tn by (simp add: cellk_arc_set c2 fun_upd_twist)
  then have "forked env t c k ?n (k3 cx) h ms ppn st1 st2 cx" if "ppn_get_mut ppn = Inr cx" for cx
    using that h f k2f by (simp add: forked_def k3_def)
  moreover have "mm (k3 cx) = st2\<lparr>mm_mem := write_u64 (mm_mem st2) (cx_field cx 35) (get_top (KernelStack (pid_num h)))\<rparr>"
    "TASK_MANAGER (k3 cx) = TASK_MANAGER k" for cx
    using k2f by (simp_all add: k3_def)
  ultimately show ?thesis using that [of k3] by blast
qed

lemma fork_effect:
  assumes c: "cellk k t = Some c" "\<not> borrowed c" and r: "fork env t k = Inr (u, k')"
  obtains h ms ppn st1 st2 cx where "forked env t c k u k' h ms ppn st1 st2 cx"
    and "mm k' = st2\<lparr>mm_mem := write_u64 (mm_mem st2) (cx_field cx 35) (get_top (KernelStack (pid_num h)))\<rparr>"
    and "TASK_MANAGER k' = TASK_MANAGER k"
proof -
  obtain h pa where h: "pid_alloc (PID_ALLOCATOR k) = (h, pa)" by fastforce
  obtain ms st1 ppn kst ks st2 where f: "from_existed_user (env_syms env) (memory_set (inner_of c)) (mm k) = Inr (ms, st1)"
    "find_trap_cx_ppn (mm_mem st1) ms = Inr ppn" "KernelStack_new h (KERNEL_SPACE k, st1) = Inr (kst, ks, st2)"
    using r c h unfolding fork_def by (auto simp: inner_exclusive_access_eq elim!: bind_InrE)
  from fork_eq [OF c h f(1,2) f(3) [unfolded KernelStack_new_pid [OF f(3)]]] obtain k2
    where k2: "fork env t k = bind (ppn_get_mut ppn) (\<lambda>cx. Inr (length (arcs k), k2 cx))"
      "\<forall>cx. ppn_get_mut ppn = Inr cx \<longrightarrow> forked env t c k (length (arcs k)) (k2 cx) h ms ppn st1 st2 cx"
      "\<forall>cx. mm (k2 cx) = st2\<lparr>mm_mem := write_u64 (mm_mem st2) (cx_field cx 35) (get_top (KernelStack (pid_num h)))\<rparr>"
      "\<forall>cx. TASK_MANAGER (k2 cx) = TASK_MANAGER k" .
  then obtain cx where "ppn_get_mut ppn = Inr cx" "u = length (arcs k)" "k' = k2 cx" using r by (cases "ppn_get_mut ppn") auto
  with k2(2-4) that show ?thesis by blast
qed

lemma pids_ok_fork:
  assumes "pids_ok f pa" and "pida_room pa" and "pid_alloc pa = (h, pa')" and "f n = None"
    and "tcb_pid (arc_data e) = h" and "kernel_stack (arc_data e) = KernelStack (pid_num h)"
  shows "pids_ok (f(n := Some e)) pa'"
proof -
  have al: "pida_alloc pa = (h, pa')" using assms(3) by (simp add: pid_alloc_def)
  have "pida_inv pa" using assms(1) by (simp add: pids_ok_def)
  note a = pida_alloc_ok [OF this assms(2) al]
  have "{tcb_pid (arc_data x) | x u. (f(n := Some e)) u = Some x} = insert h {tcb_pid (arc_data x) | x u. f u = Some x}"
    using assms(4,5) by auto (metis option.distinct(1))
  moreover have "tcb_pid (arc_data x) \<noteq> h" if "f u = Some x" for u x
    using a(1) assms(1) that by (auto simp: pids_ok_def)
  ultimately show ?thesis
    using assms a unfolding pids_ok_def by (auto split: if_splits)
qed

text \<open>The rest of \<open>sys_fork\<close> after \<open>fork\<close> has returned.\<close>

lemma sys_fork_rest:
  assumes c: "running k t c" and f: "fork env t (arc_set t (Some (c\<lparr>strong := strong c + 1\<rparr>)) k) = Inr (u, k1)"
    and fk: "forked env t (c\<lparr>strong := strong c + 1\<rparr>) (arc_set t (Some (c\<lparr>strong := strong c + 1\<rparr>)) k) u k1 h ms ppn st1 st2 cx"
    and m1: "mm k1 = st2\<lparr>mm_mem := write_u64 (mm_mem st2) (cx_field cx 35) (get_top (KernelStack (pid_num h)))\<rparr>"
    and q1: "TASK_MANAGER k1 = TASK_MANAGER k"
  obtains k' where "sys_fork env k = Inr (Returns (pid_num h) k')" and "forked env t c k u k' h ms ppn st1 st2 cx"
    and "mm k' = st2\<lparr>mm_mem := write_u64 (write_u64 (mm_mem st2) (cx_field cx 35) (get_top (KernelStack (pid_num h)))) (cx_field cx 10) 0\<rparr>"
    and "TASK_MANAGER k' = tm_add u (TASK_MANAGER k)"
proof -
  let ?c = "c\<lparr>strong := strong c + 1\<rparr>"
  have ck: "cellk k t = Some c" and nb: "\<not> borrowed c" "1 \<le> strong c" using c by (auto simp: running_def)
  define k0 where "k0 = arc_set t (Some ?c) k"
  note fk = fk [folded k0_def] and f = f [folded k0_def] and ct = current_task_eq [OF c, folded k0_def]
  have c0: "cellk k0 = (cellk k)(t := Some ?c)" using ck by (simp add: k0_def cellk_arc_set)
  let ?d = "set_inner ((inner_of c)\<lparr>children := children (inner_of c) @ [u]\<rparr>) c" and ?e = "child_cell env h t (inner_of c) ms ppn 2"
  have u: "u = length (arcs k)" and pm: "ppn_get_mut ppn = Inr cx" using fk by (simp_all add: forked_def k0_def)
  have tu: "t \<noteq> u" using cellk_length [OF ck] u by simp
  have c1: "cellk k1 = (cellk k)(t := Some (?d\<lparr>strong := strong c + 1\<rparr>), u := Some ?e)"
    using fk by (simp add: forked_def c0)
  have e: "\<not> borrowed ?e" "trap_cx_ppn (inner_of ?e) = ppn" "tcb_pid (arc_data ?e) = h" by (simp_all add: child_cell_def)
  define k2 where "k2 = k1\<lparr>mm := (mm k1)\<lparr>mm_mem := write_u64 (mm_mem (mm k1)) (cx_field cx 10) 0\<rparr>,
      TASK_MANAGER := tm_add u (TASK_MANAGER k1)\<rparr>"
  define k' where "k' = arc_set t (Some ?d) k2"
  have c2: "cellk k1 u = Some ?e" "cellk k2 t = Some (?d\<lparr>strong := strong c + 1\<rparr>)" using c1 tu by (simp_all add: k2_def)
  have a: "Arc_drop t k2 = Inr k'" using Arc_drop_eq [OF c2(2)] nb(2) by (simp add: k'_def)
  have "sys_fork env k = Inr (Returns (pid_num h) k')"
    using pm c2(1) e a [unfolded k2_def]
    by (simp add: sys_fork_def ct f arc_get_cellk cell_ops cellk_arc_set get_trap_cx_def Let_def arc_set_same add_task_def)
  moreover have "cellk k' = (cellk k)(t := Some ?d, u := Some ?e)"
    using c1 c2(2) tu by (simp add: k'_def cellk_arc_set k2_def fun_upd_twist)
  then have "forked env t c k u k' h ms ppn st1 st2 cx"
    using fk by (simp add: forked_def k'_def k2_def k0_def)
  ultimately show ?thesis
    using that m1 q1 by (simp add: k'_def k2_def)
qed

lemma sys_fork_effect:
  assumes c: "running k t c" and r: "sys_fork env k = Inr fl"
  obtains u k' h ms ppn st1 st2 cx where "fl = Returns (pid_num h) k'" and "forked env t c k u k' h ms ppn st1 st2 cx"
    and "mm k' = st2\<lparr>mm_mem := write_u64 (write_u64 (mm_mem st2) (cx_field cx 35) (get_top (KernelStack (pid_num h)))) (cx_field cx 10) 0\<rparr>"
    and "TASK_MANAGER k' = tm_add u (TASK_MANAGER k)"
proof -
  let ?c = "c\<lparr>strong := strong c + 1\<rparr>"
  define k0 where "k0 = arc_set t (Some ?c) k"
  have ck: "cellk k t = Some c" and nb: "\<not> borrowed c" using c by (auto simp: running_def)
  obtain u k1 where f: "fork env t k0 = Inr (u, k1)"
    using r current_task_eq [OF c] by (auto simp: sys_fork_def k0_def elim!: bind_InrE)
  have "cellk k0 t = Some ?c" "\<not> borrowed ?c" using ck nb by (simp_all add: k0_def cellk_arc_set)
  from fork_effect [OF this f] obtain h ms ppn st1 st2 cx where fk: "forked env t ?c k0 u k1 h ms ppn st1 st2 cx"
    and m1: "mm k1 = st2\<lparr>mm_mem := write_u64 (mm_mem st2) (cx_field cx 35) (get_top (KernelStack (pid_num h)))\<rparr>"
    and q1: "TASK_MANAGER k1 = TASK_MANAGER k0" .
  have q: "TASK_MANAGER k1 = TASK_MANAGER k" using q1 by (simp add: k0_def)
  from sys_fork_rest [OF c f [unfolded k0_def] fk [unfolded k0_def] m1 q] obtain k'
    where k': "sys_fork env k = Inr (Returns (pid_num h) k')" "forked env t c k u k' h ms ppn st1 st2 cx"
      "mm k' = st2\<lparr>mm_mem := write_u64 (write_u64 (mm_mem st2) (cx_field cx 35) (get_top (KernelStack (pid_num h)))) (cx_field cx 10) 0\<rparr>"
      "TASK_MANAGER k' = tm_add u (TASK_MANAGER k)" .
  show ?thesis by (rule that [OF _ k'(2-4)]) (use r k'(1) in simp)
qed

lemma sys_fork_ok:
  assumes c: "running k t c" and h: "pid_alloc (PID_ALLOCATOR k) = (h, pa)"
    and f: "from_existed_user (env_syms env) (memory_set (inner_of c)) (mm k) = Inr (ms, st1)" "find_trap_cx_ppn (mm_mem st1) ms = Inr ppn"
      "KernelStack_new h (KERNEL_SPACE k, st1) = Inr (KernelStack (pid_num h), ks, st2)" "ppn_get_mut ppn = Inr cx"
  obtains k' where "sys_fork env k = Inr (Returns (pid_num h) k')" and "forked env t c k (length (arcs k)) k' h ms ppn st1 st2 cx"
    and "mm k' = st2\<lparr>mm_mem := write_u64 (write_u64 (mm_mem st2) (cx_field cx 35) (get_top (KernelStack (pid_num h)))) (cx_field cx 10) 0\<rparr>"
    and "TASK_MANAGER k' = tm_add (length (arcs k)) (TASK_MANAGER k)"
proof -
  let ?c = "c\<lparr>strong := strong c + 1\<rparr>"
  define k0 where "k0 = arc_set t (Some ?c) k"
  have "cellk k t = Some c" "\<not> borrowed c" using c by (auto simp: running_def)
  then have c0: "cellk k0 t = Some ?c" "\<not> borrowed ?c" by (simp_all add: k0_def cellk_arc_set)
  have k0: "pid_alloc (PID_ALLOCATOR k0) = (h, pa)" "from_existed_user (env_syms env) (memory_set (inner_of ?c)) (mm k0) = Inr (ms, st1)"
    "KernelStack_new h (KERNEL_SPACE k0, st1) = Inr (KernelStack (pid_num h), ks, st2)" "length (arcs k0) = length (arcs k)"
    using h f by (simp_all add: k0_def)
  from fork_eq [OF c0 k0(1,2) f(2) k0(3)] obtain k2
    where k2: "fork env t k0 = bind (ppn_get_mut ppn) (\<lambda>cx. Inr (length (arcs k0), k2 cx))"
      "\<forall>cx. ppn_get_mut ppn = Inr cx \<longrightarrow> forked env t ?c k0 (length (arcs k0)) (k2 cx) h ms ppn st1 st2 cx"
      "\<forall>cx. mm (k2 cx) = st2\<lparr>mm_mem := write_u64 (mm_mem st2) (cx_field cx 35) (get_top (KernelStack (pid_num h)))\<rparr>"
      "\<forall>cx. TASK_MANAGER (k2 cx) = TASK_MANAGER k0" .
  have "fork env t k0 = Inr (length (arcs k), k2 cx)" using k2(1) f(4) k0(4) by simp
  moreover have "TASK_MANAGER (k2 cx) = TASK_MANAGER k" using k2(4) by (simp add: k0_def)
  ultimately show ?thesis
    using sys_fork_rest [OF c, of env "length (arcs k)" "k2 cx" h ms ppn st1 st2 cx, folded k0_def] k2(2,3) f(4) k0(4) that by metis
qed

lemma proc_inv_sys_fork:
  assumes inv: "proc_inv k" and cur: "cur k = Some t" and room: "pida_room (PID_ALLOCATOR k)" and r: "sys_fork env k = Inr fl"
  shows "\<exists>v k'. fl = Returns v k' \<and> proc_inv k' \<and> cur k' = Some t \<and> keeps k k'"
proof -
  from proc_inv_running [OF inv cur] obtain c where c: "running k t c" "strong c = 2" "task_status (inner_of c) = Running" .
  from sys_fork_effect [OF c(1) r] obtain u k' h ms ppn st1 st2 cx where fl: "fl = Returns (pid_num h) k'"
    and fk: "forked env t c k u k' h ms ppn st1 st2 cx"
    and "mm k' = st2\<lparr>mm_mem := write_u64 (write_u64 (mm_mem st2) (cx_field cx 35) (get_top (KernelStack (pid_num h)))) (cx_field cx 10) 0\<rparr>"
    and q: "TASK_MANAGER k' = tm_add u (TASK_MANAGER k)" .
  let ?d = "set_inner ((inner_of c)\<lparr>children := children (inner_of c) @ [u]\<rparr>) c" and ?e = "child_cell env h t (inner_of c) ms ppn 2"
  have u: "u = length (arcs k)" and c': "cellk k' = (cellk k)(t := Some ?d, u := Some ?e)" and l: "length (arcs k') = Suc u"
    using fk by (auto simp: forked_def)
  have ck: "cellk k t = Some c" using c(1) by (simp add: running_def)
  obtain init where i: "INITPROC k = Some init" "table_inv (cellk k) u (queue k) (Some t) init" and pk: "pids_ok (cellk k) (PID_ALLOCATOR k)"
    using inv cur u by (auto simp: proc_inv_def)
  have "table_inv ((cellk k)(t := Some ?d, u := Some ?e)) (Suc u) (queue k @ [u]) (Some t) init"
    by (rule table_inv_fork [OF i(2) ck c(3)]) (simp_all add: child_cell_def c(3))
  moreover have "pids_ok ((cellk k)(t := Some ?d, u := Some ?e)) (PID_ALLOCATOR k')"
  proof (rule pids_ok_fork [OF _ room])
    show "pids_ok ((cellk k)(t := Some ?d)) (PID_ALLOCATOR k)" using pk ck by (rule pids_ok_upd) simp_all
    show "pid_alloc (PID_ALLOCATOR k) = (h, PID_ALLOCATOR k')" using fk by (simp add: forked_def)
    show "((cellk k)(t := Some ?d)) u = None" using cellk_length [OF ck] u by (simp add: cellk_def)
  qed (simp_all add: child_cell_def)
  moreover have "INITPROC k' = INITPROC k" "PROCESSOR k' = PROCESSOR k" using fk by (auto simp: forked_def)
  moreover have "cellk k u = None" using u by (simp add: cellk_def)
  then have "keeps k k'"
    using c' q fk cur_not_queued [OF inv cur] by (intro keepsI) (auto simp: forked_def tm_add_def)
  ultimately show ?thesis using fl c' l q i(1) cur by (auto simp: proc_inv_def tm_add_def)
qed

lemma proc_inv_upd:
  assumes inv: "proc_inv k" and ck: "cellk k t = Some c" and d: "same_proc c d" "task_status (inner_of d) = task_status (inner_of c)"
      "task_status (inner_of c) \<noteq> Zombie" "tcb_pid (arc_data d) = tcb_pid (arc_data c)" "kernel_stack (arc_data d) = kernel_stack (arc_data c)"
    and k': "cellk k' = (cellk k)(t := Some d)" "length (arcs k') = length (arcs k)" "PID_ALLOCATOR k' = PID_ALLOCATOR k"
      "TASK_MANAGER k' = TASK_MANAGER k" "cur k' = cur k" "INITPROC k' = INITPROC k"
  shows "proc_inv k'"
proof -
  obtain init where i: "INITPROC k = Some init" "table_inv (cellk k) (length (arcs k)) (queue k) (cur k) init" and pk: "pids_ok (cellk k) (PID_ALLOCATOR k)"
    using inv by (auto simp: proc_inv_def)
  from table_inv_same [OF i(2) ck d(1-3)] pids_ok_upd [OF pk ck d(4,5)] i(1) show ?thesis
    by (simp add: proc_inv_def k')
qed

text \<open>Changes that the table does not see at all.\<close>

lemma proc_inv_cong:
  assumes "proc_inv k" and "arcs k' = arcs k" and "PID_ALLOCATOR k' = PID_ALLOCATOR k" and "TASK_MANAGER k' = TASK_MANAGER k"
    and "cur k' = cur k" and "INITPROC k' = INITPROC k"
  shows "proc_inv k'"
proof -
  have "cellk k' = cellk k" using assms(2) by (auto simp: cellk_def)
  with assms show ?thesis by (simp add: proc_inv_def)
qed

text \<open>\<open>sys_exec\<close> returns, and changes nothing of the process but its memory.\<close>

lemma sys_exec_effect:
  assumes c: "running k t c" "strong c = 2" and r: "sys_exec env path k = Some (Inr fl)"
  shows "fl = Returns (- 1) k \<or>
    (\<exists>ms ppn st. fl = Returns 0 ((arc_set t (Some (set_inner ((inner_of c)\<lparr>memory_set := ms, trap_cx_ppn := ppn\<rparr>) c)) k)\<lparr>mm := st\<rparr>))"
proof -
  have ck: "cellk k t = Some c" and nb: "\<not> borrowed c" using c(1) by (auto simp: running_def)
  from r obtain data where
    e: "(case data of Some data \<Rightarrow>
         Some (bind (current_task k) (\<lambda>(task, k). bind (unwrap task) (\<lambda>task. bind (exec env task data k) (\<lambda>k. bind (Arc_drop task k) (\<lambda>k. Inr (Returns 0 k))))))
       | None \<Rightarrow> Some (Inr (Returns (- 1) k))) = Some (Inr fl)"
    unfolding sys_exec_def current_user_token_eq [OF c(1)] by (auto simp: obind_eq_Inr_iff simp del: option.case)
  show ?thesis
  proof (cases data)
    case None
    then show ?thesis using e by auto
  next
    case (Some d)
    let ?c = "c\<lparr>strong := 3\<rparr>"
    have k0: "cellk (arc_set t (Some ?c) k) t = Some ?c" "\<not> borrowed ?c" using ck nb by (simp_all add: cellk_arc_set)
    obtain k1 where k1: "exec env t d (arc_set t (Some ?c) k) = Inr k1" "bind (Arc_drop t k1) (\<lambda>k. Inr (Returns 0 k)) = Inr fl"
      using e Some current_task_eq [OF c(1)] c(2) by (auto elim!: bind_InrE)
    from exec_effect [OF k0 k1(1)] obtain ms ppn st
      where k1e: "k1 = (arc_set t (Some ((set_inner ((inner_of c)\<lparr>memory_set := ms, trap_cx_ppn := ppn\<rparr>) c)\<lparr>strong := 3\<rparr>)) k)\<lparr>mm := st\<rparr>"
      by auto
    let ?d = "set_inner ((inner_of c)\<lparr>memory_set := ms, trap_cx_ppn := ppn\<rparr>) c"
    have "cellk k1 t = Some (?d\<lparr>strong := 3\<rparr>)" using ck by (simp add: k1e cellk_arc_set)
    moreover have "?d\<lparr>strong := 2\<rparr> = ?d" using c(2) by (simp add: set_inner_def)
    ultimately show ?thesis using k1(2) Arc_drop_eq [of k1 t "?d\<lparr>strong := 3\<rparr>"] by (auto simp: k1e)
  qed
qed

lemma proc_inv_sys_exec:
  assumes inv: "proc_inv k" and cur: "cur k = Some t" and r: "sys_exec env path k = Some (Inr fl)"
  shows "\<exists>v k'. fl = Returns v k' \<and> proc_inv k' \<and> cur k' = Some t \<and> keeps k k'"
proof -
  from proc_inv_running [OF inv cur] obtain c where c: "running k t c" "strong c = 2" "task_status (inner_of c) = Running" .
  have ck: "cellk k t = Some c" using c(1) by (auto simp: running_def)
  from sys_exec_effect [OF c(1,2) r] show ?thesis
  proof (elim disjE exE)
    fix ms ppn st
    let ?d = "set_inner ((inner_of c)\<lparr>memory_set := ms, trap_cx_ppn := ppn\<rparr>) c"
    assume "fl = Returns 0 ((arc_set t (Some ?d) k)\<lparr>mm := st\<rparr>)"
    moreover have "proc_inv ((arc_set t (Some ?d) k)\<lparr>mm := st\<rparr>)"
      by (rule proc_inv_upd [OF inv ck, of ?d]) (use ck c(3) in \<open>simp_all add: same_proc_def cellk_arc_set\<close>)
    moreover have "keeps k ((arc_set t (Some ?d) k)\<lparr>mm := st\<rparr>)"
      using ck cur_not_queued(1) [OF inv cur] by (intro keepsI) (auto simp: cellk_arc_set)
    ultimately show ?thesis using cur by simp
  qed (use inv cur in simp)
qed

subsection \<open>\<open>waitpid\<close>\<close>

lemma find_enumerate_None_iff: "find (\<lambda>(_, x). P x) (enumerate n xs) = None \<longleftrightarrow> (\<forall>x \<in> set xs. \<not> P x)"
  by (induction xs arbitrary: n) auto

lemma find_enumerate_SomeD:
  "find (\<lambda>(_, x). P x) (enumerate n xs) = Some (i, x) \<Longrightarrow>
     \<exists>as bs. xs = as @ x # bs \<and> i = n + length as \<and> P x \<and> (\<forall>a \<in> set as. \<not> P a)"
proof (induction xs arbitrary: n)
  case Nil
  then show ?case by simp
next
  case (Cons y ys)
  show ?case
  proof (cases "P y")
    case True
    then have "y # ys = [] @ x # ys \<and> i = n + length ([] :: 'a list) \<and> P x \<and> (\<forall>a \<in> set []. \<not> P a)" using Cons.prems by auto
    then show ?thesis by blast
  next
    case False
    then obtain as bs where "ys = as @ x # bs" "i = Suc n + length as" "P x" "\<forall>a \<in> set as. \<not> P a" using Cons by fastforce
    with False have "y # ys = (y # as) @ x # bs \<and> i = n + length (y # as) \<and> P x \<and> (\<forall>a \<in> set (y # as). \<not> P a)" by simp
    then show ?thesis by blast
  qed
qed

text \<open>The search through the children on cells that are not borrowed: the state does not change.\<close>

definition wanted :: "isize \<Rightarrow> ArcInner \<Rightarrow> bool" where
  "wanted pid c \<longleftrightarrow> pid = - 1 \<or> pid = getpid (arc_data c)"

lemma find_child_eq:
  assumes "\<forall>u \<in> set us. p u k = Inr (P u, k)"
  shows "find_child p i us k = Inr (find (\<lambda>(_, u). P u) (enumerate i us), k)"
  using assms by (induction us arbitrary: i) auto

lemma match_pid_eq: "cellk k u = Some c \<Longrightarrow> match_pid pid u k = Inr (wanted pid c, k)"
  by (simp add: match_pid_def arc_get_cellk wanted_def)

lemma match_zombie_eq:
  assumes "cellk k u = Some c" and "\<not> borrowed c"
  shows "match_zombie pid u k = Inr (task_status (inner_of c) = Zombie \<and> wanted pid c, k)"
  using assms
  by (simp add: match_zombie_def cell_ops cellk_arc_set is_zombie_def get_status_def match_pid_def arc_get_cellk wanted_def getpid_def arc_set_same)

text \<open>Freeing the cell of a zombie.\<close>

lemma Arc_drop_last:
  assumes "cellk k u = Some c" and "strong c = 1" and "children (inner_of c) = []"
  shows "Arc_drop u k =
    bind (PidHandle_drop (PID_ALLOCATOR k) (tcb_pid (arc_data c))) (\<lambda>pa.
    bind (KernelStack_drop (kernel_stack (arc_data c)) (KERNEL_SPACE k, mm k)) (\<lambda>(ks, st).
    bind (MemorySet_drop st (memory_set (inner_of c))) (\<lambda>st.
    Inr ((arc_set u None k)\<lparr>PID_ALLOCATOR := pa, KERNEL_SPACE := ks, mm := st\<rparr>))))"
  using assms by (simp add: Arc_drop_def arc_get_cellk Let_def case_prod_beta cong: bind_cong)

text \<open>The state \<open>k'\<close> after the zombie \<open>u\<close>, a child of \<open>t\<close>, was reaped.\<close>

definition reaped :: "task_ref \<Rightarrow> ArcInner \<Rightarrow> task_ref \<Rightarrow> ArcInner \<Rightarrow> usize \<Rightarrow> kernel \<Rightarrow> kernel \<Rightarrow> bool" where
  "reaped t c u z ptr k k' \<longleftrightarrow> cellk k u = Some z \<and> task_status (inner_of z) = Zombie \<and> strong z = 1 \<and>
     (\<exists>as bs. children (inner_of c) = as @ u # bs \<and>
        cellk k' = (cellk k)(t := Some (set_inner ((inner_of c)\<lparr>children := as @ bs\<rparr>) c), u := None)) \<and>
     PidHandle_drop (PID_ALLOCATOR k) (tcb_pid (arc_data z)) = Inr (PID_ALLOCATOR k') \<and>
     (\<exists>a st. translated_refmut (mm_mem (mm k)) (ms_token (memory_set (inner_of c))) ptr = Inr a \<and>
        KernelStack_drop (kernel_stack (arc_data z))
          (KERNEL_SPACE k, (mm k)\<lparr>mm_mem := write_bytes (mm_mem (mm k)) a (le_bytes 4 (exit_code (inner_of z)))\<rparr>) = Inr (KERNEL_SPACE k', st) \<and>
        MemorySet_drop st (memory_set (inner_of z)) = Inr (mm k')) \<and>
     length (arcs k') = length (arcs k) \<and> TASK_MANAGER k' = TASK_MANAGER k \<and> PROCESSOR k' = PROCESSOR k \<and> INITPROC k' = INITPROC k \<and>
     frames k' = frames k \<and> cpu k' = cpu k"

text \<open>What a task and its children look like when the invariant holds.\<close>

definition family :: "kernel \<Rightarrow> task_ref \<Rightarrow> ArcInner \<Rightarrow> bool" where
  "family k t c \<longleftrightarrow> running k t c \<and> distinct (children (inner_of c)) \<and>
     (\<forall>u \<in> set (children (inner_of c)). u \<noteq> t \<and> (\<exists>d. cellk k u = Some d \<and> \<not> borrowed d \<and>
        (task_status (inner_of d) = Zombie \<longrightarrow> strong d = 1 \<and> children (inner_of d) = [])))"

lemma proc_inv_family:
  assumes "proc_inv k" and "running k t c"
  shows "family k t c"
proof -
  obtain init where i: "table_inv (cellk k) (length (arcs k)) (queue k) (cur k) init" using assms(1) by (auto simp: proc_inv_def)
  have ck: "cellk k t = Some c" using assms(2) by (simp add: running_def)
  have "distinct (children (inner_of c))"
    using table_inv_kids(3) [OF i ck] by (cases "children (inner_of c)") auto
  moreover have "u \<noteq> t \<and> (\<exists>d. cellk k u = Some d \<and> \<not> borrowed d \<and> (task_status (inner_of d) = Zombie \<longrightarrow> strong d = 1 \<and> children (inner_of d) = []))"
    if "u \<in> set (children (inner_of c))" for u
    using table_inv_kids(2) [OF i ck that] table_invD(7) [OF i ck that] table_invD(3,4,5) [OF i] by fastforce
  ultimately show ?thesis using assms(2) by (simp add: family_def)
qed

abbreviation kid :: "kernel \<Rightarrow> task_ref \<Rightarrow> ArcInner" where
  "kid k u \<equiv> the (cellk k u)"

text \<open>The search runs while the parent is borrowed and cloned; the children are other cells.\<close>

lemma waitpid_search:
  assumes f: "family k t c" and k0: "cellk k0 = (cellk k)(t := Some x)"
  shows "find_child (match_pid pid) 0 (children (inner_of c)) k0 =
      Inr (find (\<lambda>(_, u). wanted pid (kid k u)) (enumerate 0 (children (inner_of c))), k0)"
    and "find_child (match_zombie pid) 0 (children (inner_of c)) k0 =
      Inr (find (\<lambda>(_, u). task_status (inner_of (kid k u)) = Zombie \<and> wanted pid (kid k u)) (enumerate 0 (children (inner_of c))), k0)"
proof -
  have "\<forall>u \<in> set (children (inner_of c)). match_pid pid u k0 = Inr (wanted pid (kid k u), k0)"
    using f k0 by (auto simp: family_def match_pid_eq)
  then show "find_child (match_pid pid) 0 (children (inner_of c)) k0 =
      Inr (find (\<lambda>(_, u). wanted pid (kid k u)) (enumerate 0 (children (inner_of c))), k0)"
    by (rule find_child_eq)
  have "\<forall>u \<in> set (children (inner_of c)). match_zombie pid u k0 = Inr (task_status (inner_of (kid k u)) = Zombie \<and> wanted pid (kid k u), k0)"
    using f k0 by (auto simp: family_def match_zombie_eq)
  then show "find_child (match_zombie pid) 0 (children (inner_of c)) k0 =
      Inr (find (\<lambda>(_, u). task_status (inner_of (kid k u)) = Zombie \<and> wanted pid (kid k u)) (enumerate 0 (children (inner_of c))), k0)"
    by (rule find_child_eq)
qed

text \<open>The last part of \<open>sys_waitpid\<close>, after the search.\<close>

lemma sys_waitpid_eq:
  assumes f: "family k t c"
  defines "k0 \<equiv> arc_set t (Some (set_borrowed (c\<lparr>strong := strong c + 1\<rparr>))) k"
  shows "sys_waitpid pid ptr k =
    bind (if \<forall>u \<in> set (children (inner_of c)). \<not> wanted pid (kid k u) then Inr (- 1, inner_of c, k0)
      else case find (\<lambda>(_, u). task_status (inner_of (kid k u)) = Zombie \<and> wanted pid (kid k u)) (enumerate 0 (children (inner_of c))) of
             Some (idx, u) \<Rightarrow> take_child ptr idx u (inner_of c) k0
           | None \<Rightarrow> Inr (- 2, inner_of c, k0)) (\<lambda>(r, inner, k).
    bind (inner_release t inner k) (\<lambda>k. bind (Arc_drop t k) (\<lambda>k. Inr (Returns r k))))"
proof -
  have r: "running k t c" and ck: "cellk k t = Some c" "\<not> borrowed c" using f by (auto simp: family_def running_def)
  have k0: "cellk k0 = (cellk k)(t := Some (set_borrowed (c\<lparr>strong := strong c + 1\<rparr>)))" using ck by (simp add: k0_def cellk_arc_set)
  note s = waitpid_search [OF f k0]
  have n: "(\<forall>u \<in> set (children (inner_of c)). \<not> wanted pid (kid k u)) \<longleftrightarrow>
      find (\<lambda>(_, u). wanted pid (kid k u)) (enumerate 0 (children (inner_of c))) = None"
    by (simp add: find_enumerate_None_iff)
  have "inner_exclusive_access t (arc_set t (Some (c\<lparr>strong := strong c + 1\<rparr>)) k) = Inr (inner_of c, k0)"
    using ck inner_exclusive_access_eq [of _ t "c\<lparr>strong := strong c + 1\<rparr>"] by (simp add: cellk_arc_set k0_def)
  then show ?thesis
    unfolding sys_waitpid_def n
    by (cases "find (\<lambda>(_, u). wanted pid (kid k u)) (enumerate 0 (children (inner_of c)))")
      (simp_all add: current_task_eq [OF r] s case_prod_beta split: option.splits cong: bind_cong)
qed

lemma waitpid_none:
  assumes f: "family k t c" and r: "r \<in> {- 1, - 2 :: isize}"
  shows "bind (inner_release t (inner_of c) (arc_set t (Some (set_borrowed (c\<lparr>strong := strong c + 1\<rparr>))) k)) (\<lambda>k.
     bind (Arc_drop t k) (\<lambda>k. Inr (Returns r k))) = Inr (Returns r k)"
  using f by (simp add: family_def running_def cell_ops cellk_arc_set arc_set_same)

lemma take_child_eq:
  assumes c: "cellk k t = Some c" and d: "cellk k u = Some d" "\<not> borrowed d" "strong d = 1" "u \<noteq> t"
    and us: "children (inner_of c) = as @ u # bs"
  defines "k0 \<equiv> arc_set t (Some (set_borrowed (c\<lparr>strong := strong c + 1\<rparr>))) k"
  shows "take_child ptr (length as) u (inner_of c) k0 =
      bind (translated_refmut (mm_mem (mm k)) (ms_token (memory_set (inner_of c))) ptr) (\<lambda>a.
      bind (Arc_drop u (k0\<lparr>mm := (mm k)\<lparr>mm_mem := write_bytes (mm_mem (mm k)) a (le_bytes 4 (exit_code (inner_of d)))\<rparr>\<rparr>)) (\<lambda>k.
      Inr (getpid (arc_data d), (inner_of c)\<lparr>children := as @ bs\<rparr>, k)))"
proof -
  have "cellk k0 u = Some d" using c d by (simp add: k0_def cellk_arc_set)
  then show ?thesis
    using d us by (simp add: take_child_def Arc_strong_count_def arc_get_cellk cell_ops cellk_arc_set Let_def arc_set_same) (simp add: k0_def)
qed

lemma take_child_reaped:
  assumes c: "cellk k t = Some c" "\<not> borrowed c" "1 \<le> strong c"
    and d: "cellk k u = Some d" "\<not> borrowed d" "strong d = 1" "children (inner_of d) = []" "u \<noteq> t" and z: "task_status (inner_of d) = Zombie"
    and us: "children (inner_of c) = as @ u # bs"
    and r: "bind (take_child ptr (length as) u (inner_of c) (arc_set t (Some (set_borrowed (c\<lparr>strong := strong c + 1\<rparr>))) k)) (\<lambda>(r, inner, k).
          bind (inner_release t inner k) (\<lambda>k. bind (Arc_drop t k) (\<lambda>k. Inr (Returns r k)))) = Inr fl"
  shows "\<exists>k'. fl = Returns (getpid (arc_data d)) k' \<and> reaped t c u d ptr k k'"
proof -
  let ?i = "(inner_of c)\<lparr>children := as @ bs\<rparr>" and ?tok = "ms_token (memory_set (inner_of c))"
  define k0 where "k0 = arc_set t (Some (set_borrowed (c\<lparr>strong := strong c + 1\<rparr>))) k"
  have k0: "cellk k0 = (cellk k)(t := Some (set_borrowed (c\<lparr>strong := strong c + 1\<rparr>)))" using c by (simp add: k0_def cellk_arc_set)
  have du: "cellk k0 u = Some d" using k0 d by simp
  define put where "put a = k0\<lparr>mm := (mm k)\<lparr>mm_mem := write_bytes (mm_mem (mm k)) a (le_bytes 4 (exit_code (inner_of d)))\<rparr>\<rparr>" for a
  note take_child_eq [OF c(1) d(1-3,5) us, of ptr, folded k0_def, folded put_def]
  with r obtain a k1 where a: "translated_refmut (mm_mem (mm k)) ?tok ptr = Inr a" and k1: "Arc_drop u (put a) = Inr k1"
    and fl: "bind (inner_release t ?i k1) (\<lambda>k. bind (Arc_drop t k) (\<lambda>k. Inr (Returns (getpid (arc_data d)) k))) = Inr fl"
    unfolding k0_def [symmetric] by (auto elim!: bind_InrE)
  have "cellk (put a) u = Some d" using du by (simp add: put_def)
  note k1 [unfolded Arc_drop_last [OF this d(3,4)]]
  then obtain pa ks st st' where p: "PidHandle_drop (PID_ALLOCATOR k) (tcb_pid (arc_data d)) = Inr pa"
    "KernelStack_drop (kernel_stack (arc_data d)) (KERNEL_SPACE k, mm (put a)) = Inr (ks, st)" "MemorySet_drop st (memory_set (inner_of d)) = Inr st'"
    and k1e: "k1 = (arc_set u None (put a))\<lparr>PID_ALLOCATOR := pa, KERNEL_SPACE := ks, mm := st'\<rparr>"
    by (auto simp: put_def k0_def elim!: bind_InrE)
  have c1: "cellk k1 = (cellk k0)(u := None)" using du by (simp add: k1e cellk_arc_set put_def)
  let ?d = "set_inner ?i c"
  have "cellk k1 t = Some (set_borrowed (c\<lparr>strong := strong c + 1\<rparr>))" using c1 k0 d(5) by simp
  then have "inner_release t ?i k1 = Inr (arc_set t (Some (?d\<lparr>strong := strong c + 1\<rparr>)) k1)"
    "cellk (arc_set t (Some (?d\<lparr>strong := strong c + 1\<rparr>)) k1) t = Some (?d\<lparr>strong := strong c + 1\<rparr>)"
    by (simp_all add: inner_release_eq cellk_arc_set)
  then have "fl = Returns (getpid (arc_data d)) (arc_set t (Some ?d) k1)"
    using fl c(3) Arc_drop_eq [of "arc_set t (Some (?d\<lparr>strong := strong c + 1\<rparr>)) k1" t "?d\<lparr>strong := strong c + 1\<rparr>"] by simp
  moreover have "cellk (arc_set t (Some ?d) k1) = (cellk k)(t := Some ?d, u := None)"
    using c1 k0 d(5) by (simp add: cellk_arc_set fun_upd_twist)
  then have "reaped t c u d ptr k (arc_set t (Some ?d) k1)"
    unfolding reaped_def using d z us p a by (auto simp: k1e put_def k0_def)
  ultimately show ?thesis by blast
qed

lemma sys_waitpid_cases:
  assumes f: "family k t c" and r: "sys_waitpid pid ptr k = Inr fl"
  shows "(\<forall>u \<in> set (children (inner_of c)). \<not> wanted pid (kid k u)) \<and> fl = Returns (- 1) k \<or>
    (\<exists>u \<in> set (children (inner_of c)). wanted pid (kid k u)) \<and>
      (\<forall>u \<in> set (children (inner_of c)). wanted pid (kid k u) \<longrightarrow> task_status (inner_of (kid k u)) \<noteq> Zombie) \<and> fl = Returns (- 2) k \<or>
    (\<exists>as u bs k'. children (inner_of c) = as @ u # bs \<and> wanted pid (kid k u) \<and>
      (\<forall>a \<in> set as. \<not> (wanted pid (kid k a) \<and> task_status (inner_of (kid k a)) = Zombie)) \<and>
      fl = Returns (getpid (arc_data (kid k u))) k' \<and> reaped t c u (kid k u) ptr k k')"
proof -
  let ?us = "children (inner_of c)"
  let ?find = "find (\<lambda>(_, u). task_status (inner_of (kid k u)) = Zombie \<and> wanted pid (kid k u)) (enumerate 0 ?us)"
  define k0 where "k0 = arc_set t (Some (set_borrowed (c\<lparr>strong := strong c + 1\<rparr>))) k"
  note eq = sys_waitpid_eq [OF f, of pid ptr, folded k0_def] and none = waitpid_none [OF f, folded k0_def]
  have ck: "cellk k t = Some c" "\<not> borrowed c" "1 \<le> strong c" using f by (auto simp: family_def running_def)
  show ?thesis
  proof (cases "\<forall>u \<in> set ?us. \<not> wanted pid (kid k u)")
    case True
    then show ?thesis using r none by (simp add: eq)
  next
    case wt: False
    show ?thesis
    proof (cases ?find)
      case None
      then have "\<forall>u \<in> set ?us. wanted pid (kid k u) \<longrightarrow> task_status (inner_of (kid k u)) \<noteq> Zombie"
        by (auto simp: find_enumerate_None_iff)
      moreover have "fl = Returns (- 2) k" using r wt None none by (simp add: eq)
      ultimately show ?thesis using wt by blast
    next
      case (Some x)
      obtain idx u where x: "x = (idx, u)" by fastforce
      from find_enumerate_SomeD [OF Some [unfolded x]] obtain as bs where us: "?us = as @ u # bs" and idx: "idx = length as"
        and z: "task_status (inner_of (kid k u)) = Zombie" "wanted pid (kid k u)"
        and first: "\<forall>a \<in> set as. \<not> (task_status (inner_of (kid k a)) = Zombie \<and> wanted pid (kid k a))" by auto
      obtain d where d: "cellk k u = Some d" "\<not> borrowed d" "strong d = 1" "children (inner_of d) = []" "u \<noteq> t"
        using f us z by (auto simp: family_def)
      have "bind (take_child ptr (length as) u (inner_of c) k0) (\<lambda>(r, inner, k).
          bind (inner_release t inner k) (\<lambda>k. bind (Arc_drop t k) (\<lambda>k. Inr (Returns r k)))) = Inr fl"
        using r wt Some x idx by (simp add: eq)
      then have "\<exists>k'. fl = Returns (getpid (arc_data d)) k' \<and> reaped t c u d ptr k k'"
        unfolding k0_def by (rule take_child_reaped [OF ck d z(1) [unfolded d(1) option.sel] us])
      then obtain k' where "fl = Returns (getpid (arc_data (kid k u))) k'" "reaped t c u (kid k u) ptr k k'" using d(1) by auto
      with us z(2) first show ?thesis by blast
    qed
  qed
qed

lemma pids_ok_reap:
  assumes pk: "pids_ok f pa" and u: "f u = Some z" and d: "PidHandle_drop pa (tcb_pid (arc_data z)) = Inr pa'"
  shows "pids_ok (f(u := None)) pa'"
proof -
  have inv: "pida_inv pa" using pk by (simp add: pids_ok_def)
  note a = pids.dealloc_Inr [OF inv d]
  have "tcb_pid (arc_data x) \<noteq> tcb_pid (arc_data z)" if "f v = Some x" "v \<noteq> u" for v x
    using pk that u by (auto simp: pids_ok_def)
  then have "{tcb_pid (arc_data x) | x v. (f(u := None)) v = Some x} = {tcb_pid (arc_data x) | x v. f v = Some x} - {tcb_pid (arc_data z)}"
    using u by (auto split: if_splits) (metis option.inject)
  with a pk show ?thesis unfolding pids_ok_def by (auto split: if_splits)
qed

lemma proc_inv_sys_waitpid:
  assumes inv: "proc_inv k" and cur: "cur k = Some t" and r: "sys_waitpid pid ptr k = Inr fl"
  shows "\<exists>v k'. fl = Returns v k' \<and> proc_inv k' \<and> cur k' = Some t \<and> keeps k k'"
proof -
  from proc_inv_running [OF inv cur] obtain c where c: "running k t c" "strong c = 2" "task_status (inner_of c) = Running" .
  note fam = proc_inv_family [OF inv c(1)]
  have ck: "cellk k t = Some c" using c(1) by (simp add: running_def)
  consider (same) v where "fl = Returns v k" | (reap) u v k' where "fl = Returns v k'" "reaped t c u (kid k u) ptr k k'"
    using sys_waitpid_cases [OF fam r] by blast
  then show ?thesis
  proof cases
    case same
    then show ?thesis using inv cur keeps_refl by blast
  next
    case reap
    obtain init where i: "INITPROC k = Some init" "table_inv (cellk k) (length (arcs k)) (queue k) (cur k) init" and pk: "pids_ok (cellk k) (PID_ALLOCATOR k)"
      using inv by (auto simp: proc_inv_def)
    obtain as bs where z: "cellk k u = Some (kid k u)" "task_status (inner_of (kid k u)) = Zombie" and us: "children (inner_of c) = as @ u # bs"
      and c': "cellk k' = (cellk k)(t := Some (set_inner ((inner_of c)\<lparr>children := as @ bs\<rparr>) c), u := None)"
      and p: "PidHandle_drop (PID_ALLOCATOR k) (tcb_pid (arc_data (kid k u))) = Inr (PID_ALLOCATOR k')"
      using reap(2) by (auto simp: reaped_def)
    let ?d = "set_inner ((inner_of c)\<lparr>children := as @ bs\<rparr>) c"
    have ut: "u \<noteq> t" using fam us by (auto simp: family_def)
    have "table_inv ((cellk k)(t := Some ?d, u := None)) (length (arcs k)) (queue k) (cur k) init"
      by (rule table_inv_reap [OF i(2) ck z us]) simp_all
    moreover have "pids_ok ((cellk k)(t := Some ?d)) (PID_ALLOCATOR k)" using pk ck by (rule pids_ok_upd) simp_all
    from pids_ok_reap [OF this _ p] z(1) ut have "pids_ok ((cellk k)(t := Some ?d, u := None)) (PID_ALLOCATOR k')" by simp
    ultimately have "proc_inv k'" using reap(2) i(1) c' by (simp add: proc_inv_def reaped_def)
    moreover have "u \<notin> set (queue k)" using table_invD(9) [OF i(2)] z by (auto simp: status_def)
    then have "keeps k k'"
      using c' reap(2) cur_not_queued(1) [OF inv cur] by (intro keepsI) (auto simp: reaped_def)
    ultimately show ?thesis using reap cur by (simp add: reaped_def)
  qed
qed

subsection \<open>Exiting\<close>

definition upd_cells :: "task_ref list \<Rightarrow> (ArcInner \<Rightarrow> ArcInner) \<Rightarrow> (task_ref \<Rightarrow> ArcInner option) \<Rightarrow> task_ref \<Rightarrow> ArcInner option" where
  "upd_cells us h f u = (if u \<in> set us then map_option h (f u) else f u)"

lemma upd_cells_Cons:
  assumes "u \<notin> set us" and "f u = Some d"
  shows "upd_cells us h (f(u := Some (h d))) = upd_cells (u # us) h f"
  using assms by (auto simp: upd_cells_def)

definition adopted :: "task_ref \<Rightarrow> ArcInner \<Rightarrow> ArcInner" where
  "adopted init d = (set_inner ((inner_of d)\<lparr>parent := Some init\<rparr>) d)\<lparr>strong := strong d + 1\<rparr>"

lemma adopt_all:
  assumes "distinct us" and "\<forall>u \<in> set us. \<exists>d. cellk k u = Some d \<and> \<not> borrowed d"
  shows "\<exists>k'. for_each (adopt init) us (ii, k) = Inr (ii\<lparr>children := children ii @ us\<rparr>, k') \<and>
    cellk k' = upd_cells us (adopted init) (cellk k) \<and> same_rest k k'"
  using assms
proof (induction us arbitrary: ii k)
  case Nil
  then show ?case by (simp add: upd_cells_def)
next
  case (Cons u us)
  obtain d where d: "cellk k u = Some d" "\<not> borrowed d" using Cons.prems by auto
  let ?k = "arc_set u (Some (adopted init d)) k"
  have one: "adopt init u (ii, k) = Inr (ii\<lparr>children := children ii @ [u]\<rparr>, ?k)"
    using d by (simp add: adopt_def cell_ops cellk_arc_set adopted_def)
  have ck: "cellk ?k = (cellk k)(u := Some (adopted init d))" using d by (simp add: cellk_arc_set)
  have "\<exists>k'. for_each (adopt init) us (ii\<lparr>children := children ii @ [u]\<rparr>, ?k) =
      Inr ((ii\<lparr>children := children ii @ [u]\<rparr>)\<lparr>children := children (ii\<lparr>children := children ii @ [u]\<rparr>) @ us\<rparr>, k') \<and>
      cellk k' = upd_cells us (adopted init) (cellk ?k) \<and> same_rest ?k k'"
    using Cons.prems by (intro Cons.IH) (auto simp: ck)
  then obtain k' where k': "for_each (adopt init) us (ii\<lparr>children := children ii @ [u]\<rparr>, ?k) = Inr (ii\<lparr>children := children ii @ u # us\<rparr>, k')"
    "cellk k' = upd_cells us (adopted init) (cellk ?k)" "same_rest ?k k'" by auto
  have "cellk k' = upd_cells (u # us) (adopted init) (cellk k)"
    unfolding k'(2) ck using Cons.prems(1) d(1) by (intro upd_cells_Cons) auto
  moreover have "same_rest k k'" using k'(3) by (meson same_rest_arc_set same_rest_trans)
  ultimately show ?case using one k'(1) by auto
qed

lemma drop_all_refs:
  assumes "distinct us" and "\<forall>u \<in> set us. \<exists>d. cellk k u = Some d \<and> 1 < strong d"
  shows "\<exists>k'. for_each Arc_drop us k = Inr k' \<and> cellk k' = upd_cells us (\<lambda>d. d\<lparr>strong := strong d - 1\<rparr>) (cellk k) \<and> same_rest k k'"
  using assms
proof (induction us arbitrary: k)
  case Nil
  then show ?case by (simp add: upd_cells_def)
next
  case (Cons u us)
  let ?h = "\<lambda>d. d\<lparr>strong := strong d - 1\<rparr>"
  obtain d where d: "cellk k u = Some d" "1 < strong d" using Cons.prems by auto
  let ?k = "arc_set u (Some (?h d)) k"
  have ck: "cellk ?k = (cellk k)(u := Some (?h d))" using d by (simp add: cellk_arc_set)
  have "\<forall>v \<in> set us. cellk ?k v = cellk k v" unfolding ck using Cons.prems(1) by auto
  then have "\<exists>k'. for_each Arc_drop us ?k = Inr k' \<and> cellk k' = upd_cells us ?h (cellk ?k) \<and> same_rest ?k k'"
    using Cons.prems by (intro Cons.IH) simp_all
  then obtain k' where k': "for_each Arc_drop us ?k = Inr k'" "cellk k' = upd_cells us ?h (cellk ?k)" "same_rest ?k k'" by blast
  have "cellk k' = upd_cells (u # us) ?h (cellk k)"
    unfolding k'(2) ck using Cons.prems(1) d(1) by (intro upd_cells_Cons) auto
  moreover have "same_rest k k'" using k'(3) by (meson same_rest_arc_set same_rest_trans)
  ultimately show ?case using Arc_drop_eq [OF d] k'(1) by auto
qed

text \<open>The state \<open>k'\<close> after task \<open>t\<close> has exited; \<open>i0\<close> is the cell of \<open>initproc\<close>.\<close>

definition zombie_cell :: "ArcInner \<Rightarrow> i32 \<Rightarrow> MemorySet \<Rightarrow> ArcInner" where
  "zombie_cell c code ms =
     (set_inner ((inner_of c)\<lparr>task_status := Zombie, exit_code := code, children := [], memory_set := ms\<rparr>) c)\<lparr>strong := strong c - 1\<rparr>"

definition exited :: "task_ref \<Rightarrow> ArcInner \<Rightarrow> task_ref \<Rightarrow> ArcInner \<Rightarrow> i32 \<Rightarrow> kernel \<Rightarrow> kernel \<Rightarrow> bool" where
  "exited t c init i0 code k k' \<longleftrightarrow>
     (\<exists>ms. recycle_data_pages (memory_set (inner_of c), mm k) = Inr (ms, mm k') \<and>
        cellk k' = exit_table (cellk k) t (zombie_cell c code ms) init
          (set_inner ((inner_of i0)\<lparr>children := children (inner_of i0) @ children (inner_of c)\<rparr>) i0)
          (\<lambda>d. set_inner ((inner_of d)\<lparr>parent := Some init\<rparr>) d) (children (inner_of c))) \<and>
     length (arcs k') = length (arcs k) \<and> KERNEL_SPACE k' = KERNEL_SPACE k \<and> PID_ALLOCATOR k' = PID_ALLOCATOR k \<and>
     TASK_MANAGER k' = TASK_MANAGER k \<and> PROCESSOR k' = (PROCESSOR k)\<lparr>current := None\<rparr> \<and> INITPROC k' = INITPROC k \<and>
     frames k' = frames k \<and> cpu k' = idle_task_cx (PROCESSOR k)"

lemma exit_effect:
  assumes c: "running k t c" "2 \<le> strong c" and i: "INITPROC k = Some init" "cellk k init = Some i0" "\<not> borrowed i0" "init \<noteq> t"
    and us: "distinct (children (inner_of c))" "t \<notin> set (children (inner_of c))" "init \<notin> set (children (inner_of c))"
      "\<forall>u \<in> set (children (inner_of c)). \<exists>d. cellk k u = Some d \<and> \<not> borrowed d \<and> 1 \<le> strong d"
  shows "\<exists>k2. exit_current_and_run_next env code k =
    Some (bind (recycle_data_pages (memory_set (inner_of c), mm k)) (\<lambda>(ms, st). Inr (k2 ms st))) \<and>
    (\<forall>ms st. recycle_data_pages (memory_set (inner_of c), mm k) = Inr (ms, st) \<longrightarrow> exited t c init i0 code k (k2 ms st))"
proof -
  let ?us = "children (inner_of c)" and ?h = "\<lambda>d. d\<lparr>strong := strong d - 1\<rparr>"
  let ?z = "(inner_of c)\<lparr>task_status := Zombie, exit_code := code\<rparr>"
  let ?i = "set_inner ((inner_of i0)\<lparr>children := children (inner_of i0) @ ?us\<rparr>) i0"
  have ck: "cellk k t = Some c" "\<not> borrowed c" "cur k = Some t" using c(1) by (auto simp: running_def)
  define k1 where "k1 = (arc_set init (Some (set_borrowed i0)) (arc_set t (Some (set_borrowed c)) k))\<lparr>PROCESSOR := (PROCESSOR k)\<lparr>current := None\<rparr>\<rparr>"
  have c1: "cellk k1 = (cellk k)(t := Some (set_borrowed c), init := Some (set_borrowed i0))"
    using ck i by (simp add: k1_def cellk_arc_set)
  have u1: "\<forall>u \<in> set ?us. cellk k1 u = cellk k u" using us(2,3) unfolding c1 by auto
  obtain k3 where a: "for_each (adopt init) ?us (inner_of i0, k1) = Inr ((inner_of i0)\<lparr>children := children (inner_of i0) @ ?us\<rparr>, k3)"
    and c3: "cellk k3 = upd_cells ?us (adopted init) (cellk k1)" and s3: "same_rest k1 k3"
    using adopt_all [OF us(1), of k1 init "inner_of i0"] us(4) u1 by (metis (no_types, lifting))
  have i3: "cellk k3 init = Some (set_borrowed i0)" "cellk k3 t = Some (set_borrowed c)"
    using us(2,3) i(4) by (simp_all add: c3 upd_cells_def c1)
  define k4 where "k4 = arc_set init (Some ?i) k3"
  have c4: "cellk k4 = (cellk k3)(init := Some ?i)" using i3 by (simp add: k4_def cellk_arc_set)
  have u4: "cellk k4 u = map_option (adopted init) (cellk k u)" if "u \<in> set ?us" for u
    using that us(3) u1 by (auto simp: c4 c3 upd_cells_def)
  then have "\<forall>u \<in> set ?us. \<exists>d. cellk k4 u = Some d \<and> 1 < strong d" using us(4) by (fastforce simp: adopted_def)
  from drop_all_refs [OF us(1) this] obtain k5 where d5: "for_each Arc_drop ?us k4 = Inr k5" and c5: "cellk k5 = upd_cells ?us ?h (cellk k4)"
    and s5: "same_rest k4 k5" by blast
  have t5: "cellk k5 t = Some (set_borrowed c)" using us(2) i(4) i3 by (simp add: c5 upd_cells_def c4)
  let ?zc = "zombie_cell c code"
  define k6 where "k6 ms st = (arc_set t (Some (?zc ms)) k5)\<lparr>mm := st, cpu := idle_task_cx (PROCESSOR k)\<rparr>" for ms and st :: mm_state
  have rest: "length (arcs k5) = length (arcs k)" "mm k5 = mm k" "KERNEL_SPACE k5 = KERNEL_SPACE k" "PID_ALLOCATOR k5 = PID_ALLOCATOR k"
    "TASK_MANAGER k5 = TASK_MANAGER k" "PROCESSOR k5 = (PROCESSOR k)\<lparr>current := None\<rparr>" "INITPROC k5 = INITPROC k" "frames k5 = frames k"
    using s3 s5 by (simp_all add: same_rest_def k4_def k1_def)
  define ka where "ka = (arc_set t (Some (set_borrowed c)) k)\<lparr>PROCESSOR := (PROCESSOR k)\<lparr>current := None\<rparr>\<rparr>"
  have e1: "take_current_task k = (Some t, k\<lparr>PROCESSOR := (PROCESSOR k)\<lparr>current := None\<rparr>\<rparr>)"
    "inner_exclusive_access t (k\<lparr>PROCESSOR := (PROCESSOR k)\<lparr>current := None\<rparr>\<rparr>) = Inr (inner_of c, ka)"
    using ck by (simp_all add: take_current_task_def take_current_def inner_exclusive_access_eq ka_def)
  have e2: "INITPROC_deref env ka = Some (Inr (init, ka))" "inner_exclusive_access init ka = Inr (inner_of i0, k1)"
    using i ck by (simp_all add: INITPROC_deref_def ka_def k1_def inner_exclusive_access_eq cellk_arc_set)
  have e3: "inner_release init ((inner_of i0)\<lparr>children := children (inner_of i0) @ ?us\<rparr>) k3 = Inr k4"
    using inner_release_eq [OF i3(1)] by (simp add: k4_def)
  have e4: "bind (inner_release t (?z\<lparr>children := [], memory_set := ms\<rparr>) (k5\<lparr>mm := st\<rparr>)) (\<lambda>k. bind (Arc_drop t k) (schedule (\<lambda>_ k. Inr k))) = Inr (k6 ms st)"
    for ms and st :: mm_state
  proof -
    let ?y = "set_inner (?z\<lparr>children := [], memory_set := ms\<rparr>) c"
    have "inner_release t (?z\<lparr>children := [], memory_set := ms\<rparr>) (k5\<lparr>mm := st\<rparr>) = Inr ((arc_set t (Some ?y) k5)\<lparr>mm := st\<rparr>)"
      using inner_release_eq [of "k5\<lparr>mm := st\<rparr>" t "set_borrowed c"] t5 by simp
    moreover have "Arc_drop t ((arc_set t (Some ?y) k5)\<lparr>mm := st\<rparr>) = Inr ((arc_set t (Some (?zc ms)) k5)\<lparr>mm := st\<rparr>)"
      using Arc_drop_eq [of "(arc_set t (Some ?y) k5)\<lparr>mm := st\<rparr>" t ?y] t5 c(2) by (simp add: cellk_arc_set zombie_cell_def)
    ultimately show ?thesis using rest(6) by (simp add: schedule_def switch_def k6_def)
  qed
  have "exit_current_and_run_next env code k = Some (bind (recycle_data_pages (memory_set (inner_of c), mm k)) (\<lambda>(ms, st). Inr (k6 ms st)))"
    unfolding exit_current_and_run_next_def e1 prod.case unwrap_Some bind_Inr obind_simps e2 Let_def
    using a d5 e3 rest(2) e4 by (simp add: case_prod_beta cong: bind_cong)
  moreover have "exited t c init i0 code k (k6 ms st)" if "recycle_data_pages (memory_set (inner_of c), mm k) = Inr (ms, st)" for ms st
  proof -
    have "cellk (k6 ms st) = (cellk k5)(t := Some (?zc ms))" using t5 by (simp add: k6_def cellk_arc_set)
    also have "\<dots> = exit_table (cellk k) t (?zc ms) init ?i (\<lambda>d. set_inner ((inner_of d)\<lparr>parent := Some init\<rparr>) d) ?us"
    proof (rule ext)
      fix u
      consider "u = t" | "u \<noteq> t" "u = init" | "u \<in> set ?us" | "u \<noteq> t" "u \<noteq> init" "u \<notin> set ?us" by blast
      then show "((cellk k5)(t := Some (?zc ms))) u = exit_table (cellk k) t (?zc ms) init ?i (\<lambda>d. set_inner ((inner_of d)\<lparr>parent := Some init\<rparr>) d) ?us u"
      proof cases
        case 3
        then obtain d where "cellk k u = Some d" using us(4) by blast
        with 3 us(2,3) u4 [OF 3] show ?thesis by (auto simp: c5 upd_cells_def exit_table_def adopted_def)
      qed (use us i in \<open>auto simp: exit_table_def c5 c4 c3 c1 upd_cells_def\<close>)
    qed
    finally show ?thesis using rest that by (simp add: exited_def k6_def)
  qed
  ultimately show ?thesis by blast
qed

lemma pids_ok_map:
  assumes pk: "pids_ok f pa" and g: "\<And>t. map_option (\<lambda>c. (tcb_pid (arc_data c), kernel_stack (arc_data c))) (g t) =
      map_option (\<lambda>c. (tcb_pid (arc_data c), kernel_stack (arc_data c))) (f t)"
  shows "pids_ok g pa"
proof -
  have fg: "\<exists>d. f t = Some d \<and> tcb_pid (arc_data d) = tcb_pid (arc_data c) \<and> kernel_stack (arc_data d) = kernel_stack (arc_data c)"
    if "g t = Some c" for t c using g [of t] that by (cases "f t") auto
  have gf: "\<exists>d. g t = Some d \<and> tcb_pid (arc_data d) = tcb_pid (arc_data c)" if "f t = Some c" for t c
    using g [of t] that by (cases "g t") auto
  show ?thesis
    unfolding pids_ok_def
  proof (intro conjI allI impI)
    have "{tcb_pid (arc_data c) | c t. g t = Some c} = {tcb_pid (arc_data c) | c t. f t = Some c}"
      using fg gf by (metis (no_types, lifting))
    then show "pida_inv pa" "pida_in_use pa = {tcb_pid (arc_data c) | c t. g t = Some c}" using pk by (simp_all add: pids_ok_def)
    show "t = u" if "g t = Some c" "g u = Some d" "tcb_pid (arc_data c) = tcb_pid (arc_data d)" for t u c d
      using fg [OF that(1)] fg [OF that(2)] that(3) pk unfolding pids_ok_def by metis
    show "kernel_stack (arc_data c) = KernelStack (pid_num (tcb_pid (arc_data c)))" if "g t = Some c" for t c
      using fg [OF that] pk unfolding pids_ok_def by metis
  qed
qed

lemma proc_inv_init:
  assumes "proc_inv k"
  obtains init i0 where "INITPROC k = Some init" and "table_inv (cellk k) (length (arcs k)) (queue k) (cur k) init"
    and "cellk k init = Some i0" and "\<not> borrowed i0" and "pids_ok (cellk k) (PID_ALLOCATOR k)"
proof -
  obtain init where i: "INITPROC k = Some init" "table_inv (cellk k) (length (arcs k)) (queue k) (cur k) init" "pids_ok (cellk k) (PID_ALLOCATOR k)"
    using assms by (auto simp: proc_inv_def)
  obtain i0 where "cellk k init = Some i0" using table_invD(1) [OF i(2)] by blast
  with that i table_invD(3) [OF i(2) this] show ?thesis by blast
qed

lemma exit_effect_inv:
  assumes inv: "proc_inv k" and c: "running k t c" and init: "INITPROC k = Some init" "t \<noteq> init" "cellk k init = Some i0"
  shows "\<exists>k2. exit_current_and_run_next env code k =
    Some (bind (recycle_data_pages (memory_set (inner_of c), mm k)) (\<lambda>(ms, st). Inr (k2 ms st))) \<and>
    (\<forall>ms st. recycle_data_pages (memory_set (inner_of c), mm k) = Inr (ms, st) \<longrightarrow> exited t c init i0 code k (k2 ms st))"
proof -
  have i: "table_inv (cellk k) (length (arcs k)) (queue k) (cur k) init" using inv init(1) by (auto simp: proc_inv_def)
  have ck: "cellk k t = Some c" "cur k = Some t" using c by (auto simp: running_def)
  have "t \<in> {t. status (cellk k) t = Some Running}" using table_invD(10) [OF i] ck(2) by auto
  then have "strong c = 2" using table_invD(4) [OF i ck(1)] ck(1) by (auto simp: status_def)
  moreover have "\<not> borrowed i0" using table_invD(3) [OF i init(3)] .
  moreover have "init \<notin> set (children (inner_of c))" using table_inv_kids(1) [OF i ck(1)] by blast
  moreover have "1 \<le> strong d" if "cellk k u = Some d" for u d using table_invD(4) [OF i that] by simp
  ultimately show ?thesis
    using proc_inv_family [OF inv c] init by (intro exit_effect c) (auto simp: family_def)
qed

lemma exit_initproc:
  assumes inv: "proc_inv k" and "cur k = Some t" and "INITPROC k = Some t"
  shows "exit_current_and_run_next env code k = Some (Inl AlreadyBorrowed)"
proof -
  from proc_inv_running [OF assms(1,2)] obtain c where c: "running k t c" "strong c = 2" "task_status (inner_of c) = Running" .
  define k1 where "k1 = (arc_set t (Some (set_borrowed c)) k)\<lparr>PROCESSOR := (PROCESSOR k)\<lparr>current := None\<rparr>\<rparr>"
  have "cellk k t = Some c" "\<not> borrowed c" using c(1) by (auto simp: running_def)
  then have "inner_exclusive_access t (k\<lparr>PROCESSOR := (PROCESSOR k)\<lparr>current := None\<rparr>\<rparr>) = Inr (inner_of c, k1)" "cellk k1 t = Some (set_borrowed c)"
    by (simp_all add: inner_exclusive_access_eq k1_def cellk_arc_set)
  moreover have "INITPROC k1 = Some t" using assms(3) by (simp add: k1_def)
  ultimately show ?thesis
    using assms(2) inner_exclusive_access_borrowed [of k1 t "set_borrowed c"]
    by (simp add: exit_current_and_run_next_def take_current_task_def take_current_def INITPROC_deref_def)
qed

lemma proc_inv_exit:
  assumes inv: "proc_inv k" and cur: "cur k = Some t" and r: "exit_current_and_run_next env code k = Some (Inr k')"
  shows "proc_inv k'" and "cur k' = None" and "keeps k k'"
proof -
  from proc_inv_running [OF inv cur] obtain c where c: "running k t c" "strong c = 2" "task_status (inner_of c) = Running" .
  have ck: "cellk k t = Some c" using c(1) by (simp add: running_def)
  from proc_inv_init [OF inv] obtain init i0 where i: "INITPROC k = Some init" "table_inv (cellk k) (length (arcs k)) (queue k) (cur k) init"
    "cellk k init = Some i0" "\<not> borrowed i0" and pk: "pids_ok (cellk k) (PID_ALLOCATOR k)" .
  have ti: "t \<noteq> init" using r exit_initproc [OF inv cur, of env code] i(1) by auto
  obtain k2 where e: "exit_current_and_run_next env code k =
      Some (bind (recycle_data_pages (memory_set (inner_of c), mm k)) (\<lambda>(ms, st). Inr (k2 ms st)))"
    "\<forall>ms st. recycle_data_pages (memory_set (inner_of c), mm k) = Inr (ms, st) \<longrightarrow> exited t c init i0 code k (k2 ms st)"
    using exit_effect_inv [OF inv c(1) i(1) ti i(3), of env code] by blast
  have "bind (recycle_data_pages (memory_set (inner_of c), mm k)) (\<lambda>(ms, st). Inr (k2 ms st)) = Inr k'" using r e(1) by simp
  then have ex: "exited t c init i0 code k k'" using e(2) by (auto elim!: bind_InrE)
  then obtain ms where c': "cellk k' = exit_table (cellk k) t (zombie_cell c code ms) init
      (set_inner ((inner_of i0)\<lparr>children := children (inner_of i0) @ children (inner_of c)\<rparr>) i0)
      (\<lambda>d. set_inner ((inner_of d)\<lparr>parent := Some init\<rparr>) d) (children (inner_of c))"
    by (auto simp: exited_def)
  have tab: "table_inv (cellk k) (length (arcs k)) (queue k) (Some t) init" using i(2) cur by simp
  have "table_inv (cellk k') (length (arcs k)) (queue k) None init"
    unfolding c' by (rule table_inv_exit [OF tab ck ti i(3)]) (simp_all add: zombie_cell_def c(2))
  moreover have "pids_ok (cellk k') (PID_ALLOCATOR k)"
    by (rule pids_ok_map [OF pk]) (use ck i(3) in \<open>auto simp: c' exit_table_def zombie_cell_def option.map_comp comp_def\<close>)
  ultimately show "proc_inv k'" "cur k' = None" using ex i(1) by (simp_all add: exited_def proc_inv_def)
  have "saved k' u = saved k u" if "u \<noteq> t" for u
    using ex that i(3) by (auto simp: saved_def c' exit_table_def exited_def option.map_comp comp_def)
  moreover have "queue k' = queue k" using ex by (simp add: exited_def)
  ultimately show "keeps k k'" using cur_not_queued(1) [OF inv cur] unfolding keeps_def by (metis prefix_order.refl)
qed

end
