(* ===== verification/Machine.thy ===== *)
theory Machine
  imports Process_Inv
begin

text \<open>
  The kernel as a state machine: start-up (\<^verbatim>\<open>src/os/src/main.rs\<close>, \<^verbatim>\<open>src/os/src/mm/mod.rs\<close>), then user
  code that traps into the kernel and the idle loop that switches to the next task.  Between two
  traps user code and the assembly of the trampoline may change memory and the saved registers in
  any way.  A panic ends the machine: it has no successor.  All reachable states satisfy the
  invariant of the process table.
\<close>

subsection \<open>Start-up\<close>

definition clear_bss :: "kernel_env \<Rightarrow> memory \<Rightarrow> memory" where
  "clear_bss env m =
     slice_fill m \<lparr>slice_ptr = env_sbss env, slice_len = ebss (env_syms env) - env_sbss env\<rparr> 0"

text \<open>
  \<open>mm::init\<close>.  The heap of the kernel is not modelled.  \<open>KERNEL_SPACE\<close> is a lazy static that is
  built here.
\<close>

definition mm_init :: "kernel_env \<Rightarrow> mm_state \<Rightarrow> hart \<Rightarrow> (MemorySet \<times> mm_state \<times> hart) result" where
  "mm_init env st h =
     (let st = init_frame_allocator (ekernel (env_syms env)) st
      in bind (new_kernel (env_syms env) st) (\<lambda>(ks, st). Inr (ks, st, activate ks h)))"

text \<open>The part of \<open>rust_main\<close> before the call of \<open>run_tasks\<close>, from the memory and registers at reset.\<close>

definition rust_main :: "kernel_env \<Rightarrow> answers \<Rightarrow> memory \<Rightarrow> hart \<Rightarrow> TaskContext \<Rightarrow> kernel result option" where
  "rust_main env ans m h regs =
     obind (Some (mm_init env \<lparr>mm_mem = clear_bss env m, FRAME_ALLOCATOR = sfa_new\<rparr> h)) (\<lambda>(ks, st, h).
     obind (Some (remap_test (env_syms env) ks (mm_mem st))) (\<lambda>_.
     let k = \<lparr>mm = st, KERNEL_SPACE = ks, PID_ALLOCATOR = pida_new, arcs = [], TASK_MANAGER = TaskManager_new,
              PROCESSOR = Processor_new, INITPROC = None, cpu = regs, frames = (\<lambda>_. ResumeTrapReturn), khart = h, stvec = 0, sie_stimer = False,
              timer = 0, console = []\<rparr>
     in obind (add_initproc env k) (\<lambda>k.
        let k = trap_init env k;
            k = enable_timer_interrupt k;
            k = k\<lparr>timer := set_next_trigger (ans_time ans)\<rparr>
        in obind (list_apps (env_num_app env) (env_app_names env) (mm_mem (mm k))) (\<lambda>s.
           Some (Inr (print s k))))))"

subsection \<open>Steps\<close>

datatype machine = InUser kernel | InIdle kernel

inductive kstep :: "kernel_env \<Rightarrow> machine \<Rightarrow> machine \<Rightarrow> bool" for env where
  user: "kstep env (InUser k) (InUser (k\<lparr>mm := (mm k)\<lparr>mm_mem := m\<rparr>, cpu := regs\<rparr>))"
| trap_user: "pida_room (PID_ALLOCATOR k) \<Longrightarrow> trap_handler env ans cause k = Some (Inr (ToUser e k')) \<Longrightarrow>
    kstep env (InUser k) (InUser k')"
| trap_idle: "pida_room (PID_ALLOCATOR k) \<Longrightarrow> trap_handler env ans cause k = Some (Inr (ToIdle k')) \<Longrightarrow>
    kstep env (InUser k) (InIdle k')"
| wait: "run_tasks_step k = Inr (None, k') \<Longrightarrow> kstep env (InIdle k) (InIdle k')"
| run: "run_tasks_step k = Inr (Some t, k1) \<Longrightarrow> resume_task env ans t k1 = Some (Inr (ToUser e k')) \<Longrightarrow>
    kstep env (InIdle k) (InUser k')"
| run_idle: "run_tasks_step k = Inr (Some t, k1) \<Longrightarrow> resume_task env ans t k1 = Some (Inr (ToIdle k')) \<Longrightarrow>
    kstep env (InIdle k) (InIdle k')"

inductive_cases kstepE: "kstep env s s'"

inductive reachable :: "kernel_env \<Rightarrow> machine \<Rightarrow> bool" for env where
  boot: "rust_main env ans m h regs = Some (Inr k) \<Longrightarrow> reachable env (InIdle k)"
| step: "reachable env s \<Longrightarrow> kstep env s s' \<Longrightarrow> reachable env s'"

fun machine_inv :: "machine \<Rightarrow> bool" where
  "machine_inv (InUser k) \<longleftrightarrow> proc_inv k \<and> cur k \<noteq> None"
| "machine_inv (InIdle k) \<longleftrightarrow> proc_inv k \<and> cur k = None"

subsection \<open>The invariant\<close>

text \<open>What a call may leave: the task goes on, or the hart is idle.\<close>

fun flow_inv :: "task_ref \<Rightarrow> kernel \<Rightarrow> 'a flow \<Rightarrow> bool" where
  "flow_inv t k0 (Returns v k) \<longleftrightarrow> proc_inv k \<and> cur k = Some t \<and> keeps k0 k"
| "flow_inv t k0 (Switched k) \<longleftrightarrow> proc_inv k \<and> cur k = None \<and> keeps k0 k"

fun outcome_inv :: "kernel \<Rightarrow> outcome \<Rightarrow> bool" where
  "outcome_inv k0 (ToUser e k) \<longleftrightarrow> proc_inv k \<and> cur k \<noteq> None \<and> keeps k0 k"
| "outcome_inv k0 (ToIdle k) \<longleftrightarrow> proc_inv k \<and> cur k = None \<and> keeps k0 k"

lemma suspend_flow:
  assumes "proc_inv k" and "cur k = Some t" and "bind (suspend_current_and_run_next r k) (\<lambda>k. Inr (Switched k)) = Inr fl"
  shows "flow_inv t k fl"
  using proc_inv_suspend [OF assms(1,2), of r] assms(3) by auto

lemma sys_write_flow:
  assumes inv: "proc_inv k" "cur k = Some t" and r: "sys_write fd buf len k = Some (Inr fl)"
  shows "flow_inv t k fl"
proof -
  from proc_inv_running [OF inv] obtain c where c: "running k t c" .
  obtain bs k' where l: "for_each write_buffer bs k = Inr k'" and fl: "fl = Returns len k'"
    using r by (auto simp: sys_write_def current_user_token_eq [OF c] obind_eq_Inr_iff split: if_splits elim!: bind_InrE)
  have "proc_inv k' \<and> cur k' = Some t \<and> keeps k k'"
    by (rule for_each_invariant [OF l, where I = "\<lambda>_ j. proc_inv j \<and> cur j = Some t \<and> keeps k j"])
      (use inv in \<open>auto simp: write_buffer_def print_def elim!: bind_InrE intro: proc_inv_cong keeps_trans\<close>)
  then show ?thesis by (simp add: fl)
qed

lemma read_loop_flow:
  assumes inv: "proc_inv k" "cur k = Some t" and r: "read_loop c fd buf len k = Some (Inr fl)"
  shows "flow_inv t k fl"
proof -
  from proc_inv_running [OF inv] obtain d where d: "running k t d" .
  show ?thesis
  proof (cases "c = 0")
    case True
    then show ?thesis using r suspend_flow [OF inv] by (simp add: read_loop_def)
  next
    case False
    then obtain m where "fl = Returns 1 (k\<lparr>mm := m\<rparr>)"
      using r by (auto simp: read_loop_def current_user_token_eq [OF d] obind_eq_Inr_iff Let_def neq_Nil_conv split: list.splits)
    moreover have "proc_inv (k\<lparr>mm := m\<rparr>)" using inv(1) by (rule proc_inv_cong) simp_all
    ultimately show ?thesis using inv by simp
  qed
qed

definition call_inv :: "task_ref \<Rightarrow> kernel \<Rightarrow> 'a flow result option \<Rightarrow> bool" where
  "call_inv t k0 r \<longleftrightarrow> (\<forall>fl. r = Some (Inr fl) \<longrightarrow> flow_inv t k0 fl)"

lemma call_inv_if: "call_inv t k0 x \<Longrightarrow> call_inv t k0 y \<Longrightarrow> call_inv t k0 (if b then x else y)"
  by simp

lemma syscall_flow:
  assumes inv: "proc_inv k" "cur k = Some t" and room: "pida_room (PID_ALLOCATOR k)"
  shows "call_inv t k (syscall env ans i a0 a1 a2 k)"
proof -
  from proc_inv_running [OF inv] obtain c where c: "running k t c" .
  have "call_inv t k (sys_read ans a0 a1 a2 k)" "call_inv t k (sys_write a0 a1 a2 k)"
    using read_loop_flow [OF inv] sys_write_flow [OF inv] by (auto simp: call_inv_def sys_read_def obind_eq_Inr_iff split: if_splits)
  moreover have "call_inv t k (sys_exit env (ucast a0) k)" "call_inv t k (Some (sys_yield k))"
    using proc_inv_exit [OF inv] suspend_flow [OF inv] by (auto simp: call_inv_def sys_exit_def obind_eq_Inr_iff sys_yield_def)
  moreover have "call_inv t k (Some (Inr (sys_get_time ans k)))" "call_inv t k (Some (sys_getpid k))"
    using inv sys_getpid_eq [OF c] by (auto simp: call_inv_def sys_get_time_def)
  moreover have "call_inv t k (Some (sys_fork env k))" "call_inv t k (sys_exec env a0 k)" "call_inv t k (Some (sys_waitpid a0 a1 k))"
    using proc_inv_sys_fork [OF inv room] proc_inv_sys_exec [OF inv] proc_inv_sys_waitpid [OF inv] by (fastforce simp: call_inv_def)+
  ultimately show ?thesis
    unfolding syscall_def by (intro call_inv_if) (simp_all add: call_inv_def)
qed

lemma trap_return_outcome:
  assumes "proc_inv k" and "cur k = Some t" and "trap_return env k = Inr out"
  shows "outcome_inv k out"
proof -
  let ?k = "set_user_trap_entry k"
  have k: "proc_inv ?k" using assms(1) by (rule proc_inv_cong) (simp_all add: set_user_trap_entry_def)
  moreover have cu: "cur ?k = Some t" using assms(2) by (simp add: set_user_trap_entry_def)
  from proc_inv_running [OF k cu] obtain c where "running ?k t c" .
  from current_user_token_eq [OF this] assms(3) k cu show ?thesis by (auto simp: trap_return_def Let_def set_user_trap_entry_def)
qed

lemma outcome_keeps: "outcome_inv k out \<Longrightarrow> keeps k0 k \<Longrightarrow> outcome_inv k0 out"
  by (cases out) (auto intro: keeps_trans)

lemma finish_syscall_outcome:
  assumes "call_inv t k0 r" and "finish_syscall env r = Some (Inr out)"
  shows "outcome_inv k0 out"
proof -
  obtain fl where fl: "r = Some (Inr fl)" and "flow_inv t k0 fl"
    using assms by (auto simp: finish_syscall_def obind_eq_Inr_iff call_inv_def)
  show ?thesis
  proof (cases fl)
    case (Switched k)
    then show ?thesis using assms(2) fl \<open>flow_inv t k0 fl\<close> by (auto simp: finish_syscall_def)
  next
    case (Returns v k)
    then have k: "proc_inv k" "cur k = Some t" "keeps k0 k" using \<open>flow_inv t k0 fl\<close> by auto
    from proc_inv_running [OF k(1,2)] obtain c where c: "running k t c" .
    obtain cx where "trap_return env (k\<lparr>mm := (mm k)\<lparr>mm_mem := write_u64 (mm_mem (mm k)) (cx_field cx 10) v\<rparr>\<rparr>) = Inr out"
      using assms(2) fl Returns by (auto simp: finish_syscall_def current_trap_cx_eq [OF c] Let_def elim!: bind_InrE)
    moreover have "proc_inv (k\<lparr>mm := (mm k)\<lparr>mm_mem := write_u64 (mm_mem (mm k)) (cx_field cx 10) v\<rparr>\<rparr>)"
      using k(1) by (rule proc_inv_cong) simp_all
    ultimately have "outcome_inv (k\<lparr>mm := (mm k)\<lparr>mm_mem := write_u64 (mm_mem (mm k)) (cx_field cx 10) v\<rparr>\<rparr>) out"
      using k(2) by (intro trap_return_outcome) auto
    then have "outcome_inv k out" by (rule outcome_keeps) simp
    then show ?thesis using k(3) by (rule outcome_keeps)
  qed
qed

lemma exit_outcome:
  assumes "proc_inv k" "cur k = Some t" and "obind (exit_current_and_run_next env code k) (\<lambda>k. Some (Inr (ToIdle k))) = Some (Inr out)"
  shows "outcome_inv k out"
  using proc_inv_exit [OF assms(1,2)] assms(3) by (auto simp: obind_eq_Inr_iff)

lemma trap_handler_outcome:
  assumes "proc_inv k" "cur k = Some t" and room: "pida_room (PID_ALLOCATOR k)" and r: "trap_handler env ans cause k = Some (Inr out)"
  shows "outcome_inv k out"
proof -
  define k1 where "k1 = set_kernel_trap_entry env k"
  have k1: "proc_inv k1" "cur k1 = Some t" "pida_room (PID_ALLOCATOR k1)" and q: "keeps k k1"
    using assms(1-3) by (auto simp: k1_def set_kernel_trap_entry_def intro: proc_inv_cong)
  from proc_inv_running [OF k1(1,2)] obtain c where c: "running k1 t c" .
  note r1 = r [unfolded trap_handler_def Let_def, folded k1_def]
  have fault: "outcome_inv k1 out"
    if "obind (Some (current_trap_cx k1)) (\<lambda>(cx, k). obind (exit_current_and_run_next env (- 2) k) (\<lambda>k. Some (Inr (ToIdle k)))) = Some (Inr out)"
    using that exit_outcome [OF k1(1,2)] by (auto simp: current_trap_cx_eq [OF c] obind_eq_Inr_iff elim!: bind_InrE)
  have "outcome_inv k1 out"
  proof (cases cause)
    case UserEnvCall
    obtain m i a0 a1 a2 where "finish_syscall env (syscall env ans i a0 a1 a2 (k1\<lparr>mm := (mm k1)\<lparr>mm_mem := m\<rparr>\<rparr>)) = Some (Inr out)"
      using r1 UserEnvCall by (auto simp: current_trap_cx_eq [OF c] obind_eq_Inr_iff elim!: bind_InrE)
    moreover have "call_inv t (k1\<lparr>mm := (mm k1)\<lparr>mm_mem := m\<rparr>\<rparr>) (syscall env ans i a0 a1 a2 (k1\<lparr>mm := (mm k1)\<lparr>mm_mem := m\<rparr>\<rparr>))"
      using k1 by (intro syscall_flow) (auto intro: proc_inv_cong)
    ultimately have "outcome_inv (k1\<lparr>mm := (mm k1)\<lparr>mm_mem := m\<rparr>\<rparr>) out" by (intro finish_syscall_outcome)
    then show ?thesis by (rule outcome_keeps) simp
  next
    case SupervisorTimer
    have "proc_inv (k1\<lparr>timer := set_next_trigger (ans_time ans)\<rparr>)" using k1(1) by (rule proc_inv_cong) simp_all
    from proc_inv_suspend [OF this, of t ResumeTimer] k1(2) r1 SupervisorTimer
    have "outcome_inv (k1\<lparr>timer := set_next_trigger (ans_time ans)\<rparr>) out" by auto
    then show ?thesis by (rule outcome_keeps) simp
  next
    case IllegalInstruction
    then show ?thesis using r1 exit_outcome [OF k1(1,2)] by simp
  qed (use r1 fault in simp_all)
  then show ?thesis using q by (rule outcome_keeps)
qed

lemma resume_outcome:
  assumes "proc_inv k" "cur k = Some t" and r: "resume_task env ans t k = Some (Inr out)"
  shows "outcome_inv k out"
proof (cases "frames k t")
  case (ResumeRead fd buf len)
  have "call_inv t k (read_loop (ans_char ans) fd buf len k)" using read_loop_flow [OF assms(1,2)] by (simp add: call_inv_def)
  then show ?thesis using r ResumeRead by (intro finish_syscall_outcome) (simp_all add: resume_task_def)
next
  case ResumeYield
  have "call_inv t k (Some (Inr (Returns (0 :: isize) k)))" using assms(1,2) by (simp add: call_inv_def)
  then show ?thesis using r ResumeYield by (intro finish_syscall_outcome) (simp_all add: resume_task_def)
qed (use r trap_return_outcome [OF assms(1,2)] in \<open>simp_all add: resume_task_def\<close>)

subsection \<open>Boot\<close>

lemma TaskControlBlock_new_effect:
  assumes "TaskControlBlock_new env data k = Inr (tcb, k')"
  obtains h st ks where "pid_alloc (PID_ALLOCATOR k) = (h, PID_ALLOCATOR k')" and "k' = k\<lparr>mm := st, KERNEL_SPACE := ks, PID_ALLOCATOR := PID_ALLOCATOR k'\<rparr>"
    and "tcb_pid tcb = h" and "kernel_stack tcb = KernelStack (pid_num h)" and "\<not> cell_borrowed (tcb_inner tcb)"
    and "task_status (cell_inner (tcb_inner tcb)) = Ready" and "children (cell_inner (tcb_inner tcb)) = []"
    and "parent (cell_inner (tcb_inner tcb)) = None"
  using assms
  by (auto simp: TaskControlBlock_new_def Let_def split: prod.splits dest!: KernelStack_new_pid elim!: bind_InrE)

text \<open>The first task is \<open>initproc\<close>: it has the first pid, and it alone is in the queue.\<close>

lemma add_initproc_effect:
  assumes r: "add_initproc env k = Some (Inr k')"
    and k: "INITPROC k = None" "arcs k = []" "queue k = []" "cur k = None" "PID_ALLOCATOR k = pida_new"
  obtains c pa where "cellk k' = (\<lambda>_. None)(0 := Some c)" and "length (arcs k') = 1" and "queue k' = [0]" and "cur k' = None" and "INITPROC k' = Some 0"
    and "PID_ALLOCATOR k' = pa" and "pid_alloc pida_new = (tcb_pid (arc_data c), pa)" and "kernel_stack (arc_data c) = KernelStack (pid_num (tcb_pid (arc_data c)))"
    and "strong c = 2" and "\<not> borrowed c" and "task_status (inner_of c) = Ready" and "children (inner_of c) = []" and "parent (inner_of c) = None"
proof -
  obtain data tcb k1 where t: "TaskControlBlock_new env data k = Inr (tcb, k1)"
    and i: "Some (bind (Arc_clone (length (arcs k1)) ((snd (Arc_new tcb k1))\<lparr>INITPROC := Some (length (arcs k1))\<rparr>)) (\<lambda>k. Inr (add_task (length (arcs k1)) k))) = Some (Inr k')"
    using r k(1) by (auto simp: add_initproc_def INITPROC_deref_def Let_def obind_eq_Inr_iff Arc_new_def split: prod.splits elim!: bind_InrE)
  from TaskControlBlock_new_effect [OF t] obtain h st ks where h: "pid_alloc (PID_ALLOCATOR k) = (h, PID_ALLOCATOR k1)"
    and k1: "k1 = k\<lparr>mm := st, KERNEL_SPACE := ks, PID_ALLOCATOR := PID_ALLOCATOR k1\<rparr>"
    and tcb: "tcb_pid tcb = h" "kernel_stack tcb = KernelStack (pid_num h)" "\<not> cell_borrowed (tcb_inner tcb)"
      "task_status (cell_inner (tcb_inner tcb)) = Ready" "children (cell_inner (tcb_inner tcb)) = []" "parent (cell_inner (tcb_inner tcb)) = None" .
  have f1: "arcs k1 = []" "queue k1 = []" "cur k1 = None" by (subst k1, simp add: k)+
  define c where "c = \<lparr>strong = 2, arc_data = tcb\<rparr>"
  have k': "k' = k1\<lparr>arcs := [Some c], frames := (frames k1)(0 := ResumeTrapReturn), INITPROC := Some 0,
      TASK_MANAGER := tm_add 0 (TASK_MANAGER k1)\<rparr>"
    using i f1 by (auto simp: Arc_new_def Arc_clone_def arc_get_def arc_set_def add_task_def c_def numeral_2_eq_2)
  have "cellk k' = (\<lambda>_. None)(0 := Some c)" by (rule ext) (simp add: k' cellk_def)
  then show ?thesis
    by (rule that [of c "PID_ALLOCATOR k1"]) (use f1 h k(5) tcb in \<open>simp_all add: k' c_def tm_add_def\<close>)
qed

lemma add_initproc_inv:
  assumes r: "add_initproc env k = Some (Inr k')"
    and k: "INITPROC k = None" "arcs k = []" "queue k = []" "cur k = None" "PID_ALLOCATOR k = pida_new"
  shows "proc_inv k'" and "cur k' = None"
proof -
  from add_initproc_effect [OF assms] obtain c pa where ck: "cellk k' = (\<lambda>_. None)(0 := Some c)"
    and f: "length (arcs k') = 1" "queue k' = [0]" "cur k' = None" "INITPROC k' = Some 0" "PID_ALLOCATOR k' = pa"
    and h: "pid_alloc pida_new = (tcb_pid (arc_data c), pa)" and ks: "kernel_stack (arc_data c) = KernelStack (pid_num (tcb_pid (arc_data c)))"
    and c: "strong c = 2" "\<not> borrowed c" "task_status (inner_of c) = Ready" "children (inner_of c) = []" "parent (inner_of c) = None" .
  have "pids_ok (\<lambda>_. None) pida_new" by (simp add: pids_ok_def pida_inv_def pida_in_use_def pida_new_def)
  from pids_ok_fork [OF this _ h, where n = 0 and e = c] ks have "pids_ok (cellk k') (PID_ALLOCATOR k')"
    unfolding ck by (simp add: f pida_room_def pida_new_def)
  moreover have "table_inv (cellk k') 1 [0] None 0"
    unfolding ck using c by (auto simp: table_inv_def status_def kidlist_def kids_def)
  ultimately show "proc_inv k'" "cur k' = None" by (simp_all add: proc_inv_def f)
qed

text \<open>The rest of \<open>rust_main\<close> does not touch the processes.\<close>

lemma rust_main_initproc:
  assumes "rust_main env ans m h regs = Some (Inr k)"
  obtains k0 k1 where "add_initproc env k0 = Some (Inr k1)" and "INITPROC k0 = None" and "arcs k0 = []" and "queue k0 = []" and "cur k0 = None"
    and "PID_ALLOCATOR k0 = pida_new" and "arcs k = arcs k1" and "TASK_MANAGER k = TASK_MANAGER k1" and "PROCESSOR k = PROCESSOR k1"
    and "INITPROC k = INITPROC k1" and "PID_ALLOCATOR k = PID_ALLOCATOR k1"
proof -
  obtain ks st h' k1 s where "add_initproc env \<lparr>mm = st, KERNEL_SPACE = ks, PID_ALLOCATOR = pida_new, arcs = [], TASK_MANAGER = TaskManager_new,
        PROCESSOR = Processor_new, INITPROC = None, cpu = regs, frames = (\<lambda>_. ResumeTrapReturn), khart = h', stvec = 0, sie_stimer = False, timer = 0, console = []\<rparr>
      = Some (Inr k1)"
    and k: "k = print s ((enable_timer_interrupt (trap_init env k1))\<lparr>timer := set_next_trigger (ans_time ans)\<rparr>)"
    using assms by (auto simp: rust_main_def Let_def obind_eq_Inr_iff)
  from this(1) show ?thesis
    by (rule that) (simp_all add: k TaskManager_new_def Processor_new_def print_def trap_init_def set_kernel_trap_entry_def enable_timer_interrupt_def)
qed

lemma rust_main_inv:
  assumes "rust_main env ans m h regs = Some (Inr k)"
  shows "machine_inv (InIdle k)"
proof -
  from rust_main_initproc [OF assms] obtain k0 k1 where i: "add_initproc env k0 = Some (Inr k1)" "INITPROC k0 = None" "arcs k0 = []" "queue k0 = []"
    "cur k0 = None" "PID_ALLOCATOR k0 = pida_new"
    and k: "arcs k = arcs k1" "TASK_MANAGER k = TASK_MANAGER k1" "PROCESSOR k = PROCESSOR k1" "INITPROC k = INITPROC k1" "PID_ALLOCATOR k = PID_ALLOCATOR k1" .
  note k1 = add_initproc_inv [OF i]
  have "proc_inv k" using k1(1) by (rule proc_inv_cong) (simp_all add: k)
  with k1(2) k show ?thesis by simp
qed

lemma kstep_inv:
  assumes "machine_inv s" and "kstep env s s'"
  shows "machine_inv s'"
  using assms(2,1)
proof cases
  case (user k regs m)
  have "proc_inv (k\<lparr>mm := (mm k)\<lparr>mm_mem := m\<rparr>, cpu := regs\<rparr>)" if "proc_inv k"
    using that by (rule proc_inv_cong) simp_all
  with user assms(1) show ?thesis by simp
next
  case (trap_user k ans cause e k')
  then show ?thesis using assms(1) trap_handler_outcome by fastforce
next
  case (trap_idle k ans cause k')
  then show ?thesis using assms(1) trap_handler_outcome by fastforce
next
  case (wait k k')
  then show ?thesis using assms(1) proc_inv_run [of k] by auto
next
  case (run k t k1 ans e k')
  then have "proc_inv k1 \<and> cur k1 = Some t" using assms(1) proc_inv_run [of k] by auto
  with run show ?thesis using resume_outcome [of k1 t env ans "ToUser e k'"] by simp
next
  case (run_idle k t k1 ans k')
  then have "proc_inv k1 \<and> cur k1 = Some t" using assms(1) proc_inv_run [of k] by auto
  with run_idle show ?thesis using resume_outcome [of k1 t env ans "ToIdle k'"] by simp
qed

lemma reachable_inv: "reachable env s \<Longrightarrow> machine_inv s"
  by (induction rule: reachable.induct) (auto intro: rust_main_inv kstep_inv simp del: machine_inv.simps)

end
