(* ===== verification/Process_Laws.thy ===== *)
theory Process_Laws
  imports Machine
begin

text \<open>
  What the operations on processes do: waiting for a child, exiting, switching, and the order in
  which tasks run.  The witnesses use a small process table: \<open>initproc\<close> with two children, the second
  of which has exited.
\<close>

subsection \<open>A process table\<close>

definition ex_cell :: "PageTable \<Rightarrow> nat \<Rightarrow> usize \<Rightarrow> TaskStatus \<Rightarrow> task_ref option \<Rightarrow> task_ref list \<Rightarrow> i32 \<Rightarrow> ArcInner" where
  "ex_cell pt n p s par cs code =
     \<lparr>strong = n, arc_data = \<lparr>tcb_pid = PidHandle p, kernel_stack = KernelStack p, tcb_inner = UPSafeCell_new
        \<lparr>trap_cx_ppn = PhysPageNum 0x80500, base_size = 0x15000, task_cx = goto_trap_return 0x80200000 (p + 1), task_status = s,
         memory_set = \<lparr>page_table = pt\<lparr>pt_frames := []\<rparr>, areas = []\<rparr>, parent = par, children = cs,
         exit_code = code\<rparr>\<rparr>\<rparr>"

text \<open>
  The table with a running task \<open>cu\<close>: tasks 0 and 1 are alive, task 2 is a zombie.  All three use
  the page table \<open>pt\<close>, whose frames are not theirs.
\<close>

definition ex_kernel :: "mm_state \<Rightarrow> PageTable \<Rightarrow> task_ref option \<Rightarrow> kernel" where
  "ex_kernel st pt cu =
     \<lparr>mm = st, KERNEL_SPACE = \<lparr>page_table = pt\<lparr>pt_frames := []\<rparr>, areas = []\<rparr>,
      PID_ALLOCATOR = \<lparr>pida_current = 3, pida_recycled = []\<rparr>,
      arcs = [Some (ex_cell pt 2 0 (if cu = Some 0 then Running else Ready) None [1, 2] 0),
              Some (ex_cell pt 2 1 (if cu = Some 1 then Running else Ready) (Some 0) [] 0),
              Some (ex_cell pt 1 2 Zombie (Some 0) [] 7)],
      TASK_MANAGER = \<lparr>ready_queue = filter (\<lambda>t. Some t \<noteq> cu) [0, 1]\<rparr>, PROCESSOR = \<lparr>current = cu, idle_task_cx = zero_init\<rparr>,
      INITPROC = Some 0, cpu = zero_init, frames = (\<lambda>_. ResumeTrapReturn), khart = \<lparr>hart_satp = 0, hart_tlb = (\<lambda>_. None)\<rparr>,
      stvec = 0, sie_stimer = True, timer = 0, console = []\<rparr>"

definition ex_pt :: PageTable where
  "ex_pt = \<lparr>root_ppn = PhysPageNum 0x80400, pt_frames = []\<rparr>"

text \<open>The outside of the kernel: every file holds the program \<open>ex_elf\<close>, the table of applications is in the data section.\<close>

definition ex_env :: kernel_env where
  "ex_env = \<lparr>env_syms = ex_syms, env_elf_new = (\<lambda>_. Some ex_elf), env_sstatus = 0, env_trap_handler = 0x80203000, env_trap_return = 0x80203100,
     env_trap_from_kernel = 0x80203200, env_alltraps = 0x80201000, env_restore = 0x80201080, env_sbss = 0x80228000,
     env_num_app = 0x80214000, env_app_names = 0x8021401C\<rparr>"

abbreviation ex_status :: "task_ref option \<Rightarrow> task_ref \<Rightarrow> TaskStatus" where
  "ex_status cu t \<equiv> if cu = Some t then Running else Ready"

lemma ex_kernel_cells:
  "cellk (ex_kernel st pt cu) t = Some c \<longleftrightarrow> t = 0 \<and> c = ex_cell pt 2 0 (ex_status cu 0) None [1, 2] 0 \<or>
     t = 1 \<and> c = ex_cell pt 2 1 (ex_status cu 1) (Some 0) [] 0 \<or> t = 2 \<and> c = ex_cell pt 1 2 Zombie (Some 0) [] 7"
proof -
  consider "t = 0" | "t = 1" | "t = 2" | "3 \<le> t" by linarith
  then show ?thesis by cases (auto simp: cellk_def ex_kernel_def)
qed

lemma ex_cell_simps [simp]:
  "strong (ex_cell pt n p s par cs code) = n" "tcb_pid (arc_data (ex_cell pt n p s par cs code)) = PidHandle p"
  "kernel_stack (arc_data (ex_cell pt n p s par cs code)) = KernelStack p" "\<not> borrowed (ex_cell pt n p s par cs code)"
  "task_status (inner_of (ex_cell pt n p s par cs code)) = s" "parent (inner_of (ex_cell pt n p s par cs code)) = par"
  "children (inner_of (ex_cell pt n p s par cs code)) = cs" "exit_code (inner_of (ex_cell pt n p s par cs code)) = code"
  by (simp_all add: ex_cell_def)

lemma ex_kernel_fields [simp]:
  "queue (ex_kernel st pt cu) = filter (\<lambda>t. Some t \<noteq> cu) [0, 1]" "cur (ex_kernel st pt cu) = cu" "INITPROC (ex_kernel st pt cu) = Some 0" "length (arcs (ex_kernel st pt cu)) = 3"
  "PID_ALLOCATOR (ex_kernel st pt cu) = \<lparr>pida_current = 3, pida_recycled = []\<rparr>"
  by (simp_all add: ex_kernel_def)

lemma ex_kernel_status:
  "status (cellk (ex_kernel st pt cu)) t = (if t = 0 \<or> t = 1 then Some (ex_status cu t) else if t = 2 then Some Zombie else None)"
proof -
  consider "t = 0" | "t = 1" | "t = 2" | "3 \<le> t" by linarith
  then show ?thesis by cases (auto simp: status_def cellk_def ex_kernel_def)
qed

lemma ex_kernel_kids: "kidlist (cellk (ex_kernel st pt cu)) 3 = [1, 2]"
  by (simp add: kidlist_def kids_def cellk_def numeral_3_eq_3) (simp add: ex_kernel_def numeral_2_eq_2)

lemma ex_kernel_pids: "pids_ok (cellk (ex_kernel st pt cu)) \<lparr>pida_current = 3, pida_recycled = []\<rparr>"
proof -
  have "x < 3 \<longleftrightarrow> x = 0 \<or> x = 1 \<or> x = 2" for x :: usize
  proof -
    have "unat x < 3 \<longleftrightarrow> unat x = 0 \<or> unat x = 1 \<or> unat x = 2" by linarith
    then show ?thesis
      using word_unat_eq_iff [of x 0] word_unat_eq_iff [of x 1] word_unat_eq_iff [of x 2] by (simp add: word_less_nat_alt)
  qed
  then have "pida_in_use \<lparr>pida_current = 3, pida_recycled = []\<rparr> = {PidHandle 0, PidHandle 1, PidHandle 2}"
    by (simp add: pida_in_use_def set_eq_iff) (metis PidHandle.collapse PidHandle.sel)
  moreover have "{tcb_pid (arc_data c) | c t. cellk (ex_kernel st pt cu) t = Some c} = {PidHandle 0, PidHandle 1, PidHandle 2}"
    unfolding ex_kernel_cells by (auto intro: exI [of _ "ex_cell pt 1 2 Zombie (Some 0) [] 7"]) (metis ex_cell_simps(2))+
  ultimately show ?thesis
    unfolding pids_ok_def ex_kernel_cells by (auto simp: pida_inv_def)
qed

lemma ex_kernel_inv:
  assumes "cu \<in> {None, Some 0, Some 1}"
  shows "proc_inv (ex_kernel st pt cu)"
proof -
  have "dom (cellk (ex_kernel st pt cu)) = {0, 1, 2}" by (auto simp: dom_def ex_kernel_cells)
  then have "table_inv (cellk (ex_kernel st pt cu)) 3 (queue (ex_kernel st pt cu)) cu 0"
    unfolding table_inv_def ex_kernel_kids ex_kernel_status using assms
    by (auto simp: ex_kernel_cells split: if_splits)
  with ex_kernel_pids show ?thesis by (simp add: proc_inv_def)
qed

subsection \<open>Waiting for a child\<close>

definition matching :: "kernel \<Rightarrow> isize \<Rightarrow> ArcInner \<Rightarrow> task_ref list" where
  "matching k pid c = filter (\<lambda>u. wanted pid (kid k u)) (children (inner_of c))"

definition zombies :: "kernel \<Rightarrow> isize \<Rightarrow> ArcInner \<Rightarrow> task_ref list" where
  "zombies k pid c = filter (\<lambda>u. is_zombie (inner_of (kid k u))) (matching k pid c)"

text \<open>The part of \<open>waitpid\<close> that works on memory when child \<open>z\<close> is taken.\<close>

definition reap_memory :: "ArcInner \<Rightarrow> ArcInner \<Rightarrow> usize \<Rightarrow> kernel \<Rightarrow> (MemorySet \<times> mm_state) result" where
  "reap_memory c z ptr k =
     bind (translated_refmut (mm_mem (mm k)) (ms_token (memory_set (inner_of c))) ptr) (\<lambda>a.
     bind (KernelStack_drop (kernel_stack (arc_data z))
       (KERNEL_SPACE k, (mm k)\<lparr>mm_mem := write_bytes (mm_mem (mm k)) a (le_bytes 4 (exit_code (inner_of z)))\<rparr>)) (\<lambda>(ks, st).
     bind (MemorySet_drop st (memory_set (inner_of z))) (\<lambda>st.
     Inr (ks, st))))"

lemma find_enumerate_first:
  assumes "P x" and "\<forall>a \<in> set as. \<not> P a"
  shows "find (\<lambda>(_, x). P x) (enumerate n (as @ x # bs)) = Some (n + length as, x)"
  using assms by (induction as arbitrary: n) auto

lemma take_child_memory:
  assumes c: "cellk k t = Some c" "\<not> borrowed c" "1 \<le> strong c"
    and d: "cellk k u = Some d" "\<not> borrowed d" "strong d = 1" "u \<noteq> t" "children (inner_of d) = []"
    and us: "children (inner_of c) = as @ u # bs" and p: "PidHandle_drop (PID_ALLOCATOR k) (tcb_pid (arc_data d)) = Inr pa"
  shows "\<exists>k2. bind (take_child ptr (length as) u (inner_of c) (arc_set t (Some (set_borrowed (c\<lparr>strong := strong c + 1\<rparr>))) k)) (\<lambda>(r, inner, k).
      bind (inner_release t inner k) (\<lambda>k. bind (Arc_drop t k) (\<lambda>k. Inr (Returns r k)))) =
    bind (reap_memory c d ptr k) (\<lambda>(ks, st). Inr (Returns (getpid (arc_data d)) (k2 ks st)))"
proof -
  define k0 where "k0 = arc_set t (Some (set_borrowed (c\<lparr>strong := strong c + 1\<rparr>))) k"
  have k0: "cellk k0 = (cellk k)(t := Some (set_borrowed (c\<lparr>strong := strong c + 1\<rparr>)))" using c by (simp add: k0_def cellk_arc_set)
  let ?i = "(inner_of c)\<lparr>children := as @ bs\<rparr>"
  let ?d = "(set_inner ?i c)\<lparr>strong := strong c + 1\<rparr>"
  define k1 where "k1 ks st = (arc_set u None k0)\<lparr>PID_ALLOCATOR := pa, KERNEL_SPACE := ks, mm := st\<rparr>" for ks and st :: mm_state
  have drop: "Arc_drop u (k0\<lparr>mm := st0\<rparr>) =
      bind (KernelStack_drop (kernel_stack (arc_data d)) (KERNEL_SPACE k, st0)) (\<lambda>(ks, st).
      bind (MemorySet_drop st (memory_set (inner_of d))) (\<lambda>st. Inr (k1 ks st)))" for st0
    using Arc_drop_last [of "k0\<lparr>mm := st0\<rparr>" u d] k0 d p
    by (simp add: k1_def case_prod_beta) (simp add: k0_def)
  have rel: "bind (inner_release t ?i (k1 ks st)) (\<lambda>k. bind (Arc_drop t k) (\<lambda>k. Inr (Returns r k))) =
      Inr (Returns r (arc_set t (Some (set_inner ?i c)) (k1 ks st)))" for ks st and r :: isize
  proof -
    have ct: "cellk (k1 ks st) t = Some (set_borrowed (c\<lparr>strong := strong c + 1\<rparr>))" using k0 d by (simp add: k1_def cellk_arc_set)
    then have "cellk (arc_set t (Some ?d) (k1 ks st)) t = Some ?d" by (simp add: cellk_arc_set)
    with ct show ?thesis using c(3) Arc_drop_eq [of "arc_set t (Some ?d) (k1 ks st)" t ?d] by (simp add: inner_release_eq)
  qed
  show ?thesis
    unfolding k0_def [symmetric] take_child_eq [OF c(1) d(1-4) us, of ptr, folded k0_def] reap_memory_def drop
    by (intro exI [of _ "\<lambda>ks st. arc_set t (Some (set_inner ?i c)) (k1 ks st)"])
      (simp add: bind_assoc case_prod_beta rel cong: bind_cong)
qed

text \<open>
  C7: \<open>waitpid\<close>.  In a state in which the invariant of the process table holds it returns -1, and
  changes nothing, when no child has the pid asked for; it returns -2, and changes nothing, when there
  is such a child but none that has exited.  Otherwise the first such child that has exited is taken:
  the assertion that nothing else refers to it holds, its exit code is stored through the user's
  pointer, its kernel stack and address space are dropped, its pid is returned and is free again, and
  it is gone from the list of children and from the table.  The only panics are those of the user's
  pointer and of dropping the memory of the child.
\<close>

theorem waitpid_reaps:
  assumes "proc_inv k" and "cur k = Some t" and "cellk k t = Some c"
  shows "case zombies k pid c of
      [] \<Rightarrow> sys_waitpid pid ptr k = Inr (Returns (if matching k pid c = [] then - 1 else - 2) k)
    | u # _ \<Rightarrow>
        (case reap_memory c (kid k u) ptr k of
           Inl e \<Rightarrow> sys_waitpid pid ptr k = Inl e
         | Inr _ \<Rightarrow> \<exists>k'. sys_waitpid pid ptr k = Inr (Returns (getpid (arc_data (kid k u))) k') \<and> reaped t c u (kid k u) ptr k k')"
proof -
  let ?us = "children (inner_of c)" and ?Z = "\<lambda>u. task_status (inner_of (kid k u)) = Zombie \<and> wanted pid (kid k u)"
  from proc_inv_running [OF assms(1,2)] assms(3) have f: "family k t c" by (metis proc_inv_family assms(1) running_def option.inject)
  note eq = sys_waitpid_eq [OF f, of pid ptr] and none = waitpid_none [OF f]
  have m: "matching k pid c = [] \<longleftrightarrow> (\<forall>u \<in> set ?us. \<not> wanted pid (kid k u))" by (auto simp: matching_def filter_empty_conv)
  have z: "zombies k pid c = filter ?Z ?us"
    by (simp add: zombies_def matching_def is_zombie_def get_status_def conj_commute)
  show ?thesis
  proof (cases "zombies k pid c")
    case Nil
    then have "find (\<lambda>(_, u). ?Z u) (enumerate 0 ?us) = None"
      unfolding z find_enumerate_None_iff by (auto simp: filter_empty_conv)
    with Nil m eq none show ?thesis by simp
  next
    case (Cons u us)
    then obtain as bs where us: "?us = as @ u # bs" "\<forall>a \<in> set as. \<not> ?Z a" "?Z u" unfolding z by (auto simp: filter_eq_Cons_iff)
    obtain d where d: "cellk k u = Some d" "\<not> borrowed d" "strong d = 1" "u \<noteq> t" "children (inner_of d) = []"
      using f us by (auto simp: family_def)
    have pk: "pids_ok (cellk k) (PID_ALLOCATOR k)" using assms(1) by (auto simp: proc_inv_def)
    then have "pida_inv (PID_ALLOCATOR k)" "tcb_pid (arc_data d) \<in> pida_in_use (PID_ALLOCATOR k)" using d(1) by (auto simp: pids_ok_def)
    then obtain pa where pa: "PidHandle_drop (PID_ALLOCATOR k) (tcb_pid (arc_data d)) = Inr pa"
      using pida_dealloc_in_use(1) by (auto simp: PidHandle_drop_def)
    have ck: "cellk k t = Some c" "\<not> borrowed c" "1 \<le> strong c" using f by (auto simp: family_def running_def)
    from take_child_memory [OF ck d us(1) pa, of ptr] obtain k2
      where "sys_waitpid pid ptr k = bind (reap_memory c d ptr k) (\<lambda>(ks, st). Inr (Returns (getpid (arc_data d)) (k2 ks st)))"
      using us(3) find_enumerate_first [of ?Z u as 0 bs, OF us(3,2)] by (auto simp: eq us(1))
    moreover have "reaped t c u (kid k u) ptr k k'" if r: "sys_waitpid pid ptr k = Inr (Returns v k')" for v k'
    proof -
      obtain as' v' bs' where v: "?us = as' @ v' # bs'" "\<forall>a \<in> set as'. \<not> (wanted pid (kid k a) \<and> task_status (inner_of (kid k a)) = Zombie)"
        "wanted pid (kid k v')" "reaped t c v' (kid k v') ptr k k'"
        using sys_waitpid_cases [OF f r] us by auto
      have "filter ?Z as' = []" using v(2) by (auto simp: filter_empty_conv)
      then have "v' = u" using Cons v(3,4) unfolding z v(1) by (simp add: reaped_def)
      with v(4) show ?thesis by blast
    qed
    ultimately show ?thesis using Cons d(1) by (cases "reap_memory c d ptr k") auto
  qed
qed

lemma ex_reap_memory:
  assumes "translated_refmut (mm_mem st) (token pt) ptr = Inr a"
  shows "\<exists>x. reap_memory (ex_cell pt n 0 s None us 0) (ex_cell pt 1 2 Zombie (Some 0) [] 7) ptr (ex_kernel st pt (Some 0)) = Inr x"
proof -
  have "KernelStack_drop (KernelStack 2) (\<lparr>page_table = pt', areas = []\<rparr>, st') = Inr (\<lparr>page_table = pt', areas = []\<rparr>, st')" for pt' st'
    using kstack_drop_vpn [of 2] by (simp add: KernelStack_drop_def stack_pid_def remove_area_with_start_vpn_def case_prod_beta)
  then show ?thesis
    using assms by (simp add: reap_memory_def ex_cell_def ex_kernel_def ms_token_def token_def MemorySet_drop_def)
qed

theorem waitpid_reaps_witness:
  "\<exists>st pt k'. proc_inv (ex_kernel st pt (Some 0)) \<and>
     sys_waitpid (- 1) 0x5010 (ex_kernel st pt (Some 0)) = Inr (Returns 2 k') \<and>
     reaped 0 (ex_cell pt 2 0 Running None [1, 2] 0) 2 (ex_cell pt 1 2 Zombie (Some 0) [] 7) 0x5010 (ex_kernel st pt (Some 0)) k'"
proof -
  obtain pt st where pt: "pt_inv st pt"
    "\<And>a. unat a div 4096 = 5 \<Longrightarrow> user_pa (mm_mem st) (from_token (token pt)) a = Some (0x80500000 + take_bit 12 a)"
    using ex_user_table by blast
  from pt(2) [of "0x5010"] have "translated_refmut (mm_mem st) (token pt) 0x5010 = Inr 0x80500010"
    by (simp add: translated_refmut_def user_pa_unwrap pa_get_mut_def as_mut_unwrap_def)
  note r = ex_reap_memory [OF this, of 2 Running "[1, 2]"]
  let ?k = "ex_kernel st pt (Some 0)" and ?c = "ex_cell pt 2 0 Running None [1, 2] 0" and ?z = "ex_cell pt 1 2 Zombie (Some 0) [] 7"
  have inv: "proc_inv ?k" by (rule ex_kernel_inv) simp
  have kids: "kid ?k (Suc 0) = ex_cell pt 2 1 Ready (Some 0) [] 0" "kid ?k 2 = ?z" and c: "cellk ?k 0 = Some ?c"
    by (simp_all add: cellk_def ex_kernel_def)
  have "zombies ?k (- 1) ?c = [2]" by (simp add: zombies_def matching_def wanted_def kids is_zombie_def get_status_def)
  with waitpid_reaps [OF inv _ c, of "- 1" "0x5010"] r
  have "\<exists>k'. sys_waitpid (- 1) 0x5010 ?k = Inr (Returns 2 k') \<and> reaped 0 ?c 2 ?z 0x5010 ?k k'" by (auto simp: kids getpid_def)
  with inv show ?thesis by blast
qed

subsection \<open>Exiting\<close>

text \<open>
  C8: exiting.  A running task other than \<open>initproc\<close> exits, provided the frames of its segments
  can be given back: it becomes a zombie with its exit code and without children, to which only its
  parent refers; its children become, in order, the last children of \<open>initproc\<close>; every other task
  keeps its state; the hart goes to the idle loop, and the exited task is not in the queue.
\<close>

theorem exit_reparents:
  assumes "proc_inv k" and "cur k = Some t" and "cellk k t = Some c" and "INITPROC k = Some init" and "t \<noteq> init" and "cellk k init = Some i0"
    and "recycle_data_pages (memory_set (inner_of c), mm k) = Inr (ms, st)"
  shows "\<exists>k' z i. exit_current_and_run_next env code k = Some (Inr k') \<and> proc_inv k' \<and> cur k' = None \<and> cpu k' = idle_task_cx (PROCESSOR k) \<and>
    queue k' = queue k \<and> t \<notin> set (queue k') \<and> mm k' = st \<and>
    cellk k' t = Some z \<and> is_zombie (inner_of z) \<and> exit_code (inner_of z) = code \<and> children (inner_of z) = [] \<and> strong z = 1 \<and>
    parent (inner_of z) = parent (inner_of c) \<and> memory_set (inner_of z) = ms \<and>
    cellk k' init = Some i \<and> children (inner_of i) = children (inner_of i0) @ children (inner_of c) \<and>
    (\<forall>u \<in> set (children (inner_of c)). \<exists>d. cellk k u = Some d \<and> cellk k' u = Some (set_inner ((inner_of d)\<lparr>parent := Some init\<rparr>) d)) \<and>
    (\<forall>u. u \<noteq> t \<longrightarrow> u \<noteq> init \<longrightarrow> u \<notin> set (children (inner_of c)) \<longrightarrow> cellk k' u = cellk k u)"
proof -
  from proc_inv_running [OF assms(1,2)] obtain c' where "running k t c'" "strong c' = 2" "task_status (inner_of c') = Running" .
  then have c: "running k t c" "strong c = 2" using assms(3) by (auto simp: running_def)
  obtain k' where k': "exit_current_and_run_next env code k = Some (Inr k')" and ex: "exited t c init i0 code k k'"
    using exit_effect_inv [OF assms(1) c(1) assms(4,5,6), of env code] assms(7) by auto
  note inv = proc_inv_exit [OF assms(1,2) k']
  have cells: "cellk k' = exit_table (cellk k) t (zombie_cell c code ms) init
      (set_inner ((inner_of i0)\<lparr>children := children (inner_of i0) @ children (inner_of c)\<rparr>) i0)
      (\<lambda>d. set_inner ((inner_of d)\<lparr>parent := Some init\<rparr>) d) (children (inner_of c))"
    and st: "mm k' = st" "queue k' = queue k" "cpu k' = idle_task_cx (PROCESSOR k)"
    using ex assms(7) by (auto simp: exited_def)
  have fam: "u \<noteq> t \<and> u \<noteq> init \<and> (\<exists>d. cellk k u = Some d)" if "u \<in> set (children (inner_of c))" for u
    using proc_inv_family [OF assms(1) c(1)] assms(1,3,4) that table_inv_kids(1) by (fastforce simp: family_def proc_inv_def)
  have tab: "table_inv (cellk k) (length (arcs k)) (queue k) (cur k) init" using assms(1,4) by (auto simp: proc_inv_def)
  have "t \<in> {t. status (cellk k) t = Some Running}" using table_invD(10) [OF tab] assms(2) by auto
  then have "t \<notin> set (queue k)" using table_invD(9) [OF tab] by simp
  moreover define z i where "z = zombie_cell c code ms" and
    "i = set_inner ((inner_of i0)\<lparr>children := children (inner_of i0) @ children (inner_of c)\<rparr>) i0"
  have zi: "cellk k' t = Some z" "cellk k' init = Some i" using assms(5) by (simp_all add: cells exit_table_def z_def i_def)
  have "is_zombie (inner_of z)" "exit_code (inner_of z) = code" "children (inner_of z) = []" "strong z = 1"
    "parent (inner_of z) = parent (inner_of c)" "memory_set (inner_of z) = ms" "children (inner_of i) = children (inner_of i0) @ children (inner_of c)"
    using c(2) by (simp_all add: z_def i_def zombie_cell_def is_zombie_def get_status_def)
  moreover have "\<forall>u \<in> set (children (inner_of c)). \<exists>d. cellk k u = Some d \<and> cellk k' u = Some (set_inner ((inner_of d)\<lparr>parent := Some init\<rparr>) d)"
    using fam by (fastforce simp: cells exit_table_def)
  moreover have "\<forall>u. u \<noteq> t \<longrightarrow> u \<noteq> init \<longrightarrow> u \<notin> set (children (inner_of c)) \<longrightarrow> cellk k' u = cellk k u"
    by (simp add: cells exit_table_def)
  ultimately show ?thesis
    using k' inv(1,2) st zi by (intro exI [of _ k'] exI [of _ z] exI [of _ i]) (simp only: simp_thms)
qed

theorem exit_reparents_witness:
  "\<exists>k'. exit_current_and_run_next ex_env 5 (ex_kernel ex_mm ex_pt (Some 1)) = Some (Inr k') \<and>
     proc_inv k' \<and> cur k' = None \<and> queue k' = [0]"
proof -
  let ?k = "ex_kernel ex_mm ex_pt (Some 1)" and ?c = "ex_cell ex_pt 2 1 Running (Some 0) [] 0"
  have inv: "proc_inv ?k" by (rule ex_kernel_inv) simp
  have c: "cellk ?k 1 = Some ?c" "cellk ?k 0 = Some (ex_cell ex_pt 2 0 Ready None [1, 2] 0)" by (simp_all add: cellk_def ex_kernel_def)
  have "recycle_data_pages (memory_set (inner_of ?c), mm ?k) = Inr (\<lparr>page_table = ex_pt, areas = []\<rparr>, ex_mm)"
    by (simp add: recycle_data_pages_def ex_cell_def ex_kernel_def ex_pt_def)
  from exit_reparents [OF inv _ c(1) _ _ c(2) this, of ex_env 5] show ?thesis by auto
qed

text \<open>
  C38: \<open>initproc\<close> cannot exit.  The control block of the exiting task is borrowed while the code
  borrows that of \<open>initproc\<close> to hand the children over, so an exit of \<open>initproc\<close> itself panics: by a system
  call with any code, after an illegal instruction, and after any fault on an access, when the trap context can be reached.
\<close>

theorem exit_of_initproc_panics:
  assumes "proc_inv k" and "cur k = Some t" and "INITPROC k = Some t"
  shows "sys_exit env code k = Some (Inl AlreadyBorrowed) \<and> trap_handler env ans IllegalInstruction k = Some (Inl AlreadyBorrowed) \<and>
    (\<forall>cause \<in> {StoreFault, StorePageFault, InstructionFault, InstructionPageFault, LoadFault, LoadPageFault}. \<forall>cx k'.
       current_trap_cx k = Inr (cx, k') \<longrightarrow> trap_handler env ans cause k = Some (Inl AlreadyBorrowed))"
proof -
  let ?k = "set_kernel_trap_entry env k"
  have inv: "proc_inv ?k" "cur ?k = Some t" "INITPROC ?k = Some t"
    using assms by (auto simp: set_kernel_trap_entry_def intro: proc_inv_cong)
  note ex = exit_initproc [OF inv, of env]
  from proc_inv_running [OF assms(1,2)] obtain c where c: "running k t c" by metis
  then have "running ?k t c" by (simp add: running_def set_kernel_trap_entry_def cellk_def)
  note cx = current_trap_cx_eq [OF this] current_trap_cx_eq [OF c]
  have fault: "trap_handler env ans cause k = Some (Inl AlreadyBorrowed)"
    if f: "cause \<in> {StoreFault, StorePageFault, InstructionFault, InstructionPageFault, LoadFault, LoadPageFault}" "current_trap_cx k = Inr (cx, k')" for cause cx k'
  proof -
    obtain a where "get_trap_cx (inner_of c) = Inr a" using f(2) by (auto simp: cx(2) elim: bind_InrE)
    then have "current_trap_cx ?k = Inr (a, ?k)" by (simp add: cx(1))
    then show ?thesis using f(1) ex [of "- 2"] by (auto simp: trap_handler_def Let_def)
  qed
  have "sys_exit env code k = Some (Inl AlreadyBorrowed)" using exit_initproc [OF assms, of env code] by (simp add: sys_exit_def)
  moreover have "trap_handler env ans IllegalInstruction k = Some (Inl AlreadyBorrowed)" using ex [of "- 3"] by (simp add: trap_handler_def Let_def)
  ultimately show ?thesis using fault by blast
qed

theorem exit_of_initproc_panics_witness:
  "sys_exit ex_env 0 (ex_kernel ex_mm ex_pt (Some 0)) = Some (Inl AlreadyBorrowed)"
proof -
  have "proc_inv (ex_kernel ex_mm ex_pt (Some 0))" by (rule ex_kernel_inv) simp
  from exit_of_initproc_panics [OF this, of 0 ex_env 0] show ?thesis by simp
qed

end
