(* ===== verification/Task_Memory.thy ===== *)
theory Task_Memory
  imports Process_Laws
begin

text \<open>
  The memory of tasks: where the trap context of a task lies and what the operations on control
  blocks leave in it, with the frames they use.
\<close>

subsection \<open>Allocation only adds frames\<close>

text \<open>The state has grown from \<open>st0\<close>: frames were allocated, and memory changed in these only.\<close>

definition grown :: "mm_state \<Rightarrow> mm_state \<Rightarrow> bool" where
  "grown st0 st \<longleftrightarrow> in_use st0 \<subseteq> in_use st \<and> same_outside (in_use st - in_use st0) (mm_mem st0) (mm_mem st)"

lemma same_outside_chain: "same_outside P m m' \<Longrightarrow> same_outside Q m' m'' \<Longrightarrow> P \<subseteq> R \<Longrightarrow> Q \<subseteq> R \<Longrightarrow> same_outside R m m''"
  by (meson same_outside_mono same_outside_trans)

lemma grown_built:
  assumes "grown st0 st" and "built st st' ms"
  shows "grown st0 st'"
proof -
  have "same_outside (in_use st' - in_use st0) (mm_mem st0) (mm_mem st')"
    by (rule same_outside_chain [of "in_use st - in_use st0" _ "mm_mem st" "in_use st' - in_use st"])
      (use assms in \<open>auto simp: grown_def built_def\<close>)
  with assms show ?thesis by (auto simp: grown_def built_def)
qed

lemma grown_step:
  assumes "grown st0 st" and "space_step st ks st' ks'" and "ms_frames ks \<subseteq> in_use st - in_use st0"
  shows "grown st0 st'" and "ms_frames ks' \<subseteq> in_use st' - in_use st0"
proof -
  have "same_outside (in_use st' - in_use st0) (mm_mem st0) (mm_mem st')"
    by (rule same_outside_chain [of "in_use st - in_use st0" _ "mm_mem st" "ms_frames ks \<union> (in_use st' - in_use st)"])
      (use assms in \<open>auto simp: grown_def space_step_def\<close>)
  with assms show "grown st0 st'" "ms_frames ks' \<subseteq> in_use st' - in_use st0" by (auto simp: grown_def space_step_def)
qed

lemma grown_write:
  assumes "grown st0 st" and "same_outside {p} (mm_mem st) m" and "p \<in> in_use st - in_use st0"
  shows "grown st0 (st\<lparr>mm_mem := m\<rparr>)"
proof -
  have "same_outside (in_use st - in_use st0) (mm_mem st0) m"
    by (rule same_outside_chain [of "in_use st - in_use st0" _ "mm_mem st" "{p}"]) (use assms in \<open>auto simp: grown_def\<close>)
  with assms(1) show ?thesis by (simp add: grown_def)
qed

subsection \<open>Frames of other spaces\<close>

lemma kernel_ok_frame:
  assumes "kernel_ok syms st ks P" and "same_outside Q (mm_mem st) (mm_mem st')" and "Q \<inter> frames_of (page_table ks) = {}"
    and "mm_inv st'" and "ms_frames ks \<subseteq> in_use st'"
  shows "kernel_ok syms st' ks P"
proof -
  have "ms_inv st ks" using assms(1) by (simp add: kernel_ok_def)
  note ms_inv_frame [OF this assms(2-5)]
  with assms(1) show ?thesis by (simp add: kernel_ok_def)
qed

lemma kernel_ok_built:
  assumes "kernel_ok syms st ks P" and b: "built st st' ms"
  shows "kernel_ok syms st' ks P" and "ms_frames ks \<inter> ms_frames ms = {}" and "ms_frames ks \<subseteq> in_use st"
proof -
  have inv: "ms_inv st ks" using assms(1) by (simp add: kernel_ok_def)
  show "ms_frames ks \<subseteq> in_use st" using ms_invD(3) [OF inv] by auto
  show "ms_frames ks \<inter> ms_frames ms = {}" using built_other(3) [OF b inv] .
  show "kernel_ok syms st' ks P" using assms(1) built_other(1,2) [OF b inv] by (simp add: kernel_ok_def)
qed

text \<open>A user space is not touched by a step of another space.\<close>

lemma user_space_step:
  assumes us: "user_space st ms" and s: "space_step st ks st' ks'" and d: "ms_frames ks \<inter> ms_frames ms = {}" and "mm_inv st'"
  shows "user_space st' ms" and "ms_lookup st' ms v = ms_lookup st ms v" and "ms_frames ks' \<inter> ms_frames ms = {}"
    and "v \<in> set (ms_pages ms) \<Longrightarrow> page_content st' ms v = page_content st ms v"
proof -
  let ?Q = "ms_frames ks \<union> (in_use st' - in_use st)"
  have inv: "ms_inv st ms" and f: "\<forall>a \<in> set (areas ms). map_type a = Framed" using us by (auto simp: user_space_def)
  have sub: "ms_frames ms \<subseteq> in_use st" using ms_invD(3) [OF inv] by auto
  have out: "same_outside ?Q (mm_mem st) (mm_mem st')" and sub': "ms_frames ms \<subseteq> in_use st'"
    using s sub by (auto simp: space_step_def)
  have dis: "?Q \<inter> ms_frames ms = {}" using d sub by auto
  then have "?Q \<inter> frames_of (page_table ms) = {}" "?Q \<inter> ms_data ms = {}" by (auto simp: ms_frames_def)
  note fr = ms_inv_frame [OF inv out this(1) assms(4) sub'] and q = this(2)
  show "user_space st' ms" using us fr(1) by (simp add: user_space_def)
  show l: "ms_lookup st' ms v = ms_lookup st ms v" by (rule fr(2))
  show "ms_frames ks' \<inter> ms_frames ms = {}" using s dis by (auto simp: space_step_def)
  show "v \<in> set (ms_pages ms) \<Longrightarrow> page_content st' ms v = page_content st ms v"
    using page_content_keep [OF inv _ f l out q] .
qed

subsection \<open>The page of the trap context\<close>

lemma VirtPageNum_TRAP_CONTEXT: "VirtPageNum_from_va (VirtAddr_from TRAP_CONTEXT) = Inr trap_vpn"
proof -
  have b: "va_bits (VirtAddr_from TRAP_CONTEXT) = 0x7FFFFFE000" by (simp add: VirtAddr_from_bits)
  then have "va_floor (VirtAddr_from TRAP_CONTEXT) = trap_vpn"
    by (intro VirtPageNum_eqI) (simp only: unat_va_floor b trap_vpn_def VirtPageNum.sel, simp)
  moreover have "va_aligned (VirtAddr_from TRAP_CONTEXT)"
    unfolding va_aligned_def va_page_offset_take b by simp
  ultimately show ?thesis by (simp add: VirtPageNum_from_va_aligned)
qed

text \<open>A space with a page for the trap context, and the frame of that page.\<close>

definition trap_page :: "mm_state \<Rightarrow> MemorySet \<Rightarrow> PhysPageNum \<Rightarrow> bool" where
  "trap_page st ms p \<longleftrightarrow> trap_vpn \<in> set (ms_pages ms) \<and> map_option pte_ppn (ms_lookup st ms trap_vpn) = Some p"

lemma trap_page_frame:
  assumes "user_space st ms" and "trap_page st ms p"
  shows "p \<in> ms_data ms" and "ppn_ok p" and "page_content st ms trap_vpn = Some (page_bytes (mm_mem st) p)"
    and "find_trap_cx_ppn (mm_mem st) ms = Inr p"
proof -
  have inv: "ms_inv st ms" and f: "\<forall>a \<in> set (areas ms). map_type a = Framed" using assms(1) by (auto simp: user_space_def)
  have v: "trap_vpn \<in> set (ms_pages ms)" and l: "map_option pte_ppn (ms_lookup st ms trap_vpn) = Some p"
    using assms(2) by (auto simp: trap_page_def)
  from ms_page_entry [OF inv v f] obtain a where a: "ms_lookup st ms trap_vpn = Some (area_entry a trap_vpn)"
    "area_ppn a trap_vpn \<in> ms_data ms" "ppn_ok (area_ppn a trap_vpn)"
    "page_content st ms trap_vpn = Some (page_bytes (mm_mem st) (area_ppn a trap_vpn))" by metis
  have p: "area_ppn a trap_vpn = p" using l a(1,3) by (simp add: area_entry_def pte_ppn_new)
  show "p \<in> ms_data ms" "ppn_ok p" "page_content st ms trap_vpn = Some (page_bytes (mm_mem st) p)" using a(2-4) by (simp_all add: p)
  have "ms_translate (mm_mem st) ms trap_vpn = Some (area_entry a trap_vpn)"
    using translate_mapped [OF a(1)] by (simp add: ms_translate_def)
  then show "find_trap_cx_ppn (mm_mem st) ms = Inr p"
    unfolding find_trap_cx_ppn_def VirtPageNum_TRAP_CONTEXT using a(3) p by (simp add: area_entry_def pte_ppn_new)
qed

lemma trap_page_elf:
  assumes "elf_space syms elf st0 ms st"
  obtains p where "trap_page st ms p"
proof -
  obtain as stack trap where ar: "areas ms = as @ [stack, trap]" and h: "same_header trap_area trap"
    and l: "map_option pte_flags (ms_lookup st ms trap_vpn) = Some (MP_R OR MP_W OR PTE_V)"
    using assms by (auto simp: elf_space_def Let_def)
  have "set (area_pages trap) = pages 0x7fffffe 0x7ffffff"
    using h new_area_pages(2) [of "0x7fffffe" "0x7ffffff" Framed "MP_R OR MP_W"] by (simp add: same_header_def trap_area_def)
  then have "trap_vpn \<in> set (ms_pages ms)" by (simp add: ms_pages_def ar) (simp add: pages_def trap_vpn_def)
  with l that show ?thesis by (auto simp: trap_page_def)
qed

text \<open>Frame 0 is never handed out, so the page of a space can be reached through a pointer.\<close>

lemma ppn_get_mut_eq:
  assumes "ppn_ok p" and "p \<noteq> PhysPageNum 0"
  shows "ppn_get_mut p = Inr (page_base p)"
proof -
  have "unat (ppn_bits p) \<noteq> 0" using assms(2) by (metis PhysPageNum.collapse unat_eq_zero)
  then have "page_base p \<noteq> 0" using unat_page_base_ok [OF assms(1)] by auto
  then show ?thesis by (simp add: ppn_get_mut_def as_mut_unwrap_def page_base_def)
qed

lemma data_frame_nonzero:
  assumes "built st0 st ms" and "PhysPageNum 0 \<in> in_use st0" and "p \<in> ms_data ms"
  shows "p \<noteq> PhysPageNum 0"
  using assms by (auto simp: built_def ms_frames_def)

text \<open>Writing into a data frame of a space changes no mapping of any space that does not own it as a node.\<close>

lemma data_write:
  assumes "user_space st ms" and "p \<in> ms_data ms" and "same_outside {p} (mm_mem st) m"
  shows "user_space (st\<lparr>mm_mem := m\<rparr>) ms" and "ms_lookup (st\<lparr>mm_mem := m\<rparr>) ms v = ms_lookup st ms v"
proof -
  have inv: "ms_inv st ms" using assms(1) by (simp add: user_space_def)
  have "{p} \<inter> frames_of (page_table ms) = {}" using assms(2) inv by (auto simp: ms_inv_def)
  from ms_inv_frame [OF inv _ this, of "st\<lparr>mm_mem := m\<rparr>"] assms ms_invD(2,3) [OF inv]
  show "user_space (st\<lparr>mm_mem := m\<rparr>) ms" "ms_lookup (st\<lparr>mm_mem := m\<rparr>) ms v = ms_lookup st ms v"
    by (auto simp: user_space_def)
qed

lemma page_frame_data:
  assumes us: "user_space st ms" and v: "v \<in> set (ms_pages ms)" and p: "map_option pte_ppn (ms_lookup st ms v) = Some p"
  shows "p \<in> ms_data ms"
proof -
  have inv: "ms_inv st ms" and f: "\<forall>a \<in> set (areas ms). map_type a = Framed" using us by (auto simp: user_space_def)
  from ms_page_entry [OF inv v f] obtain a where a: "ms_lookup st ms v = Some (area_entry a v)" "area_ppn a v \<in> ms_data ms" "ppn_ok (area_ppn a v)"
    by metis
  then show ?thesis using p by (simp add: area_entry_def pte_ppn_new)
qed

text \<open>Each page of a user space has a frame of its own.\<close>

lemma pages_own_frames:
  assumes us: "user_space st ms" and v: "v \<in> set (ms_pages ms)" and w: "w \<in> set (ms_pages ms)"
    and eq: "map_option pte_ppn (ms_lookup st ms v) = map_option pte_ppn (ms_lookup st ms w)"
  shows "v = w"
proof -
  have inv: "ms_inv st ms" and f: "\<forall>a \<in> set (areas ms). map_type a = Framed" using us by (auto simp: user_space_def)
  let ?L = "concat (map (\<lambda>a. map (\<lambda>v. (v, area_ppn a v)) (area_pages a)) (areas ms))"
  have "map (area_ppn a) (area_pages a) = map ft_ppn (area_trackers a)" if "a \<in> set (areas ms)" for a
  proof -
    have ok: "area_ok st (page_table ms) a" using ms_invD(4) [OF inv that] .
    then have "distinct (area_pages a)" using range_items_ok(1) by (auto simp: area_ok_def)
    with ok f that show ?thesis by (intro area_ppn_trackers(1)) (auto simp: area_ok_def)
  qed
  then have "map snd ?L = map ft_ppn (ms_trackers ms)"
    by (simp add: ms_trackers_def map_concat comp_def cong: map_cong)
  moreover have "distinct (ms_trackers ms)" using inv by (simp add: ms_inv_def)
  then have "distinct (map ft_ppn (ms_trackers ms))" by (simp add: distinct_map inj_on_def ft_eq_iff)
  ultimately have inj: "inj_on snd (set ?L)" by (metis distinct_map)
  from ms_page_entry [OF inv v f] obtain a where a: "a \<in> set (areas ms)" "v \<in> set (area_pages a)"
    "ms_lookup st ms v = Some (area_entry a v)" "ppn_ok (area_ppn a v)" by metis
  from ms_page_entry [OF inv w f] obtain b where b: "b \<in> set (areas ms)" "w \<in> set (area_pages b)"
    "ms_lookup st ms w = Some (area_entry b w)" "ppn_ok (area_ppn b w)" by metis
  have "area_ppn a v = area_ppn b w" using eq a b by (simp add: area_entry_def pte_ppn_new)
  moreover have "(v, area_ppn a v) \<in> set ?L" "(w, area_ppn b w) \<in> set ?L" using a(1,2) b(1,2) by auto
  ultimately show ?thesis using inj_onD [OF inj, of "(v, area_ppn a v)" "(w, area_ppn b w)"] by simp
qed

subsection \<open>The memory of a task\<close>

text \<open>
  The kernel space with the stacks of the processes \<open>P\<close>, and a user space with a page for its trap context,
  in frames that the kernel space does not use.
\<close>

definition task_space :: "linker_symbols \<Rightarrow> mm_state \<Rightarrow> MemorySet \<Rightarrow> usize set \<Rightarrow> MemorySet \<Rightarrow> PhysPageNum \<Rightarrow> bool" where
  "task_space syms st ks P us ppn \<longleftrightarrow> kernel_ok syms st ks P \<and> user_space st us \<and> trap_page st us ppn \<and>
     trampoline_vpn \<notin> set (ms_pages us) \<and> ms_frames ks \<inter> ms_frames us = {} \<and> PhysPageNum 0 \<in> in_use st - ms_frames us"

lemma task_space_step:
  assumes t: "task_space syms st ks P us ppn" and s: "space_step st ks st' ks'" and k: "kernel_ok syms st' ks' P'"
  shows "task_space syms st' ks' P' us ppn" and "v \<in> set (ms_pages us) \<Longrightarrow> page_content st' us v = page_content st us v"
    and "ms_lookup st' us v = ms_lookup st us v"
proof -
  have us: "user_space st us" and d: "ms_frames ks \<inter> ms_frames us = {}" using t by (auto simp: task_space_def)
  have "mm_inv st'" using k ms_invD(2) by (auto simp: kernel_ok_def)
  note u = user_space_step [OF us s d this]
  show "task_space syms st' ks' P' us ppn" using t u(1-3) k s by (auto simp: task_space_def trap_page_def space_step_def)
  show "v \<in> set (ms_pages us) \<Longrightarrow> page_content st' us v = page_content st us v" by (rule u(4))
  show "ms_lookup st' us v = ms_lookup st us v" by (rule u(2))
qed

text \<open>Writing into a frame that is no node of a table.\<close>

lemma task_space_write:
  assumes t: "task_space syms st ks P us ppn" and out: "same_outside {p} (mm_mem st) m"
    and p: "p \<notin> ms_frames ks" "p \<notin> frames_of (page_table us)"
  shows "task_space syms (st\<lparr>mm_mem := m\<rparr>) ks P us ppn" and "ms_lookup (st\<lparr>mm_mem := m\<rparr>) us v = ms_lookup st us v"
    and "v \<in> set (ms_pages us) \<Longrightarrow> map_option pte_ppn (ms_lookup st us v) \<noteq> Some p \<Longrightarrow>
      page_content (st\<lparr>mm_mem := m\<rparr>) us v = page_content st us v"
proof -
  have k: "kernel_ok syms st ks P" and us: "user_space st us" using t by (auto simp: task_space_def)
  have ki: "ms_inv st ks" and ui: "ms_inv st us" and f: "\<forall>a \<in> set (areas us). map_type a = Framed"
    using k us by (auto simp: kernel_ok_def user_space_def)
  have mi: "mm_inv (st\<lparr>mm_mem := m\<rparr>)" using ms_invD(2) [OF ki] by simp
  have "kernel_ok syms (st\<lparr>mm_mem := m\<rparr>) ks P"
    using kernel_ok_frame [OF k, of "{p}" "st\<lparr>mm_mem := m\<rparr>"] out mi p(1) ms_invD(3) [OF ki] by (auto simp: ms_frames_def)
  moreover note fr = ms_inv_frame [OF ui, of "{p}" "st\<lparr>mm_mem := m\<rparr>"]
  have l: "ms_lookup (st\<lparr>mm_mem := m\<rparr>) us v = ms_lookup st us v" for v using fr(2) out mi p(2) ms_invD(3) [OF ui] by auto
  moreover have "ms_inv (st\<lparr>mm_mem := m\<rparr>) us" using fr(1) out mi p(2) ms_invD(3) [OF ui] by auto
  ultimately show "task_space syms (st\<lparr>mm_mem := m\<rparr>) ks P us ppn"
    using t by (auto simp: task_space_def trap_page_def user_space_def)
  show "ms_lookup (st\<lparr>mm_mem := m\<rparr>) us v = ms_lookup st us v" by (rule l)
  assume v: "v \<in> set (ms_pages us)" "map_option pte_ppn (ms_lookup st us v) \<noteq> Some p"
  from ms_page_entry [OF ui v(1) f] obtain a where a: "ms_lookup st us v = Some (area_entry a v)" "ppn_ok (area_ppn a v)" by metis
  then have "area_ppn a v \<noteq> p" using v(2) by (simp add: area_entry_def pte_ppn_new)
  then have "page_bytes m (area_ppn a v) = page_bytes (mm_mem st) (area_ppn a v)"
    using page_bytes_same_outside [OF out a(2)] by simp
  with a l [of v] show "page_content (st\<lparr>mm_mem := m\<rparr>) us v = page_content st us v" by (simp add: page_content_def area_entry_def pte_ppn_new)
qed

subsection \<open>New tasks\<close>

text \<open>The control block of a new task, and the trap context in its page.\<close>

definition new_task :: "kernel_env \<Rightarrow> usize \<Rightarrow> MemorySet \<Rightarrow> PhysPageNum \<Rightarrow> usize \<Rightarrow> TaskControlBlock" where
  "new_task env p ms ppn sp =
     \<lparr>tcb_pid = PidHandle p, kernel_stack = KernelStack p, tcb_inner = UPSafeCell_new
        \<lparr>trap_cx_ppn = ppn, base_size = sp, task_cx = goto_trap_return (env_trap_return env) (get_top (KernelStack p)),
         task_status = Ready, memory_set = ms, parent = None, children = [], exit_code = 0\<rparr>\<rparr>"

lemma TaskControlBlock_new_ok:
  assumes syms: "syms_ok (env_syms env)" and k: "kernel_ok (env_syms env) (mm k) (KERNEL_SPACE k) P"
    and e: "env_elf_new env data = Some elf" "elf_ok elf"
    and room: "20 + load_cost (loads elf (elf_ph_count elf)) \<le> frames_left (mm k)" and z: "PhysPageNum 0 \<in> in_use (mm k)"
    and p: "pid_alloc (PID_ALLOCATOR k) = (PidHandle p, pa)" "stack_pid p" "p \<notin> P"
    and g: "grown st0 (mm k)" "ms_frames (KERNEL_SPACE k) \<subseteq> in_use (mm k) - in_use st0"
  shows "\<exists>ms ppn sp ks st. TaskControlBlock_new env data k =
      Inr (new_task env p ms ppn sp, k\<lparr>mm := st, KERNEL_SPACE := ks, PID_ALLOCATOR := pa\<rparr>) \<and>
    task_space (env_syms env) st ks (insert p P) ms ppn \<and> copy_room ms \<le> 14 + load_cost (loads elf (elf_ph_count elf)) \<and>
    frames_left (mm k) \<le> frames_left st + 20 + load_cost (loads elf (elf_ph_count elf)) \<and>
    read_trap_cx (mm_mem st) (page_base ppn) = app_init_context (env_sstatus env) (elf_entry_point elf) sp (ms_token ks)
      (get_top (KernelStack p)) (env_trap_handler env) \<and>
    unat sp = (load_end (loads elf (elf_ph_count elf)) + 3) * 4096 \<and> grown st0 st \<and> ms_frames ks \<subseteq> in_use st - in_use st0"
proof -
  have kinv: "ms_inv (mm k) (KERNEL_SPACE k)" using k by (simp add: kernel_ok_def)
  have mi: "mm_inv (mm k)" using ms_invD(2) [OF kinv] by auto
  have st: "strampoline_ok (env_syms env)" using syms by (simp add: syms_ok_def)
  have "14 + load_cost (loads elf (elf_ph_count elf)) \<le> frames_left (mm k)" using room by simp
  from from_elf_Inr [where elf_new = "env_elf_new env", OF e st mi this] obtain ms sp st1 where
    f: "from_elf (env_elf_new env) (env_syms env) data (mm k) = Inr ((ms, sp, elf_entry_point elf), st1)" and sp: "elf_space (env_syms env) elf (mm k) ms st1"
    and usp: "unat sp = (load_end (loads elf (elf_ph_count elf)) + 3) * 4096"
    and left: "frames_left (mm k) \<le> frames_left st1 + 14 + load_cost (loads elf (elf_ph_count elf))" by blast
  have b: "built (mm k) st1 ms" and us: "user_space st1 ms" using sp by (auto simp: elf_space_def Let_def)
  from trap_page_elf [OF sp] obtain ppn where tp: "trap_page st1 ms ppn" .
  note fr = trap_page_frame [OF us tp]
  note ko = kernel_ok_built [OF k b]
  have "6 \<le> frames_left st1" using left room by simp
  from KernelStack_new_ok [OF syms ko(1) p(2,3) this] obtain ks st2 where
    n: "KernelStack_new (PidHandle p) (KERNEL_SPACE k, st1) = Inr (KernelStack p, ks, st2)" and k2: "kernel_ok (env_syms env) st2 ks (insert p P)"
    and s: "space_step st1 (KERNEL_SPACE k) st2 ks" and left2: "frames_left st1 \<le> frames_left st2 + 6" by blast
  note ec = elf_space_copy [OF e(2) sp]
  have own: "ppn \<in> ms_frames ms" "ms_frames ms = in_use st1 - in_use (mm k)" using fr(1) b by (auto simp: ms_frames_def built_def)
  have "task_space (env_syms env) st1 (KERNEL_SPACE k) P ms ppn"
    using ko us tp ec(3) z b by (auto simp: task_space_def built_def)
  note t2 = task_space_step(1) [OF this s k2]
  have nz: "ppn \<noteq> PhysPageNum 0" by (rule data_frame_nonzero [OF b z fr(1)])
  note gm = ppn_get_mut_eq [OF fr(2) nz]
  let ?cx = "app_init_context (env_sstatus env) (elf_entry_point elf) sp (ms_token ks) (get_top (KernelStack p)) (env_trap_handler env)"
  let ?m = "write_trap_cx (mm_mem st2) (page_base ppn) ?cx"
  have out: "same_outside {ppn} (mm_mem st2) ?m" by (rule same_outside_write_trap_cx [OF fr(2) app_init_context_ok])
  have "ms_inv st1 ms" using us by (simp add: user_space_def)
  then have "ppn \<notin> frames_of (page_table ms)" using fr(1) by (auto simp: ms_inv_def)
  moreover have "ppn \<notin> ms_frames ks" using t2 own(1) by (auto simp: task_space_def)
  ultimately have t3: "task_space (env_syms env) (st2\<lparr>mm_mem := ?m\<rparr>) ks (insert p P) ms ppn" using task_space_write(1) [OF t2 out] by blast
  have tcb: "TaskControlBlock_new env data k = Inr (new_task env p ms ppn sp, k\<lparr>mm := st2\<lparr>mm_mem := ?m\<rparr>, KERNEL_SPACE := ks, PID_ALLOCATOR := pa\<rparr>)"
    using f fr(4) p(1) n gm by (simp add: TaskControlBlock_new_def get_trap_cx_def new_task_def Let_def)
  have sub: "in_use st1 \<subseteq> in_use st2" using s by (simp add: space_step_def)
  have "in_use st0 \<subseteq> in_use (mm k)" "in_use (mm k) \<subseteq> in_use st1" using g(1) b by (auto simp: grown_def built_def)
  then have "ms_frames (KERNEL_SPACE k) \<subseteq> in_use st1 - in_use st0" using g(2) by auto
  note g2 = grown_step [OF grown_built [OF g(1) b] s this]
  have "ppn \<in> in_use st2 - in_use st0" using own sub g(1) by (auto simp: grown_def)
  note g3 = grown_write [OF g2(1) out this]
  have "frames_left (mm k) \<le> frames_left st2 + 20 + load_cost (loads elf (elf_ph_count elf))" using left left2 by simp
  with tcb t3 ec(2) g3 g2(2) usp read_write_trap_cx [OF fr(2) app_init_context_ok]
  show ?thesis by (intro exI [of _ ms] exI [of _ ppn] exI [of _ sp] exI [of _ ks] exI [of _ "st2\<lparr>mm_mem := ?m\<rparr>"]) simp
qed

end
