(* ===== verification/Boot.thy ===== *)
theory Boot
  imports Task_Memory
begin

text \<open>
  Start-up succeeds: from any memory that holds the kernel image and the table of applications,
  \<open>rust_main\<close> reaches the idle loop with \<open>initproc\<close> as the only task.
\<close>

subsection \<open>The table of applications is part of the kernel image\<close>

text \<open>Every memory that agrees with \<open>m\<close> below address \<open>lim\<close> holds the table.\<close>

definition image_below :: "nat \<Rightarrow> usize \<Rightarrow> usize \<Rightarrow> u8 list list \<Rightarrow> u8 list list \<Rightarrow> memory \<Rightarrow> bool" where
  "image_below lim num names ns ds m \<longleftrightarrow> (\<forall>m'. (\<forall>a. unat a < lim \<longrightarrow> m' a = m a) \<longrightarrow> app_image num names ns ds m')"

lemma image_below_grown:
  assumes "image_below lim num names ns ds (mm_mem st0)" and "grown st0 st"
    and "\<forall>p. unat (ppn_bits p) * 4096 < lim \<longrightarrow> p \<in> in_use st0"
  shows "app_image num names ns ds (mm_mem st)"
proof -
  have "mm_mem st a = mm_mem st0 a" if "unat a < lim" for a
  proof -
    have "p \<in> in_use st0" if "in_page p a" for p
    proof -
      have "unat (ppn_bits p) * 4096 \<le> unat a" using that unfolding in_page_def by (metis div_times_less_eq_dividend)
      then show ?thesis using assms(3) \<open>unat a < lim\<close> by simp
    qed
    then show ?thesis using assms(2) by (auto simp: grown_def same_outside_def)
  qed
  with assms(1) show ?thesis by (simp add: image_below_def)
qed

lemma list_apps_ok: "app_image num names ns ds m \<Longrightarrow> \<exists>s. list_apps num names m = Some (Inr s)"
  using APP_NAMES_ok(1) by (simp add: list_apps_def)

subsection \<open>The frame allocator and the kernel space\<close>

lemma ekernel_bounds:
  assumes "syms_ok syms"
  shows "unat (ekernel syms) mod 4096 = 0" and "unat (ekernel syms) \<le> 0x80800000" and "0x80000000 \<le> unat (ekernel syms)"
proof -
  let ?s = "(stext syms, etext syms, MP_R OR MP_X)" and ?e = "(ekernel syms, MEMORY_END, MP_R OR MP_W)"
  have in_segs: "?s \<in> set (kernel_segments syms)" "?e \<in> set (kernel_segments syms)" by (simp_all add: kernel_segments_def)
  then have ok: "seg_ok ?s" "seg_ok ?e" using assms by (auto simp: syms_ok_def)
  have "0x80000 \<le> seg_lo ?s" "seg_hi ?s \<le> seg_lo ?e" using assms by (auto simp: syms_ok_def kernel_segments_def)
  then have lo: "0x80000 \<le> unat (ekernel syms) div 4096" using ok(1) by (simp add: seg_ok_def seg_lo_def seg_hi_def)
  show m: "unat (ekernel syms) mod 4096 = 0" using ok(2) by (simp add: seg_ok_def)
  have "unat (ekernel syms) div 4096 \<le> 0x80800" using ok(2) by (simp add: seg_ok_def seg_lo_def)
  then show "unat (ekernel syms) \<le> 0x80800000" "0x80000000 \<le> unat (ekernel syms)"
    using lo m div_mult_mod_eq [of "unat (ekernel syms)" 4096] by linarith+
qed

lemma init_frames:
  assumes "syms_ok syms" and "FRAME_ALLOCATOR st = sfa_new"
  defines "st0 \<equiv> init_frame_allocator (ekernel syms) st"
  shows "mm_inv st0" and "frames_left st0 = 0x80800 - unat (ekernel syms) div 4096" and "mm_mem st0 = mm_mem st"
    and "unat (ppn_bits p) * 4096 < unat (ekernel syms) \<Longrightarrow> p \<in> in_use st0" and "PhysPageNum 0 \<in> in_use st0"
proof -
  note e = ekernel_bounds [OF assms(1)]
  have up: "(unat (ekernel syms) + 4095) div 4096 = unat (ekernel syms) div 4096"
  proof -
    obtain q where "unat (ekernel syms) = 4096 * q" using e(1) by (metis dvd_def mod_0_imp_dvd)
    then show ?thesis by simp
  qed
  have "ekernel syms \<le> MEMORY_END" using e(2) by (simp add: word_le_nat_alt)
  note i = init_frame_allocator_ok [OF assms(2) this, folded st0_def]
  show "mm_inv st0" "frames_left st0 = 0x80800 - unat (ekernel syms) div 4096" using i up by auto
  show "mm_mem st0 = mm_mem st" by (simp add: st0_def init_frame_allocator_def)
  have "unat (pa_bits (PhysAddr_from (ekernel syms))) = unat (ekernel syms)" using e(2) by (simp add: unat_take_bit)
  then have c: "unat (ppn_bits (pa_ceil (PhysAddr_from (ekernel syms)))) = unat (ekernel syms) div 4096"
    using e(2) up by (subst unat_pa_ceil) simp_all
  have use: "p \<in> in_use st0 \<longleftrightarrow> unat (ppn_bits p) < unat (ekernel syms) div 4096" for p
    by (simp add: st0_def init_frame_allocator_def sfa_init_def assms(2) sfa_new_def sfa_in_use_def word_less_nat_alt c)
  show "unat (ppn_bits p) * 4096 < unat (ekernel syms) \<Longrightarrow> p \<in> in_use st0"
    unfolding use using e(1) div_mult_mod_eq [of "unat (ekernel syms)" 4096] by linarith
  show "PhysPageNum 0 \<in> in_use st0" unfolding use using e(3) div_le_mono [of "0x80000000" "unat (ekernel syms)" 4096] by simp
qed

lemma mm_init_ok:
  assumes "syms_ok (env_syms env)" and "FRAME_ALLOCATOR st = sfa_new" and "31 \<le> 0x80800 - unat (ekernel (env_syms env)) div 4096"
  defines "st0 \<equiv> init_frame_allocator (ekernel (env_syms env)) st"
  shows "\<exists>ks st1. mm_init env st h = Inr (ks, st1, activate ks h) \<and> remap_test (env_syms env) ks (mm_mem st1) = Inr () \<and>
    kernel_ok (env_syms env) st1 ks {} \<and> grown st0 st1 \<and> ms_frames ks \<subseteq> in_use st1 - in_use st0 \<and> frames_left st0 \<le> frames_left st1 + 31"
proof -
  note i = init_frames [OF assms(1,2), folded st0_def]
  have left: "31 \<le> frames_left st0" using assms(3) i(2) by simp
  obtain ks st1 where k: "new_kernel (env_syms env) st0 = Inr (ks, st1)" and v: "kernel_view (env_syms env) st0 (kernel_segments (env_syms env)) ks st1"
    using new_kernel_view [OF assms(1) i(1) left] by blast
  have "built st0 st1 ks" "frames_left st0 \<le> frames_left st1 + 31"
    using v segments_blocks [OF assms(1)] by (auto simp: kernel_view_def)
  moreover have "grown st0 st0" by (simp add: grown_def)
  ultimately have "grown st0 st1" "ms_frames ks \<subseteq> in_use st1 - in_use st0" "frames_left st0 \<le> frames_left st1 + 31"
    using grown_built by (auto simp: built_def)
  with k remap_test_ok [OF assms(1) i(1) left k] kernel_ok_new_kernel [OF assms(1) v] show ?thesis
    by (simp add: mm_init_def st0_def)
qed

subsection \<open>The whole of \<open>rust_main\<close>\<close>

lemma rust_main_ok:
  assumes syms: "syms_ok (env_syms env)"
    and img: "image_below (unat (ekernel (env_syms env))) (env_num_app env) (env_app_names env) ns ds (clear_bss env m)"
    and app: "find (\<lambda>(n, d). from_utf8 n = Some (map of_char ''initproc'')) (zip ns ds) = Some (n, data)"
    and elf: "env_elf_new env data = Some elf" "elf_ok elf"
    and room: "51 + load_cost (loads elf (elf_ph_count elf)) \<le> 0x80800 - unat (ekernel (env_syms env)) div 4096"
  shows "\<exists>k c sp. rust_main env ans m h regs = Some (Inr k) \<and> machine_inv (InIdle k) \<and> queue k = [0] \<and> INITPROC k = Some 0 \<and>
    frames k 0 = ResumeTrapReturn \<and> arcs k = [Some c] \<and> arc_data c = new_task env 0 (memory_set (inner_of c)) (trap_cx_ppn (inner_of c)) sp \<and>
    task_space (env_syms env) (mm k) (KERNEL_SPACE k) {0} (memory_set (inner_of c)) (trap_cx_ppn (inner_of c)) \<and>
    read_trap_cx (mm_mem (mm k)) (page_base (trap_cx_ppn (inner_of c))) =
      app_init_context (env_sstatus env) (elf_entry_point elf) sp (ms_token (KERNEL_SPACE k)) (get_top (KernelStack 0)) (env_trap_handler env) \<and>
    unat sp = (load_end (loads elf (elf_ph_count elf)) + 3) * 4096 \<and> PID_ALLOCATOR k = \<lparr>pida_current = 1, pida_recycled = []\<rparr> \<and>
    copy_room (memory_set (inner_of c)) \<le> 14 + load_cost (loads elf (elf_ph_count elf)) \<and>
    0x80800 - unat (ekernel (env_syms env)) div 4096 \<le> frames_left (mm k) + 51 + load_cost (loads elf (elf_ph_count elf))"
proof -
  let ?st = "\<lparr>mm_mem = clear_bss env m, FRAME_ALLOCATOR = sfa_new\<rparr>"
  define st0 where "st0 = init_frame_allocator (ekernel (env_syms env)) ?st"
  have "FRAME_ALLOCATOR ?st = sfa_new" by simp
  note i = init_frames [OF syms this, folded st0_def]
  have "31 \<le> 0x80800 - unat (ekernel (env_syms env)) div 4096" using room by simp
  from mm_init_ok [OF syms \<open>FRAME_ALLOCATOR ?st = sfa_new\<close> this, of h, folded st0_def] obtain ks st1 where
    b: "mm_init env ?st h = Inr (ks, st1, activate ks h)" "remap_test (env_syms env) ks (mm_mem st1) = Inr ()" "kernel_ok (env_syms env) st1 ks {}"
      "grown st0 st1" "ms_frames ks \<subseteq> in_use st1 - in_use st0" "frames_left st0 \<le> frames_left st1 + 31" by blast
  define k0 where "k0 = \<lparr>mm = st1, KERNEL_SPACE = ks, PID_ALLOCATOR = pida_new, arcs = [], TASK_MANAGER = TaskManager_new,
      PROCESSOR = Processor_new, INITPROC = None, cpu = regs, frames = (\<lambda>_. ResumeTrapReturn), khart = activate ks h, stvec = 0,
      sie_stimer = False, timer = 0, console = []\<rparr>"
  have img': "app_image (env_num_app env) (env_app_names env) ns ds (mm_mem st)" if "grown st0 st" for st
  proof -
    have "mm_mem st0 = clear_bss env m" using i(3) by simp
    then show ?thesis using image_below_grown [of _ _ _ _ _ st0, OF _ that] img i(4) by auto
  qed
  have data: "get_app_data_by_name (env_num_app env) (env_app_names env) (map of_char ''initproc'') (mm_mem st1) = Some (Inr (Some data))"
    using get_app_data_by_name_eq [OF img' [OF b(4)]] app by simp
  have "20 + load_cost (loads elf (elf_ph_count elf)) \<le> frames_left st1" using room b(6) i(2) by linarith
  moreover have "PhysPageNum 0 \<in> in_use st1" using b(4) i(5) by (auto simp: grown_def)
  moreover have "pid_alloc pida_new = (PidHandle 0, \<lparr>pida_current = 1, pida_recycled = []\<rparr>)"
    by (simp add: pid_alloc_def pida_alloc_def pida_new_def vec_pop_def)
  moreover have "stack_pid 0" by (simp add: stack_pid_def)
  ultimately obtain ms ppn sp ks2 st2 where t: "TaskControlBlock_new env data k0 =
      Inr (new_task env 0 ms ppn sp, k0\<lparr>mm := st2, KERNEL_SPACE := ks2, PID_ALLOCATOR := \<lparr>pida_current = 1, pida_recycled = []\<rparr>\<rparr>)"
    and r: "task_space (env_syms env) st2 ks2 {0} ms ppn" "copy_room ms \<le> 14 + load_cost (loads elf (elf_ph_count elf))"
      "frames_left st1 \<le> frames_left st2 + 20 + load_cost (loads elf (elf_ph_count elf))"
      "read_trap_cx (mm_mem st2) (page_base ppn) = app_init_context (env_sstatus env) (elf_entry_point elf) sp (ms_token ks2)
        (get_top (KernelStack 0)) (env_trap_handler env)" "unat sp = (load_end (loads elf (elf_ph_count elf)) + 3) * 4096" "grown st0 st2"
    using TaskControlBlock_new_ok [of env k0 "{}" data elf 0 _ st0] syms elf b by (auto simp: k0_def)
  define c where "c = \<lparr>strong = 2, arc_data = new_task env 0 ms ppn sp\<rparr>"
  define k1 where "k1 = k0\<lparr>mm := st2, KERNEL_SPACE := ks2, PID_ALLOCATOR := \<lparr>pida_current = 1, pida_recycled = []\<rparr>, arcs := [Some c],
      frames := (\<lambda>_. ResumeTrapReturn), INITPROC := Some 0, TASK_MANAGER := \<lparr>ready_queue = [0]\<rparr>\<rparr>"
  have a: "add_initproc env k0 = Some (Inr k1)"
    using t data by (simp add: add_initproc_def INITPROC_deref_def k0_def Arc_new_def Arc_clone_def arc_get_def arc_set_def add_task_def
        tm_add_def TaskManager_new_def k1_def c_def fun_upd_idem numeral_2_eq_2)
  obtain s where s: "list_apps (env_num_app env) (env_app_names env) (mm_mem st2) = Some (Inr s)"
    using list_apps_ok [OF img' [OF r(6)]] by blast
  let ?k = "print s ((enable_timer_interrupt (trap_init env k1))\<lparr>timer := set_next_trigger (ans_time ans)\<rparr>)"
  have main: "rust_main env ans m h regs = Some (Inr ?k)"
    using b(1,2) a s by (simp add: rust_main_def Let_def k0_def [symmetric])
      (simp add: k1_def trap_init_def set_kernel_trap_entry_def enable_timer_interrupt_def)
  have f: "mm ?k = st2" "KERNEL_SPACE ?k = ks2" "queue ?k = [0]" "INITPROC ?k = Some 0" "arcs ?k = [Some c]" "frames ?k 0 = ResumeTrapReturn"
    "PID_ALLOCATOR ?k = \<lparr>pida_current = 1, pida_recycled = []\<rparr>"
    by (simp_all add: print_def trap_init_def set_kernel_trap_entry_def enable_timer_interrupt_def k1_def)
  have left: "0x80800 - unat (ekernel (env_syms env)) div 4096 \<le> frames_left st2 + 51 + load_cost (loads elf (elf_ph_count elf))"
    using i(2) b(6) r(3) by linarith
  have c: "memory_set (inner_of c) = ms" "trap_cx_ppn (inner_of c) = ppn" and cd: "arc_data c = new_task env 0 ms ppn sp"
    by (simp_all add: c_def new_task_def)
  show ?thesis
    by (intro exI [of _ ?k] exI [of _ c] exI [of _ sp] conjI; (rule main rust_main_inv [OF main])?; (simp only: f c)?; (rule r cd left)?)
qed

text \<open>A memory with the table of one application \<open>initproc\<close> in the data section: the table, four bytes of data, the name.\<close>

definition ex_boot_bytes :: "u8 list" where
  "ex_boot_bytes = le_bytes 8 (1 :: usize) @ le_bytes 8 (0x80214018 :: usize) @ le_bytes 8 (0x8021401C :: usize) @
     [0x7f, 0x45, 0x4c, 0x46] @ map of_char ''initproc'' @ [0]"

definition ex_boot :: memory where
  "ex_boot a = (if 0x80214000 \<le> unat a \<and> unat a < 0x80214025 then ex_boot_bytes ! (unat a - 0x80214000) else 0)"

lemma ex_boot_read:
  assumes "\<forall>a. unat a < 0x80400000 \<longrightarrow> m a = clear_bss ex_env ex_boot a"
  shows "read_bytes m 0x80214000 37 = ex_boot_bytes"
proof (rule nth_equalityI)
  have l: "length ex_boot_bytes = 37" by (simp add: ex_boot_bytes_def)
  then show "length (read_bytes m 0x80214000 37) = length ex_boot_bytes" by simp
  fix i
  assume "i < length (read_bytes m 0x80214000 37)"
  then have i: "i < 37" by simp
  have u: "unat (0x80214000 + of_nat i :: usize) = 0x80214000 + i" using i by (subst unat_add_less) simp_all
  let ?d = "0x80214000 + of_nat i - 0x80228000 :: usize"
  have "unat ?d = 2 ^ 64 + (0x80214000 + i) - 0x80228000"
    unfolding unat_sub_if' using i by (simp add: u)
  then have "\<not> unat ?d < unat (ebss ex_syms - 0x80228000)" using i by (simp add: ex_syms_def)
  then have "m (0x80214000 + of_nat i) = ex_boot (0x80214000 + of_nat i)"
    using assms u i by (simp add: clear_bss_def slice_fill_def ex_env_def)
  then show "read_bytes m 0x80214000 37 ! i = ex_boot_bytes ! i" using i u by (simp add: ex_boot_def)
qed

lemma append_5:
  assumes "as @ bs @ cs @ ds @ es = as' @ bs' @ cs' @ ds' @ es'"
    and "length as = length as'" and "length bs = length bs'" and "length cs = length cs'" and "length ds = length ds'"
  shows "as = as'" and "bs = bs'" and "cs = cs'" and "ds = ds'" and "es = es'"
  using assms by simp_all

lemma ex_boot_image:
  "image_below (unat (ekernel ex_syms)) 0x80214000 0x8021401C [map of_char ''initproc''] [[0x7f, 0x45, 0x4c, 0x46]] (clear_bss ex_env ex_boot)"
  unfolding image_below_def
proof (intro allI impI)
  fix m :: memory
  assume "\<forall>a. unat a < unat (ekernel ex_syms) \<longrightarrow> m a = clear_bss ex_env ex_boot a"
  then have "read_bytes m 0x80214000 37 = ex_boot_bytes" by (intro ex_boot_read) (simp add: ex_syms_def)
  moreover have "read_bytes m 0x80214000 37 =
      read_bytes m 0x80214000 8 @ read_bytes m 0x80214008 8 @ read_bytes m 0x80214010 8 @ read_bytes m 0x80214018 4 @ read_bytes m 0x8021401C 9"
    using read_bytes_append [of m "0x80214000" 8 29] read_bytes_append [of m "0x80214008" 8 21]
      read_bytes_append [of m "0x80214010" 8 13] read_bytes_append [of m "0x80214018" 4 9] by simp
  ultimately have "read_bytes m 0x80214000 8 @ read_bytes m 0x80214008 8 @ read_bytes m 0x80214010 8 @ read_bytes m 0x80214018 4 @ read_bytes m 0x8021401C 9 =
      le_bytes 8 (1 :: usize) @ le_bytes 8 (0x80214018 :: usize) @ le_bytes 8 (0x8021401C :: usize) @ [0x7f, 0x45, 0x4c, 0x46] @ (map of_char ''initproc'' @ [0])"
    by (simp only: ex_boot_bytes_def)
  note a = append_5 [OF this, unfolded length_read_bytes length_le_bytes, OF refl refl refl]
  have r: "read_bytes m 0x80214000 8 = le_bytes 8 (1 :: usize)" "read_bytes m 0x80214008 8 = le_bytes 8 (0x80214018 :: usize)"
    "read_bytes m 0x80214010 8 = le_bytes 8 (0x8021401C :: usize)" "read_bytes m 0x80214018 4 = [0x7f, 0x45, 0x4c, 0x46]"
    "read_bytes m 0x8021401C 9 = map of_char ''initproc'' @ [0]"
    by (rule a, simp)+
  from r(1-3) have u: "read_u64 m 0x80214000 = 1" "read_u64 m 0x80214008 = 0x80214018" "read_u64 m 0x80214010 = 0x8021401C"
    by (simp_all add: read_u64_def of_le_bytes_le_bytes)
  have n: "0 \<notin> set (map of_char ''initproc'' :: u8 list)" "from_utf8 (map of_char ''initproc'') \<noteq> None"
    by (simp_all add: from_utf8_ascii)
  have four: "Suc (Suc (Suc (Suc 0))) = 4" by simp
  show "app_image 0x80214000 0x8021401C [map of_char ''initproc''] [[0x7f, 0x45, 0x4c, 0x46]] m"
    using u r n by (simp add: app_image_def name_bytes_def four)
qed

lemma ex_env_simps:
  "env_syms ex_env = ex_syms" "env_num_app ex_env = 0x80214000" "env_app_names ex_env = 0x8021401C" "env_elf_new ex_env x = Some ex_elf"
  by (simp_all add: ex_env_def)

lemma ex_boot_find:
  "find (\<lambda>(n, d). from_utf8 n = Some (map of_char ''initproc'')) (zip [map of_char ''initproc''] [[0x7f, 0x45, 0x4c, 0x46]]) =
     Some (map of_char ''initproc'', [0x7f, 0x45, 0x4c, 0x46 :: u8])"
  by (simp add: from_utf8_ascii)

lemma ex_boot_room: "51 + load_cost (loads ex_elf (elf_ph_count ex_elf)) \<le> 0x80800 - unat (ekernel ex_syms) div 4096"
  using ex_elf_cost by (simp add: ex_syms_def)

lemmas ex_boot_ok = ex_syms_ok ex_boot_image ex_boot_find refl ex_elf_ok ex_boot_room

subsection \<open>Properties\<close>

text \<open>
  C10: start-up succeeds.  With the sections where the linker script puts them, the table of
  applications in the kernel image and not in the part that is cleared, an application \<open>initproc\<close>
  that is a well-formed ELF file, and enough memory for it, \<open>rust_main\<close> does not panic and reaches
  the idle loop.  The kernel space is in order with the stack of \<open>initproc\<close>, which has pid 0 and is the
  only task and ready to return to user mode; its trap context starts it at its entry point with a stack of its own.
\<close>

theorem boot_succeeds:
  assumes syms: "syms_ok (env_syms env)"
    and img: "image_below (unat (ekernel (env_syms env))) (env_num_app env) (env_app_names env) ns ds (clear_bss env m)"
    and app: "find (\<lambda>(n, d). from_utf8 n = Some (map of_char ''initproc'')) (zip ns ds) = Some (n, data)"
    and elf: "env_elf_new env data = Some elf" "elf_ok elf"
    and room: "51 + load_cost (loads elf (elf_ph_count elf)) \<le> 0x80800 - unat (ekernel (env_syms env)) div 4096"
  shows "\<exists>k c sp. rust_main env ans m h regs = Some (Inr k) \<and> machine_inv (InIdle k) \<and> queue k = [0] \<and> INITPROC k = Some 0 \<and>
    frames k 0 = ResumeTrapReturn \<and> arcs k = [Some c] \<and> arc_data c = new_task env 0 (memory_set (inner_of c)) (trap_cx_ppn (inner_of c)) sp \<and>
    task_space (env_syms env) (mm k) (KERNEL_SPACE k) {0} (memory_set (inner_of c)) (trap_cx_ppn (inner_of c)) \<and>
    read_trap_cx (mm_mem (mm k)) (page_base (trap_cx_ppn (inner_of c))) =
      app_init_context (env_sstatus env) (elf_entry_point elf) sp (ms_token (KERNEL_SPACE k)) (get_top (KernelStack 0)) (env_trap_handler env) \<and>
    unat sp = (load_end (loads elf (elf_ph_count elf)) + 3) * 4096"
  using rust_main_ok [OF assms, of ans h regs] by blast

theorem boot_succeeds_witness:
  "\<exists>k. rust_main ex_env \<lparr>ans_time = 0, ans_char = 0\<rparr> ex_boot \<lparr>hart_satp = 0, hart_tlb = (\<lambda>_. None)\<rparr> zero_init = Some (Inr k) \<and>
     machine_inv (InIdle k) \<and> queue k = [0]"
  using boot_succeeds [of ex_env, unfolded ex_env_simps, OF ex_boot_ok] by blast

end
