(* ===== verification/Schedule.thy ===== *)
theory Schedule
  imports Boot
begin

text \<open>
  Properties of all reachable states and of all runs of the machine: the process table is in order,
  every task descends from \<open>initproc\<close>, the idle loop always finds a task, tasks run in the order of
  the queue, and a task goes on with the registers it was suspended with.
\<close>

fun mstate :: "machine \<Rightarrow> kernel" where
  "mstate (InUser k) = k"
| "mstate (InIdle k) = k"

lemma machine_inv_proc: "machine_inv s \<Longrightarrow> proc_inv (mstate s)"
  by (cases s) auto

subsection \<open>A reachable state\<close>

lemma ex_reachable:
  obtains k where "reachable ex_env (InIdle k)" and "queue k = [0]" and "frames k 0 = ResumeTrapReturn"
proof -
  obtain k where "rust_main ex_env \<lparr>ans_time = 0, ans_char = 0\<rparr> ex_boot \<lparr>hart_satp = 0, hart_tlb = (\<lambda>_. None)\<rparr> zero_init = Some (Inr k)" "queue k = [0]" "frames k 0 = ResumeTrapReturn"
    using rust_main_ok [of ex_env, unfolded ex_env_simps, OF ex_boot_ok] by blast
  with that show ?thesis by (blast intro: reachable.boot)
qed

lemma ex_reachable_cell:
  assumes "reachable ex_env (InIdle k)" and "queue k = [0]"
  obtains c where "cellk k 0 = Some c"
proof -
  have "proc_inv k" using machine_inv_proc [OF reachable_inv [OF assms(1)]] by simp
  then obtain init where i: "table_inv (cellk k) (length (arcs k)) (queue k) (cur k) init" by (auto simp: proc_inv_def)
  have "0 \<in> set (queue k)" using assms(2) by simp
  then have "status (cellk k) 0 = Some Ready" unfolding table_invD(9) [OF i] by simp
  with that show ?thesis by (auto simp: status_def)
qed

subsection \<open>The process table\<close>

text \<open>
  C2: the process table of every reachable state.  For every live task: its control block is not
  borrowed; its reference count is the number of references to it, from the queue, the processor,
  \<open>INITPROC\<close> and the lists of children; it is in the queue, and only once, exactly when it is ready,
  and it is the current task exactly when it is running; when it has exited its parent holds the
  only reference and it has no children; no other live task has its pid, and its pid is in use.
\<close>

theorem reachable_process_table:
  assumes "reachable env s" and "cellk (mstate s) t = Some c"
  defines "k \<equiv> mstate s"
  shows "\<not> borrowed c \<and> (\<exists>init. INITPROC k = Some init \<and> cellk k init \<noteq> None \<and>
      strong c = strong_refs (cellk k) (length (arcs k)) (queue k) (cur k) init t) \<and>
    (t \<in> set (queue k) \<longleftrightarrow> task_status (inner_of c) = Ready) \<and> distinct (queue k) \<and> (cur k = Some t \<longleftrightarrow> task_status (inner_of c) = Running) \<and>
    (task_status (inner_of c) = Zombie \<longrightarrow> strong c = 1 \<and> children (inner_of c) = []) \<and>
    tcb_pid (arc_data c) \<in> pida_in_use (PID_ALLOCATOR k) \<and>
    (\<forall>u d. cellk k u = Some d \<longrightarrow> tcb_pid (arc_data d) = tcb_pid (arc_data c) \<longrightarrow> u = t)"
proof -
  have inv: "proc_inv k" using machine_inv_proc [OF reachable_inv [OF assms(1)]] by (simp add: k_def)
  then obtain init where i: "INITPROC k = Some init" "table_inv (cellk k) (length (arcs k)) (queue k) (cur k) init" "pids_ok (cellk k) (PID_ALLOCATOR k)"
    by (auto simp: proc_inv_def)
  have c: "cellk k t = Some c" using assms(2) by (simp add: k_def)
  have q: "t \<in> set (queue k) \<longleftrightarrow> task_status (inner_of c) = Ready" using table_invD(9) [OF i(2)] c by (simp add: status_def)
  have r: "cur k = Some t \<longleftrightarrow> task_status (inner_of c) = Running"
  proof -
    have "t \<in> set_option (cur k) \<longleftrightarrow> status (cellk k) t = Some Running" unfolding table_invD(10) [OF i(2)] by simp
    then show ?thesis using c by (simp add: status_def eq_commute)
  qed
  have z: "strong c = 1 \<and> children (inner_of c) = []" if "task_status (inner_of c) = Zombie"
    using table_invD(4,5) [OF i(2) c] that by simp
  have p: "tcb_pid (arc_data c) \<in> pida_in_use (PID_ALLOCATOR k)"
    "\<forall>u d. cellk k u = Some d \<longrightarrow> tcb_pid (arc_data d) = tcb_pid (arc_data c) \<longrightarrow> u = t"
    using i(3) c unfolding pids_ok_def by blast+
  show ?thesis
    using table_invD(1) [OF i(2)] table_invD(3) [OF i(2) c] table_invD(8) [OF i(2)] table_inv_strong [OF i(2) c] i(1) q r z p by blast
qed

theorem reachable_process_table_witness:
  "\<exists>k c. reachable ex_env (InIdle k) \<and> cellk k 0 = Some c \<and> task_status (inner_of c) = Ready \<and> \<not> borrowed c"
proof -
  from ex_reachable obtain k where k: "reachable ex_env (InIdle k)" "queue k = [0]" by metis
  from ex_reachable_cell [OF k] obtain c where c: "cellk k 0 = Some c" .
  then show ?thesis using reachable_process_table [OF k(1), of 0 c] k by auto
qed

subsection \<open>The tree of processes\<close>

definition parent_of :: "kernel \<Rightarrow> task_ref \<Rightarrow> task_ref option" where
  "parent_of k t = Option.bind (cellk k t) (\<lambda>c. parent (inner_of c))"

inductive ancestor :: "kernel \<Rightarrow> task_ref \<Rightarrow> task_ref \<Rightarrow> bool" for k where
  self: "cellk k t \<noteq> None \<Longrightarrow> ancestor k t t"
| up: "ancestor k a p \<Longrightarrow> parent_of k t = Some p \<Longrightarrow> ancestor k a t"

lemma kidlist_parent:
  assumes "u \<in> set (kidlist f n)"
  obtains t c where "f t = Some c" and "u \<in> set (children (inner_of c))"
proof -
  obtain t where "u \<in> set (kids (f t))" using assms by (auto simp: kidlist_def)
  with that show ?thesis by (cases "f t") (auto simp: kids_def)
qed

lemma live_parent:
  assumes inv: "table_inv (cellk k) n q cu init" and t: "cellk k t = Some c" "t \<noteq> init"
  obtains p d where "parent_of k t = Some p" and "cellk k p = Some d" and "t \<in> set (children (inner_of d))" and "p = init \<or> p < t"
proof -
  have "t \<in> set (kidlist (cellk k) n)" using table_invD(12) [OF inv] t by auto
  then obtain p d where p: "cellk k p = Some d" "t \<in> set (children (inner_of d))" by (rule kidlist_parent)
  with table_invD(7) [OF inv p] table_invD(13) [OF inv p] t(1) that show ?thesis by (auto simp: parent_of_def)
qed

lemma descends:
  assumes inv: "table_inv (cellk k) n q cu init" and "cellk k t = Some c"
  shows "ancestor k init t"
  using assms(2)
proof (induction t arbitrary: c rule: less_induct)
  case (less t)
  show ?case
  proof (cases "t = init")
    case True
    then show ?thesis using less.prems by (auto intro: ancestor.self)
  next
    case False
    from live_parent [OF inv less.prems False] obtain p d where p: "parent_of k t = Some p" "cellk k p = Some d" "p = init \<or> p < t" by metis
    have "ancestor k init p" using p(2,3) less.IH by (auto intro: ancestor.self)
    then show ?thesis using p(1) by (rule ancestor.up)
  qed
qed

text \<open>
  C11: no process is lost.  In every reachable state every live task other than \<open>initproc\<close> has a
  live parent that lists it among its children, so that it can be waited for, and following the
  parents leads from every live task to \<open>initproc\<close>, also after its parent has exited.
\<close>

theorem no_orphans:
  assumes "reachable env s" and "cellk (mstate s) t = Some c"
  shows "\<exists>init. INITPROC (mstate s) = Some init \<and> ancestor (mstate s) init t \<and>
    (t \<noteq> init \<longrightarrow> (\<exists>p d. parent (inner_of c) = Some p \<and> cellk (mstate s) p = Some d \<and> t \<in> set (children (inner_of d))))"
proof -
  obtain init where i: "INITPROC (mstate s) = Some init"
    "table_inv (cellk (mstate s)) (length (arcs (mstate s))) (queue (mstate s)) (cur (mstate s)) init"
    using machine_inv_proc [OF reachable_inv [OF assms(1)]] by (auto simp: proc_inv_def)
  have "\<exists>p d. parent (inner_of c) = Some p \<and> cellk (mstate s) p = Some d \<and> t \<in> set (children (inner_of d))" if "t \<noteq> init"
    using live_parent [OF i(2) assms(2) that] assms(2) by (metis parent_of_def Option.bind.bind_lunit)
  with i(1) descends [OF i(2) assms(2)] show ?thesis by blast
qed

theorem no_orphans_witness:
  "\<exists>k c. reachable ex_env (InIdle k) \<and> cellk k 0 = Some c \<and> (\<exists>init. INITPROC k = Some init \<and> ancestor k init 0)"
proof -
  from ex_reachable obtain k where k: "reachable ex_env (InIdle k)" "queue k = [0]" by metis
  from ex_reachable_cell [OF k] obtain c where c: "cellk k 0 = Some c" .
  with no_orphans [OF k(1), of 0 c] k(1) show ?thesis by auto
qed

subsection \<open>The idle loop\<close>

text \<open>
  C14: the idle loop never waits.  In every reachable state in which the hart is idle the queue is not
  empty, since \<open>initproc\<close> is ready; the next iteration of \<open>run_tasks\<close> does not panic, switches to the
  head of the queue and loads the registers saved for it.
\<close>

theorem idle_loop_runs_next:
  assumes "reachable env (InIdle k)"
  shows "\<exists>t k'. run_tasks_step k = Inr (Some t, k') \<and> queue k = t # queue k' \<and> cur k' = Some t \<and> proc_inv k' \<and>
    map_option fst (fst (saved k t)) = Some (cpu k')"
proof -
  have inv: "proc_inv k" "cur k = None" using reachable_inv [OF assms] by auto
  from proc_inv_init [OF inv(1)] obtain init i0 where i: "table_inv (cellk k) (length (arcs k)) (queue k) (cur k) init" "cellk k init = Some i0" .
  have "init \<notin> {t. status (cellk k) t = Some Running}" using table_invD(10) [OF i(1)] inv(2) by simp
  then have "status (cellk k) init = Some Ready" using table_invD(6) [OF i(1)] i(2)
    by (cases "task_status (inner_of i0)") (auto simp: status_def)
  then have "init \<in> set (queue k)" using table_invD(9) [OF i(1)] by simp
  then have "queue k \<noteq> []" by auto
  with proc_inv_run [OF inv] show ?thesis by (auto split: option.splits)
qed

theorem idle_loop_runs_next_witness:
  "\<exists>k t k'. reachable ex_env (InIdle k) \<and> queue k = [0] \<and> run_tasks_step k = Inr (Some t, k') \<and> cur k' = Some t"
proof -
  from ex_reachable obtain k where k: "reachable ex_env (InIdle k)" "queue k = [0]" by metis
  with idle_loop_runs_next [OF k(1)] show ?thesis by blast
qed

subsection \<open>The order of the tasks\<close>

text \<open>The task that the next step of the machine switches to.\<close>

fun next_task :: "machine \<Rightarrow> task_ref list" where
  "next_task (InUser k) = []"
| "next_task (InIdle k) = (case run_tasks_step k of Inr (Some t, _) \<Rightarrow> [t] | _ \<Rightarrow> [])"

inductive runs :: "kernel_env \<Rightarrow> machine \<Rightarrow> task_ref list \<Rightarrow> machine \<Rightarrow> bool" for env s where
  here: "runs env s [] s"
| more: "runs env s ts s' \<Longrightarrow> kstep env s' s'' \<Longrightarrow> runs env s (ts @ next_task s') s''"

lemma reachable_runs: "runs env s ts s' \<Longrightarrow> reachable env s \<Longrightarrow> reachable env s'"
  by (induction rule: runs.induct) (auto intro: reachable.step)

text \<open>
  One step: the task switched to leaves the queue at its head, the others keep their places, and what
  is saved for them does not change.
\<close>

lemma kstep_order:
  assumes "machine_inv s" and "kstep env s s'"
  shows "\<exists>q. queue (mstate s) = next_task s @ q \<and> prefix q (queue (mstate s')) \<and> (\<forall>u \<in> set q. saved (mstate s') u = saved (mstate s) u)"
proof -
  have keep: ?thesis if "next_task s = []" "keeps (mstate s) (mstate s')" using that by (auto simp: keeps_def)
  have go: ?thesis if "s = InIdle k" "run_tasks_step k = Inr (Some t, k1)" "resume_task env ans t k1 = Some (Inr out)"
    "out = ToUser e (mstate s') \<or> out = ToIdle (mstate s')" for k t k1 ans out e
  proof -
    have r: "proc_inv k1" "cur k1 = Some t" "queue k = t # queue k1" "\<forall>u. saved k1 u = saved k u"
      using assms(1) that(1,2) proc_inv_run [of k] by auto
    have "outcome_inv k1 out" using resume_outcome [OF r(1,2) that(3)] .
    then have "keeps k1 (mstate s')" using that(4) by auto
    with r(3,4) that(1,2) show ?thesis by (auto simp: keeps_def)
  qed
  from assms(2) show ?thesis
  proof cases
    case (user k regs m)
    then show ?thesis by (intro keep) (auto simp: keeps_def)
  next
    case (trap_user k ans cause e k')
    then have "keeps k k'" using assms(1) trap_handler_outcome by fastforce
    with trap_user show ?thesis by (intro keep) auto
  next
    case (trap_idle k ans cause k')
    then have "keeps k k'" using assms(1) trap_handler_outcome by fastforce
    with trap_idle show ?thesis by (intro keep) auto
  next
    case (wait k k')
    then show ?thesis using assms(1) proc_inv_run [of k] by (intro keep) auto
  next
    case (run k t k1 ans e k')
    then show ?thesis by (intro go) auto
  next
    case (run_idle k t k1 ans k')
    then show ?thesis by (intro go) auto
  qed
qed

lemma runs_order:
  assumes "runs env s ts s'" and "reachable env s"
  shows "\<exists>zs. queue (mstate s) @ zs = ts @ queue (mstate s')"
  using assms
proof (induction rule: runs.induct)
  case here
  then show ?case by simp
next
  case (more ts s' s'')
  then obtain zs where zs: "queue (mstate s) @ zs = ts @ queue (mstate s')" by blast
  have "machine_inv s'" using reachable_inv reachable_runs more by blast
  from kstep_order [OF this more(2)] obtain q ws where "queue (mstate s') = next_task s' @ q" "queue (mstate s'') = q @ ws"
    by (auto simp: prefix_def)
  with zs have "queue (mstate s) @ zs @ ws = (ts @ next_task s') @ queue (mstate s'')" by simp
  then show ?case by blast
qed

text \<open>
  C12: round robin.  In every run from a reachable state the tasks are switched to in the order of
  the queue: a task that has \<open>n\<close> tasks before it in the queue is the one that is switched to after \<open>n\<close>
  others, whatever the tasks do in between and however many new ones there are.
\<close>

theorem tasks_run_in_order:
  assumes "reachable env s" and "runs env s ts s'" and "queue (mstate s) = xs @ t # ys" and "length xs < length ts"
  shows "take (Suc (length xs)) ts = xs @ [t]"
proof -
  obtain zs where "(xs @ [t]) @ ys @ zs = ts @ queue (mstate s')" using runs_order [OF assms(2,1)] assms(3) by auto
  then have "take (Suc (length xs)) ((xs @ [t]) @ ys @ zs) = take (Suc (length xs)) (ts @ queue (mstate s'))" by simp
  then show ?thesis using assms(4) by simp
qed

lemma ex_runs:
  assumes k: "reachable ex_env (InIdle k)" "queue k = [0]" "frames k 0 = ResumeTrapReturn"
  obtains k' where "runs ex_env (InIdle k) [0] (InUser k')"
proof -
  have inv: "proc_inv k" "cur k = None" using reachable_inv [OF k(1)] by auto
  from proc_inv_run [OF inv] k(2) obtain k1 where k1: "run_tasks_step k = Inr (Some 0, k1)" "proc_inv k1" "cur k1 = Some 0" "\<forall>u. saved k1 u = saved k u"
    by (auto split: option.splits)
  have "frames k1 0 = ResumeTrapReturn" using k(3) k1(4) by (simp add: saved_def)
  moreover have "proc_inv (set_user_trap_entry k1)" using k1(2) by (rule proc_inv_cong) (simp_all add: set_user_trap_entry_def)
  from proc_inv_running [OF this] k1(3) obtain c where "running (set_user_trap_entry k1) 0 c" by (auto simp: set_user_trap_entry_def)
  from current_user_token_eq [OF this] obtain e k' where "trap_return ex_env k1 = Inr (ToUser e k')" by (simp add: trap_return_def)
  ultimately have "kstep ex_env (InIdle k) (InUser k')" using kstep.run [OF k1(1)] by (fastforce simp: resume_task_def)
  from runs.more [OF runs.here this] k1(1) that show ?thesis by simp
qed

theorem tasks_run_in_order_witness:
  "\<exists>k k'. reachable ex_env (InIdle k) \<and> queue k = [0] \<and> runs ex_env (InIdle k) [0] (InUser k') \<and> take (Suc 0) [0] = [0 :: task_ref]"
proof -
  from ex_reachable obtain k where k: "reachable ex_env (InIdle k)" "queue k = [0]" "frames k 0 = ResumeTrapReturn" .
  from ex_runs [OF this] obtain k' where r: "runs ex_env (InIdle k) [0] (InUser k')" .
  from tasks_run_in_order [OF k(1) r, of "[]" 0 "[]"] k r show ?thesis by auto
qed

lemma keep_saved:
  assumes "runs env s ts s'" and "reachable env s" and "u \<in> set (queue (mstate s))" and "u \<notin> set ts"
  shows "u \<in> set (queue (mstate s')) \<and> saved (mstate s') u = saved (mstate s) u"
  using assms
proof (induction rule: runs.induct)
  case here
  then show ?case by simp
next
  case (more ts s' s'')
  then have u: "u \<in> set (queue (mstate s'))" "saved (mstate s') u = saved (mstate s) u" "u \<notin> set (next_task s')" by auto
  have "machine_inv s'" using reachable_inv reachable_runs more by blast
  from kstep_order [OF this more(2)] obtain q where q: "queue (mstate s') = next_task s' @ q" "prefix q (queue (mstate s''))"
    "\<forall>u \<in> set q. saved (mstate s'') u = saved (mstate s') u" by blast
  with u have "u \<in> set q" by auto
  with q u(2) show ?case by (auto dest: set_mono_prefix)
qed

text \<open>
  The jump to user mode of a task with address space \<open>ms\<close>, when memory is \<open>m\<close>; and what a task does once it is
  switched to, from what was saved for it.  The result of \<open>yield\<close> and \<open>read\<close> goes to the word of \<open>x10\<close> in its own trap context.
\<close>

definition to_user :: "kernel_env \<Rightarrow> MemorySet \<Rightarrow> memory \<Rightarrow> kernel \<Rightarrow> outcome" where
  "to_user env ms m k =
     ToUser \<lparr>restore_va = env_restore env - env_alltraps env + TRAMPOLINE, trap_cx_ptr = TRAP_CONTEXT, user_satp = ms_token ms\<rparr>
       (k\<lparr>mm := (mm k)\<lparr>mm_mem := m\<rparr>, stvec := TRAMPOLINE\<rparr>)"

fun resumes_at :: "kernel_env \<Rightarrow> answers \<Rightarrow> task_ref \<Rightarrow> kernel \<Rightarrow> PhysPageNum \<Rightarrow> MemorySet \<Rightarrow> resume \<Rightarrow> bool" where
  "resumes_at env ans t k ppn ms (ResumeYield) \<longleftrightarrow>
     resume_task env ans t k = Some (bind (ppn_get_mut ppn) (\<lambda>cx. Inr (to_user env ms (write_u64 (mm_mem (mm k)) (cx_field cx 10) 0) k)))"
| "resumes_at env ans t k ppn ms (ResumeRead fd buf len) \<longleftrightarrow>
     (if ans_char ans = 0 then
        \<exists>k'. resume_task env ans t k = Some (Inr (ToIdle k')) \<and> saved k' t = saved k t \<and> queue k' = queue k @ [t] \<and> mm k' = mm k
      else
        \<forall>out. resume_task env ans t k = Some (Inr out) \<longrightarrow>
          (\<exists>b bs cx. translated_byte_buffer (mm_mem (mm k)) (ms_token ms) buf len = Some (Inr (b # bs)) \<and> ppn_get_mut ppn = Inr cx \<and>
             out = to_user env ms (write_u64 ((mm_mem (mm k))(slice_ptr b := ucast (ans_char ans))) (cx_field cx 10) 1) k))"
| "resumes_at env ans t k ppn ms _ \<longleftrightarrow> resume_task env ans t k = Some (Inr (to_user env ms (mm_mem (mm k)) k))"

lemma trap_return_to_user:
  assumes "running k t c"
  shows "trap_return env (k\<lparr>mm := (mm k)\<lparr>mm_mem := m\<rparr>\<rparr>) = Inr (to_user env (memory_set (inner_of c)) m k)"
proof -
  have "running (set_user_trap_entry (k\<lparr>mm := (mm k)\<lparr>mm_mem := m\<rparr>\<rparr>)) t c"
    using assms by (simp add: running_def set_user_trap_entry_def cellk_def)
  from current_user_token_eq [OF this] show ?thesis by (simp add: trap_return_def to_user_def get_user_token_def set_user_trap_entry_def)
qed

lemma finish_returns:
  assumes "running k t c"
  shows "finish_syscall env (Some (Inr (Returns v (k\<lparr>mm := (mm k)\<lparr>mm_mem := m\<rparr>\<rparr>)))) =
    Some (bind (ppn_get_mut (trap_cx_ppn (inner_of c))) (\<lambda>cx. Inr (to_user env (memory_set (inner_of c)) (write_u64 m (cx_field cx 10) v) k)))"
proof -
  have "running (k\<lparr>mm := (mm k)\<lparr>mm_mem := m\<rparr>\<rparr>) t c" using assms by (simp add: running_def cellk_def)
  from current_trap_cx_eq [OF this] show ?thesis
    by (cases "ppn_get_mut (trap_cx_ppn (inner_of c))") (simp_all add: finish_syscall_def get_trap_cx_def Let_def trap_return_to_user [OF assms])
qed

lemma resume_task_at:
  assumes c: "running k t c" and cpu: "task_cx (inner_of c) = cpu k"
  shows "resumes_at env ans t k (trap_cx_ppn (inner_of c)) (memory_set (inner_of c)) (frames k t)"
proof (cases "frames k t")
  case ResumeTrapReturn
  then show ?thesis using trap_return_to_user [OF c, of env "mm_mem (mm k)"] by (simp add: resume_task_def)
next
  case ResumeTimer
  then show ?thesis using trap_return_to_user [OF c, of env "mm_mem (mm k)"] by (simp add: resume_task_def)
next
  case ResumeYield
  then show ?thesis using finish_returns [OF c, of env 0 "mm_mem (mm k)"] by (simp add: resume_task_def)
next
  case (ResumeRead fd buf len)
  have ck: "cellk k t = Some c" using c by (simp add: running_def)
  show ?thesis
  proof (cases "ans_char ans = 0")
    case True
    have "\<exists>k'. resume_task env ans t k = Some (Inr (ToIdle k')) \<and> saved k' t = saved k t \<and> queue k' = queue k @ [t] \<and> mm k' = mm k"
      using suspend_eq [OF c, of "ResumeRead fd buf len"] True ResumeRead ck cpu
      by (simp add: resume_task_def read_loop_def finish_syscall_def saved_def cellk_arc_set tm_add_def)
    then show ?thesis using True ResumeRead by simp
  next
    case False
    have "\<exists>b bs cx. translated_byte_buffer (mm_mem (mm k)) (ms_token (memory_set (inner_of c))) buf len = Some (Inr (b # bs)) \<and> ppn_get_mut (trap_cx_ppn (inner_of c)) = Inr cx \<and>
        out = to_user env (memory_set (inner_of c)) (write_u64 ((mm_mem (mm k))(slice_ptr b := ucast (ans_char ans))) (cx_field cx 10) 1) k"
      if r: "resume_task env ans t k = Some (Inr out)" for out
    proof -
      have f: "finish_syscall env (read_loop (ans_char ans) fd buf len k) = Some (Inr out)" using r ResumeRead by (simp add: resume_task_def)
      then obtain fl where fl: "read_loop (ans_char ans) fd buf len k = Some (Inr fl)" unfolding finish_syscall_def obind_eq_Inr_iff by blast
      then obtain b bs where b: "translated_byte_buffer (mm_mem (mm k)) (ms_token (memory_set (inner_of c))) buf len = Some (Inr (b # bs))"
        "fl = Returns 1 (k\<lparr>mm := (mm k)\<lparr>mm_mem := (mm_mem (mm k))(slice_ptr b := ucast (ans_char ans))\<rparr>\<rparr>)"
        using False by (auto simp: read_loop_def current_user_token_eq [OF c] get_user_token_def obind_eq_Inr_iff Let_def neq_Nil_conv split: list.splits)
      with f fl finish_returns [OF c] show ?thesis by (auto elim!: bind_InrE)
    qed
    then show ?thesis using False ResumeRead by simp
  qed
qed

text \<open>
  C13: a task goes on where it was suspended.  From a reachable state on, as long as a ready task is
  not switched to, its saved registers, the handle of its address space, the page number of its trap context and the point in the kernel where it resumes
  stay as they are (the contents of memory are not part of this: user code may change its memory between traps).  When it is
  switched to, the hart has exactly the registers that were saved, and the task goes on from that point:
  after a timer interrupt, or at its start, it returns to user mode in its own address space and no memory is changed; after \<open>yield\<close> it does so with result 0 in
  its own trap context and no other memory changed; in \<open>read\<close> it waits again if there is no character, and else has stored the character through its own
  page table and the result 1 in its trap context.
\<close>

theorem switched_task_resumes:
  assumes "reachable env s" and "runs env s ts (InIdle k)" and "u \<in> set (queue (mstate s))" and "u \<notin> set ts"
    and "run_tasks_step k = Inr (Some u, k')"
  shows "saved k' u = saved (mstate s) u \<and>
    (\<exists>ppn ms r. saved (mstate s) u = (Some (cpu k', ppn, ms), r) \<and> (\<forall>ans. resumes_at env ans u k' ppn ms r))"
proof -
  have "saved k u = saved (mstate s) u" using keep_saved [OF assms(2,1,3,4)] by simp
  moreover have "machine_inv (InIdle k)" using reachable_inv [OF reachable_runs [OF assms(2,1)]] .
  ultimately have k': "saved k' u = saved (mstate s) u" "map_option fst (fst (saved (mstate s) u)) = Some (cpu k')" "proc_inv k'" "cur k' = Some u"
    using proc_inv_run [of k] assms(5) by auto
  from proc_inv_running [OF k'(3,4)] obtain c where c: "running k' u c" .
  then have sv: "saved k' u = (Some (task_cx (inner_of c), trap_cx_ppn (inner_of c), memory_set (inner_of c)), frames k' u)" by (simp add: saved_def running_def)
  then have cpu: "task_cx (inner_of c) = cpu k'" using k'(1,2) by simp
  with k'(1) sv resume_task_at [OF c cpu, of env] show ?thesis by (metis (no_types))
qed

theorem switched_task_resumes_witness:
  "\<exists>k k'. reachable ex_env (InIdle k) \<and> run_tasks_step k = Inr (Some 0, k') \<and> map_option fst (fst (saved k 0)) = Some (cpu k')"
proof -
  from ex_reachable obtain k where k: "reachable ex_env (InIdle k)" "queue k = [0]" by metis
  have "proc_inv k" "cur k = None" using reachable_inv [OF k(1)] by auto
  from proc_inv_run [OF this] k(2) obtain k' where r: "run_tasks_step k = Inr (Some 0, k')" by (auto split: option.splits)
  from switched_task_resumes [OF k(1) runs.here _ _ r] k r show ?thesis by auto
qed

text \<open>
  The task manager is a FIFO queue.  Whatever the order in which tasks are added and fetched, the tasks
  that were in the queue and those added since are, in this order, the tasks fetched and then those
  left in the queue: none is lost, made up or overtaken.
\<close>

lemma task_manager_fifo:
  "case queue_ops tm_add tm_fetch ops tm of (ts, tm') \<Rightarrow> ready_queue tm @ added ops = ts @ ready_queue tm'"
  by (rule ready.in_order)

end
