(* ===== verification/Fork.thy ===== *)
theory Fork
  imports Schedule
begin

text \<open>
  What \<open>fork\<close> does to memory: the child gets a copy of the address space of its parent, in frames of
  its own, and a trap context that differs in two words only.
\<close>

definition live_pids :: "kernel \<Rightarrow> usize set" where
  "live_pids k = ran (\<lambda>u. map_option (\<lambda>c. pid_num (tcb_pid (arc_data c))) (cellk k u))"

definition task_memory :: "kernel_env \<Rightarrow> kernel \<Rightarrow> ArcInner \<Rightarrow> bool" where
  "task_memory env k c \<longleftrightarrow>
     task_space (env_syms env) (mm k) (KERNEL_SPACE k) (live_pids k) (memory_set (inner_of c)) (trap_cx_ppn (inner_of c))"

definition task_trap_cx :: "kernel \<Rightarrow> ArcInner \<Rightarrow> TrapContext" where
  "task_trap_cx k c = read_trap_cx (mm_mem (mm k)) (page_base (trap_cx_ppn (inner_of c)))"

subsection \<open>Writing to a trap context\<close>

text \<open>Each page of a segment has a frame of its own, so a write to the trap context of a space changes no other page of it.\<close>

lemma trap_page_write:
  assumes t: "task_space syms st ks P ms p" and out: "same_outside {p} (mm_mem st) m"
  shows "task_space syms (st\<lparr>mm_mem := m\<rparr>) ks P ms p" and "ms_lookup (st\<lparr>mm_mem := m\<rparr>) ms v = ms_lookup st ms v"
    and "v \<in> set (ms_pages ms) - {trap_vpn} \<Longrightarrow> page_content (st\<lparr>mm_mem := m\<rparr>) ms v = page_content st ms v" and "p \<in> ms_frames ms"
proof -
  have us: "user_space st ms" "trap_page st ms p" using t by (auto simp: task_space_def)
  note fr = trap_page_frame [OF us]
  show "p \<in> ms_frames ms" using fr(1) by (simp add: ms_frames_def)
  then have "p \<notin> ms_frames ks" "p \<notin> frames_of (page_table ms)"
    using fr(1) us(1) t by (auto simp: task_space_def user_space_def ms_inv_def)
  note w = task_space_write [OF t out this]
  show "task_space syms (st\<lparr>mm_mem := m\<rparr>) ks P ms p" "ms_lookup (st\<lparr>mm_mem := m\<rparr>) ms v = ms_lookup st ms v" by (rule w)+
  assume v: "v \<in> set (ms_pages ms) - {trap_vpn}"
  show "page_content (st\<lparr>mm_mem := m\<rparr>) ms v = page_content st ms v"
  proof (rule w(3))
    show "map_option pte_ppn (ms_lookup st ms v) \<noteq> Some p"
      using pages_own_frames [OF us(1), of v trap_vpn] us(2) v by (auto simp: trap_page_def)
  qed (use v in simp)
qed

subsection \<open>The copy of the address space\<close>

lemma copied_trap_page:
  assumes us: "user_space st us" "trap_page st us q" and ms: "user_space st1 ms" and c: "copied syms st us (areas us) st1 ms"
  obtains p where "trap_page st1 ms p" and "read_trap_cx (mm_mem st1) (page_base p) = read_trap_cx (mm_mem st) (page_base q)"
proof -
  have v: "trap_vpn \<in> set (ms_pages us)" using us(2) by (simp add: trap_page_def)
  have "ms_pages ms = ms_pages us" using c list_all2_headers(1) by (auto simp: copied_def ms_pages_def)
  then have v': "trap_vpn \<in> set (ms_pages ms)" using v by simp
  have "vpn_ok trap_vpn" by (simp add: vpn_ok_def trap_vpn_def)
  then have cp: "page_content st1 ms trap_vpn = page_content st us trap_vpn" using c v by (auto simp: copied_def ms_pages_def)
  note q = trap_page_frame [OF us]
  from cp q(3) obtain e where "ms_lookup st1 ms trap_vpn = Some e" by (auto simp: page_content_def)
  then have tp: "trap_page st1 ms (pte_ppn e)" using v' by (simp add: trap_page_def)
  note p = trap_page_frame [OF ms tp]
  have "page_bytes (mm_mem st1) (pte_ppn e) = page_bytes (mm_mem st) q" using cp q(3) p(3) by simp
  from page_bytes_trap_cx [OF this p(2) q(2)] tp that show ?thesis by blast
qed

text \<open>The space of the parent and that of the child, after the copy and after the kernel stack is mapped.\<close>

definition fork_spaces ::
  "linker_symbols \<Rightarrow> mm_state \<Rightarrow> MemorySet \<Rightarrow> PhysPageNum \<Rightarrow> mm_state \<Rightarrow> MemorySet \<Rightarrow> usize set \<Rightarrow> MemorySet \<Rightarrow> PhysPageNum \<Rightarrow> bool" where
  "fork_spaces syms st us q st' ks P ms p \<longleftrightarrow> task_space syms st' ks P us q \<and> task_space syms st' ks P ms p \<and>
     ms_frames us \<inter> ms_frames ms = {} \<and> ms_pages ms = ms_pages us \<and>
     (\<forall>v \<in> set (ms_pages us). page_content st' us v = page_content st us v) \<and>
     (\<forall>v \<in> set (ms_pages us). map_option pte_flags (ms_lookup st' ms v) = map_option pte_flags (ms_lookup st us v)) \<and>
     (\<forall>v \<in> set (ms_pages us) - {trap_vpn}. page_content st' ms v = page_content st us v)"

lemma fork_spaces_copied:
  assumes t: "task_space syms st ks P us q" and syms: "syms_ok syms" and room: "copy_room us \<le> frames_left st"
  obtains ms st1 p where "from_existed_user syms us st = Inr (ms, st1)" and "fork_spaces syms st us q st1 ks P ms p"
    and "read_trap_cx (mm_mem st1) (page_base p) = read_trap_cx (mm_mem st) (page_base q)" and "frames_left st \<le> frames_left st1 + copy_room us"
proof -
  have k: "kernel_ok syms st ks P" and us: "user_space st us" and tp: "trap_page st us q" and tv: "trampoline_vpn \<notin> set (ms_pages us)"
    and d: "ms_frames ks \<inter> ms_frames us = {}" and z: "PhysPageNum 0 \<in> in_use st - ms_frames us" using t by (auto simp: task_space_def)
  have "strampoline_ok syms" using syms by (simp add: syms_ok_def)
  from from_existed_user_ok [OF us this tv room] obtain ms st1 where r: "from_existed_user syms us st = Inr (ms, st1)"
    and c: "copied syms st us (areas us) st1 ms" and s: "user_space st1 ms" "user_space st1 us" "ms_frames us \<inter> ms_frames ms = {}"
    and l: "\<forall>v. ms_lookup st1 us v = ms_lookup st us v" and pc: "\<forall>v \<in> set (ms_pages us). page_content st1 us v = page_content st us v"
    and left: "frames_left st \<le> frames_left st1 + copy_room us" by blast
  from copied_trap_page [OF us tp s(1) c] obtain p where p: "trap_page st1 ms p"
    and cx: "read_trap_cx (mm_mem st1) (page_base p) = read_trap_cx (mm_mem st) (page_base q)" .
  have b: "built st st1 ms" using c by (simp add: copied_def)
  note ko = kernel_ok_built [OF k b]
  have pg: "ms_pages ms = ms_pages us" using c list_all2_headers(1) by (auto simp: copied_def ms_pages_def)
  have ok: "vpn_ok v" if "v \<in> set (ms_pages us)" for v
    using ms_page_entry [of st us v] us that by (metis user_space_def)
  have cc: "map_option pte_flags (ms_lookup st1 ms v) = map_option pte_flags (ms_lookup st us v)" "page_content st1 ms v = page_content st us v"
    if "v \<in> set (ms_pages us)" for v
    using c ok [OF that] that by (simp_all add: copied_def ms_pages_def)
  have "task_space syms st1 ks P us q" using ko(1) s(2) tp l tv d z b by (auto simp: task_space_def trap_page_def built_def)
  moreover have "task_space syms st1 ks P ms p" using ko s(1) p tv pg z b by (auto simp: task_space_def built_def)
  ultimately have "fork_spaces syms st us q st1 ks P ms p" using s(3) pg pc cc by (simp add: fork_spaces_def)
  from that [OF r this cx left] show ?thesis .
qed

lemma fork_spaces_step:
  assumes f: "fork_spaces syms st us q st1 ks P ms p" and s: "space_step st1 ks st2 ks'" and k: "kernel_ok syms st2 ks' P'"
  shows "fork_spaces syms st us q st2 ks' P' ms p" and "read_trap_cx (mm_mem st2) (page_base p) = read_trap_cx (mm_mem st1) (page_base p)"
proof -
  have t: "task_space syms st1 ks P us q" "task_space syms st1 ks P ms p" and pg: "ms_pages ms = ms_pages us" using f by (auto simp: fork_spaces_def)
  note u = task_space_step [OF t(1) s k] and m = task_space_step [OF t(2) s k]
  show "fork_spaces syms st us q st2 ks' P' ms p" using f u m pg by (simp add: fork_spaces_def)
  have v: "trap_vpn \<in> set (ms_pages ms)" and us: "user_space st1 ms" "trap_page st1 ms p" using t(2) by (auto simp: task_space_def trap_page_def)
  have us2: "user_space st2 ms" "trap_page st2 ms p" using m(1) by (auto simp: task_space_def)
  have "page_bytes (mm_mem st2) p = page_bytes (mm_mem st1) p"
    using m(2) [OF v] trap_page_frame(3) [OF us] trap_page_frame(3) [OF us2] by simp
  then show "read_trap_cx (mm_mem st2) (page_base p) = read_trap_cx (mm_mem st1) (page_base p)"
    using trap_page_frame(2) [OF us] by (intro page_bytes_trap_cx)
qed

lemma fork_spaces_write:
  assumes f: "fork_spaces syms st us q st2 ks P ms p" and out: "same_outside {p} (mm_mem st2) m"
  shows "fork_spaces syms st us q (st2\<lparr>mm_mem := m\<rparr>) ks P ms p"
proof -
  let ?st = "st2\<lparr>mm_mem := m\<rparr>"
  have t: "task_space syms st2 ks P us q" "task_space syms st2 ks P ms p" and pg: "ms_pages ms = ms_pages us" and d: "ms_frames us \<inter> ms_frames ms = {}"
    using f by (auto simp: fork_spaces_def)
  have ui: "user_space st2 us" using t by (simp add: task_space_def)
  note m = trap_page_write [OF t(2) out]
  have n: "p \<notin> ms_frames ks" "p \<notin> ms_data us" "p \<notin> frames_of (page_table us)" using t(2) d m(4) by (auto simp: task_space_def ms_frames_def)
  note u = task_space_write [OF t(1) out n(1,3)]
  have "page_content ?st us v = page_content st2 us v" if "v \<in> set (ms_pages us)" for v
    using u(3) [OF that] page_frame_data [OF ui that] n(2) by auto
  then show ?thesis using f m(1-3) u(1,2) pg by (auto simp: fork_spaces_def)
qed

text \<open>The two words of the trap context that the child does not share with its parent.\<close>

definition set_child_cx :: "usize \<Rightarrow> usize \<Rightarrow> memory \<Rightarrow> memory" where
  "set_child_cx a sp m = write_u64 (write_u64 m (cx_field a 35) sp) (cx_field a 10) 0"

lemma set_child_cx_ok:
  assumes "ppn_ok p"
  shows "same_outside {p} m (set_child_cx (page_base p) sp m)"
    and "trap_words (read_trap_cx (set_child_cx (page_base p) sp m) (page_base p)) = (trap_words (read_trap_cx m (page_base p)))[35 := sp, 10 := 0]"
proof -
  have small: "(35 :: nat) < 37" "(10 :: nat) < 37" by simp_all
  note f = read_trap_cx_write_field [OF assms small(1), unfolded of_nat_numeral] read_trap_cx_write_field [OF assms small(2), unfolded of_nat_numeral]
  let ?m = "write_u64 m (cx_field (page_base p) 35) sp"
  have "same_outside {p} m ?m" "same_outside {p} ?m (set_child_cx (page_base p) sp m)"
    unfolding set_child_cx_def cx_field_slot by (rule same_outside_slot_write [OF assms], simp)+
  then show "same_outside {p} m (set_child_cx (page_base p) sp m)" by (rule same_outside_trans)
  show "trap_words (read_trap_cx (set_child_cx (page_base p) sp m) (page_base p)) = (trap_words (read_trap_cx m (page_base p)))[35 := sp, 10 := 0]"
    unfolding set_child_cx_def f ..
qed

text \<open>Everything \<open>sys_fork\<close> does to memory.\<close>

lemma fork_memory:
  assumes t: "task_space syms st ks P us q" and syms: "syms_ok syms" and room: "copy_room us + 6 \<le> frames_left st"
    and pid: "stack_pid n" "n \<notin> P"
  obtains ms st1 p ks2 st2 where "from_existed_user syms us st = Inr (ms, st1)" and "find_trap_cx_ppn (mm_mem st1) ms = Inr p"
    and "KernelStack_new (PidHandle n) (ks, st1) = Inr (KernelStack n, ks2, st2)" and "ppn_get_mut p = Inr (page_base p)"
    and "fork_spaces syms st us q (st2\<lparr>mm_mem := set_child_cx (page_base p) sp (mm_mem st2)\<rparr>) ks2 (insert n P) ms p"
    and "trap_words (read_trap_cx (set_child_cx (page_base p) sp (mm_mem st2)) (page_base p)) =
      (trap_words (read_trap_cx (mm_mem st) (page_base q)))[35 := sp, 10 := 0]"
proof -
  have "copy_room us \<le> frames_left st" using room by simp
  from fork_spaces_copied [OF t syms this] obtain ms st1 p where r: "from_existed_user syms us st = Inr (ms, st1)"
    and f1: "fork_spaces syms st us q st1 ks P ms p" and cx: "read_trap_cx (mm_mem st1) (page_base p) = read_trap_cx (mm_mem st) (page_base q)"
    and left: "frames_left st \<le> frames_left st1 + copy_room us" .
  have k1: "kernel_ok syms st1 ks P" and us: "user_space st1 ms" "trap_page st1 ms p" and z: "PhysPageNum 0 \<notin> ms_frames ms"
    using f1 by (auto simp: fork_spaces_def task_space_def)
  note fr = trap_page_frame [OF us]
  have "p \<noteq> PhysPageNum 0" using fr(1) z by (auto simp: ms_frames_def)
  note gm = ppn_get_mut_eq [OF fr(2) this]
  have "6 \<le> frames_left st1" using left room by simp
  from KernelStack_new_ok [OF syms k1 pid this] obtain ks2 st2 where n: "KernelStack_new (PidHandle n) (ks, st1) = Inr (KernelStack n, ks2, st2)"
    and k2: "kernel_ok syms st2 ks2 (insert n P)" and s: "space_step st1 ks st2 ks2" by blast
  note f2 = fork_spaces_step [OF f1 s k2]
  note sc = set_child_cx_ok [OF fr(2), where m = "mm_mem st2" and sp = sp]
  from that [OF r fr(4) n gm fork_spaces_write [OF f2(1) sc(1)] sc(2) [unfolded f2(2) cx]] show ?thesis .
qed

lemma running_cell:
  assumes "proc_inv k" and "cur k = Some t" and "cellk k t = Some c"
  shows "running k t c"
proof -
  from proc_inv_running [OF assms(1,2)] obtain c' where "running k t c'" by metis
  with assms(3) show ?thesis by (simp add: running_def)
qed

text \<open>A new pid is that of no task.\<close>

lemma fresh_pid:
  assumes "proc_inv k" and "pida_room (PID_ALLOCATOR k)" and "pid_alloc (PID_ALLOCATOR k) = (PidHandle n, pa)"
  shows "n \<notin> live_pids k"
proof -
  have "pids_ok (cellk k) (PID_ALLOCATOR k)" using assms(1) by (simp add: proc_inv_def)
  then have "pida_inv (PID_ALLOCATOR k)" and use: "pida_in_use (PID_ALLOCATOR k) = {tcb_pid (arc_data x) | x u. cellk k u = Some x}"
    by (simp_all add: pids_ok_def)
  from pida_alloc_ok(1) [OF this(1) assms(2), of "PidHandle n" pa] assms(3) have "PidHandle n \<notin> pida_in_use (PID_ALLOCATOR k)"
    by (simp add: pid_alloc_def)
  then have "pid_num (tcb_pid (arc_data x)) \<noteq> n" if "cellk k u = Some x" for u x
    unfolding use using that by (cases "tcb_pid (arc_data x)") auto
  then show ?thesis by (auto simp: live_pids_def ran_def)
qed

lemma live_pids_fork:
  assumes "cellk k t = Some c" and "cellk k u = None" and "tcb_pid (arc_data d) = tcb_pid (arc_data c)"
    and "cellk k' = (cellk k)(t := Some d, u := Some e)"
  shows "live_pids k' = insert (pid_num (tcb_pid (arc_data e))) (live_pids k)"
proof -
  let ?pids = "\<lambda>k u. map_option (\<lambda>c. pid_num (tcb_pid (arc_data c))) (cellk k u)"
  have "?pids k' = (?pids k)(u := Some (pid_num (tcb_pid (arc_data e))))" using assms by auto
  moreover have "?pids k u = None" using assms(2) by simp
  ultimately show ?thesis by (simp add: live_pids_def ran_map_upd)
qed

subsection \<open>A running task\<close>

text \<open>The state of the example after start-up, with \<open>initproc\<close> running.\<close>

lemma ex_running:
  obtains k c where "proc_inv k" and "cur k = Some 0" and "cellk k 0 = Some c" and "task_memory ex_env k c" and "tcb_pid (arc_data c) = PidHandle 0"
    and "PID_ALLOCATOR k = \<lparr>pida_current = 1, pida_recycled = []\<rparr>" and "copy_room (memory_set (inner_of c)) + 100 \<le> frames_left (mm k)"
    and "trap_cx_ok (task_trap_cx k c)"
proof -
  obtain k c sp where k: "machine_inv (InIdle k)" "queue k = [0]" "arcs k = [Some c]"
    and cd: "arc_data c = new_task ex_env 0 (memory_set (inner_of c)) (trap_cx_ppn (inner_of c)) sp"
    and m: "task_space ex_syms (mm k) (KERNEL_SPACE k) {0} (memory_set (inner_of c)) (trap_cx_ppn (inner_of c))"
    and pa: "PID_ALLOCATOR k = \<lparr>pida_current = 1, pida_recycled = []\<rparr>"
    and r: "copy_room (memory_set (inner_of c)) \<le> 14 + load_cost (loads ex_elf (elf_ph_count ex_elf))"
      "0x80800 - unat (ekernel ex_syms) div 4096 \<le> frames_left (mm k) + 51 + load_cost (loads ex_elf (elf_ph_count ex_elf))"
    and cx: "read_trap_cx (mm_mem (mm k)) (page_base (trap_cx_ppn (inner_of c))) =
      app_init_context (env_sstatus ex_env) (elf_entry_point ex_elf) sp (ms_token (KERNEL_SPACE k)) (get_top (KernelStack 0)) (env_trap_handler ex_env)"
    using rust_main_ok [of ex_env, unfolded ex_env_simps, OF ex_boot_ok] by blast
  have inv: "proc_inv k" "cur k = None" using k(1) by auto
  have c: "cellk k 0 = Some c" using k(3) by (simp add: cellk_def)
  from cd obtain ms ppn where "arc_data c = new_task ex_env 0 ms ppn sp" by blast
  then have nb: "\<not> borrowed c" "tcb_pid (arc_data c) = PidHandle 0" by (simp_all add: new_task_def)
  define d where "d = set_inner ((inner_of c)\<lparr>task_status := Running\<rparr>) c"
  define k1 where "k1 = (arc_set 0 (Some d) k)\<lparr>TASK_MANAGER := (TASK_MANAGER k)\<lparr>ready_queue := []\<rparr>,
    PROCESSOR := (PROCESSOR k)\<lparr>current := Some 0, idle_task_cx := cpu k\<rparr>, cpu := task_cx (inner_of c)\<rparr>"
  have "run_tasks_step k = Inr (Some 0, k1)" unfolding k1_def d_def by (rule run_tasks_step_Cons [OF k(2) c nb(1) inv(2)])
  with proc_inv_run [OF inv] have p: "proc_inv k1" "cur k1 = Some 0" by auto
  have cells: "cellk k1 = (cellk k)(0 := Some d)" using c by (simp add: k1_def cellk_arc_set)
  have same: "mm k1 = mm k" "KERNEL_SPACE k1 = KERNEL_SPACE k" "PID_ALLOCATOR k1 = PID_ALLOCATOR k" by (simp_all add: k1_def)
  have d: "memory_set (inner_of d) = memory_set (inner_of c)" "trap_cx_ppn (inner_of d) = trap_cx_ppn (inner_of c)" "tcb_pid (arc_data d) = PidHandle 0"
    using nb(2) by (simp_all add: d_def)
  have "(\<lambda>u. map_option (\<lambda>c. pid_num (tcb_pid (arc_data c))) (cellk k1 u)) = [0 \<mapsto> 0]"
    unfolding cells using k(3) d(3) by (auto simp: cellk_def)
  then have "live_pids k1 = {0}" by (simp add: live_pids_def)
  then have mem: "task_memory ex_env k1 d" using m by (simp add: task_memory_def same d ex_env_simps)
  have "copy_room (memory_set (inner_of d)) + 100 \<le> frames_left (mm k1)" using r ex_elf_cost by (simp add: same d ex_syms_def)
  moreover have "trap_cx_ok (task_trap_cx k1 d)" by (simp add: task_trap_cx_def same d cx app_init_context_ok)
  ultimately show ?thesis using that [OF p _ mem d(3)] cells pa same by simp
qed

subsection \<open>Properties\<close>

text \<open>
  C3: \<open>fork\<close> makes a copy of the calling process.  From a state in order, and with enough frames for the copy
  and for a kernel stack, the call returns the new pid \<open>n\<close> in the parent, and there is a new task
  at the end of the ready queue, a child of the caller, that goes to user mode when it is run.  Its
  space has the same pages with the same flags and contents in frames of its own; its trap context is
  that of the parent with 0 in \<open>x10\<close>, so that the call returns 0 in the child, and its own kernel stack.
  The parent keeps its pages and their contents.
\<close>

theorem fork_duplicates:
  assumes inv: "proc_inv k" and cur: "cur k = Some t" and c: "cellk k t = Some c" and mem: "task_memory env k c"
    and syms: "syms_ok (env_syms env)" and pid: "pid_alloc (PID_ALLOCATOR k) = (PidHandle n, pa)" "pida_room (PID_ALLOCATOR k)" "stack_pid n"
    and room: "copy_room (memory_set (inner_of c)) + 6 \<le> frames_left (mm k)"
  defines "u \<equiv> length (arcs k)" and "d \<equiv> set_inner ((inner_of c)\<lparr>children := children (inner_of c) @ [length (arcs k)]\<rparr>) c"
  shows "\<exists>k' e. sys_fork env k = Inr (Returns n k') \<and> queue k' = queue k @ [u] \<and> cellk k' = (cellk k)(t := Some d, u := Some e) \<and>
    tcb_pid (arc_data e) = PidHandle n \<and> task_status (inner_of e) = Ready \<and> parent (inner_of e) = Some t \<and> children (inner_of e) = [] \<and>
    task_cx (inner_of e) = goto_trap_return (env_trap_return env) (get_top (KernelStack n)) \<and> frames k' u = ResumeTrapReturn \<and>
    task_memory env k' d \<and> task_memory env k' e \<and>
    fork_spaces (env_syms env) (mm k) (memory_set (inner_of c)) (trap_cx_ppn (inner_of c))
      (mm k') (KERNEL_SPACE k') (live_pids k') (memory_set (inner_of e)) (trap_cx_ppn (inner_of e)) \<and>
    trap_words (task_trap_cx k' e) = (trap_words (task_trap_cx k c))[35 := get_top (KernelStack n), 10 := 0]"
proof -
  let ?us = "memory_set (inner_of c)" and ?q = "trap_cx_ppn (inner_of c)"
  note run = running_cell [OF inv cur c] and new = fresh_pid [OF inv pid(2,1)]
  from fork_memory [OF mem [unfolded task_memory_def] syms room pid(3) new, of "get_top (KernelStack n)"] obtain ms st1 p ks2 st2
    where f: "from_existed_user (env_syms env) ?us (mm k) = Inr (ms, st1)" "find_trap_cx_ppn (mm_mem st1) ms = Inr p"
      "KernelStack_new (PidHandle n) (KERNEL_SPACE k, st1) = Inr (KernelStack n, ks2, st2)" "ppn_get_mut p = Inr (page_base p)"
    and sp: "fork_spaces (env_syms env) (mm k) ?us ?q (st2\<lparr>mm_mem := set_child_cx (page_base p) (get_top (KernelStack n)) (mm_mem st2)\<rparr>)
        ks2 (insert n (live_pids k)) ms p"
    and tw: "trap_words (read_trap_cx (set_child_cx (page_base p) (get_top (KernelStack n)) (mm_mem st2)) (page_base p)) =
        (trap_words (read_trap_cx (mm_mem (mm k)) (page_base ?q)))[35 := get_top (KernelStack n), 10 := 0]" .
  from sys_fork_ok [OF run pid(1) f(1,2) _ f(4), unfolded PidHandle.sel set_child_cx_def [symmetric], OF f(3), folded u_def] obtain k'
    where r: "sys_fork env k = Inr (Returns n k')" and fk: "forked env t c k u k' (PidHandle n) ms p st1 st2 (page_base p)"
      and mm: "mm k' = st2\<lparr>mm_mem := set_child_cx (page_base p) (get_top (KernelStack n)) (mm_mem st2)\<rparr>"
      and tm: "TASK_MANAGER k' = tm_add u (TASK_MANAGER k)" .
  let ?e = "child_cell env (PidHandle n) t (inner_of c) ms p 2"
  have cells: "cellk k' = (cellk k)(t := Some d, u := Some ?e)" and fr: "frames k' u = ResumeTrapReturn" and ks: "KERNEL_SPACE k' = ks2"
    using fk f(3) by (auto simp: forked_def d_def u_def)
  have e: "memory_set (inner_of ?e) = ms" "trap_cx_ppn (inner_of ?e) = p" "tcb_pid (arc_data ?e) = PidHandle n" "task_status (inner_of ?e) = Ready"
    "parent (inner_of ?e) = Some t" "children (inner_of ?e) = []" "task_cx (inner_of ?e) = goto_trap_return (env_trap_return env) (get_top (KernelStack n))"
    by (simp_all add: child_cell_def)
  have d: "memory_set (inner_of d) = ?us" "trap_cx_ppn (inner_of d) = ?q" by (simp_all add: d_def)
  have "cellk k u = None" by (simp add: cellk_def u_def)
  then have live: "live_pids k' = insert n (live_pids k)" using live_pids_fork [OF c _ _ cells] e(3) by (simp add: d_def)
  have mem': "mm_mem (mm k') = set_child_cx (page_base p) (get_top (KernelStack n)) (mm_mem st2)" using mm by simp
  have sp': "fork_spaces (env_syms env) (mm k) ?us ?q (mm k') (KERNEL_SPACE k') (live_pids k') (memory_set (inner_of ?e)) (trap_cx_ppn (inner_of ?e))"
    unfolding e live ks mm by (rule sp)
  then have tm': "task_memory env k' d" "task_memory env k' ?e" unfolding task_memory_def fork_spaces_def d by blast+
  have tw': "trap_words (task_trap_cx k' ?e) = (trap_words (task_trap_cx k c))[35 := get_top (KernelStack n), 10 := 0]"
    unfolding task_trap_cx_def e mem' by (rule tw)
  have q: "queue k' = queue k @ [u]" using tm by (simp add: tm_add_def)
  show ?thesis by (intro exI [of _ k'] exI [of _ ?e] conjI; rule r q cells e fr tm' sp' tw')
qed

theorem fork_duplicates_witness:
  "\<exists>k k' c e. proc_inv k \<and> cur k = Some 0 \<and> cellk k 0 = Some c \<and> sys_fork ex_env k = Inr (Returns 1 k') \<and>
     cellk k' (length (arcs k)) = Some e \<and> task_memory ex_env k' e \<and>
     trap_words (task_trap_cx k' e) = (trap_words (task_trap_cx k c))[35 := get_top (KernelStack 1), 10 := 0]"
proof -
  from ex_running obtain k c where k: "proc_inv k" "cur k = Some 0" "cellk k 0 = Some c" "task_memory ex_env k c"
    "PID_ALLOCATOR k = \<lparr>pida_current = 1, pida_recycled = []\<rparr>" "copy_room (memory_set (inner_of c)) + 100 \<le> frames_left (mm k)" by metis
  have pid: "pid_alloc (PID_ALLOCATOR k) = (PidHandle 1, \<lparr>pida_current = 2, pida_recycled = []\<rparr>)" "pida_room (PID_ALLOCATOR k)" "stack_pid 1"
    by (simp_all add: k(5) pid_alloc_def pida_alloc_def vec_pop_def pida_room_def stack_pid_def)
  have s: "syms_ok (env_syms ex_env)" by (simp add: ex_env_simps ex_syms_ok)
  have "copy_room (memory_set (inner_of c)) + 6 \<le> frames_left (mm k)" using k(6) by simp
  from fork_duplicates [OF k(1-4) s pid this] obtain k' e where "sys_fork ex_env k = Inr (Returns 1 k')"
    "cellk k' = (cellk k)(0 := Some (set_inner ((inner_of c)\<lparr>children := children (inner_of c) @ [length (arcs k)]\<rparr>) c), length (arcs k) := Some e)"
    "task_memory ex_env k' e" "trap_words (task_trap_cx k' e) = (trap_words (task_trap_cx k c))[35 := get_top (KernelStack 1), 10 := 0]" by blast
  with k(1-3) show ?thesis by (intro exI [of _ k] exI [of _ k'] exI [of _ c] exI [of _ e]) (simp del: list_update.simps)
qed

end
