(* ===== verification/Exec.thy ===== *)
theory Exec
  imports Fork
begin

text \<open>
  What \<open>exec\<close> does to memory: the space of the calling task is replaced by one loaded from an ELF file,
  and the frames of the old space are given back.
\<close>

subsection \<open>Giving frames back\<close>

lemma task_space_free:
  assumes t: "task_space syms st ks P us p" and mem: "mm_mem st' = mm_mem st" "mm_inv st'"
    and own: "ms_frames ks \<union> ms_frames us \<subseteq> in_use st'" "PhysPageNum 0 \<in> in_use st'"
  shows "task_space syms st' ks P us p"
proof -
  have k: "kernel_ok syms st ks P" and us: "user_space st us" and ui: "ms_inv st us" using t by (auto simp: task_space_def user_space_def)
  have out: "same_outside {} (mm_mem st) (mm_mem st')" using mem(1) by simp
  have "kernel_ok syms st' ks P" using kernel_ok_frame [OF k out] mem(2) own(1) by simp
  moreover have "user_space st' us" using ms_inv_frame(1) [OF ui out] us mem(2) own(1) by (simp add: user_space_def)
  ultimately show ?thesis using t mem(1) own(2) by (simp add: task_space_def trap_page_def)
qed

subsection \<open>The value of \<open>exec\<close>\<close>

lemma exec_eq:
  assumes c: "cellk k t = Some c" "\<not> borrowed c"
    and f: "from_elf (env_elf_new env) (env_syms env) data (mm k) = Inr ((ms, sp, entry), st1)" "find_trap_cx_ppn (mm_mem st1) ms = Inr p"
      "MemorySet_drop st1 (memory_set (inner_of c)) = Inr st2" "ppn_get_mut p = Inr (page_base p)"
  defines "cx \<equiv> app_init_context (env_sstatus env) entry sp (ms_token (KERNEL_SPACE k)) (get_top (kernel_stack (arc_data c))) (env_trap_handler env)"
    and "d \<equiv> set_inner ((inner_of c)\<lparr>memory_set := ms, trap_cx_ppn := p\<rparr>) c"
  shows "exec env t data k = Inr ((arc_set t (Some d) k)\<lparr>mm := st2\<lparr>mm_mem := write_trap_cx (mm_mem st2) (page_base p) cx\<rparr>\<rparr>)"
  using c f by (simp add: exec_def cell_ops cellk_arc_set Let_def arc_get_cellk get_trap_cx_def cx_def d_def)

text \<open>The new space, with the trap context written, after the old one is dropped.\<close>

lemma exec_memory:
  assumes t: "task_space (env_syms env) st ks P us q" and syms: "syms_ok (env_syms env)" and e: "env_elf_new env data = Some elf" "elf_ok elf"
    and room: "14 + load_cost (loads elf (elf_ph_count elf)) \<le> frames_left st"
  obtains ms sp st1 p st2 where "from_elf (env_elf_new env) (env_syms env) data st = Inr ((ms, sp, elf_entry_point elf), st1)"
    and "find_trap_cx_ppn (mm_mem st1) ms = Inr p" and "MemorySet_drop st1 us = Inr st2" and "ppn_get_mut p = Inr (page_base p)"
    and "elf_space (env_syms env) elf st ms st1" and "unat sp = (load_end (loads elf (elf_ph_count elf)) + 3) * 4096"
    and "in_use st2 = in_use st - ms_frames us \<union> ms_frames ms" and "mm_mem st2 = mm_mem st1"
    and "task_space (env_syms env) st2 ks P ms p"
proof -
  have k: "kernel_ok (env_syms env) st ks P" and us: "user_space st us" and d: "ms_frames ks \<inter> ms_frames us = {}"
    and z: "PhysPageNum 0 \<in> in_use st - ms_frames us" using t by (auto simp: task_space_def)
  have ui: "ms_inv st us" using us by (simp add: user_space_def)
  have st: "strampoline_ok (env_syms env)" using syms by (simp add: syms_ok_def)
  from from_elf_Inr [where elf_new = "env_elf_new env", OF e st ms_invD(2) [OF ui] room] obtain ms sp st1 where
    f: "from_elf (env_elf_new env) (env_syms env) data st = Inr ((ms, sp, elf_entry_point elf), st1)"
    and es: "elf_space (env_syms env) elf st ms st1" and sp: "unat sp = (load_end (loads elf (elf_ph_count elf)) + 3) * 4096" by blast
  have b: "built st st1 ms" and mu: "user_space st1 ms" using es by (auto simp: elf_space_def Let_def)
  from trap_page_elf [OF es] obtain p where tp: "trap_page st1 ms p" .
  note fr = trap_page_frame [OF mu tp] and ko = kernel_ok_built [OF k b] and o = built_other [OF b ui]
  have use: "in_use st1 = in_use st \<union> ms_frames ms" using b by (auto simp: built_def)
  have t1: "task_space (env_syms env) st1 ks P ms p"
    using ko mu tp elf_space_copy(3) [OF e(2) es] z b by (auto simp: task_space_def built_def)
  from MemorySet_drop_ok [OF o(1)] obtain st2 where dr: "MemorySet_drop st1 us = Inr st2" "in_use st2 = in_use st1 - ms_frames us"
    "mm_mem st2 = mm_mem st1" "mm_inv st2" by blast
  have use2: "in_use st2 = in_use st - ms_frames us \<union> ms_frames ms" using dr(2) use o(3) by auto
  have "task_space (env_syms env) st2 ks P ms p"
    by (rule task_space_free [OF t1 dr(3,4)]) (use use2 ko(3) d z in auto)
  moreover have "p \<noteq> PhysPageNum 0" using fr(1) t1 by (auto simp: task_space_def ms_frames_def)
  then have "ppn_get_mut p = Inr (page_base p)" by (rule ppn_get_mut_eq [OF fr(2)])
  ultimately show ?thesis using that f fr(4) dr(1,3) es sp use2 by metis
qed

lemma live_pids_same:
  assumes "cellk k t = Some c" and "tcb_pid (arc_data d) = tcb_pid (arc_data c)" and "cellk k' = (cellk k)(t := Some d)"
  shows "live_pids k' = live_pids k"
proof -
  have "(\<lambda>u. map_option (\<lambda>c. pid_num (tcb_pid (arc_data c))) (cellk k' u)) = (\<lambda>u. map_option (\<lambda>c. pid_num (tcb_pid (arc_data c))) (cellk k u))"
    using assms by auto
  then show ?thesis by (simp add: live_pids_def)
qed

subsection \<open>Properties\<close>

text \<open>
  C6: \<open>exec\<close> replaces the program of a task.  With a well-formed ELF file, and enough frames for the new space
  beside the old one, it succeeds.  The task keeps its pid, its kernel stack and its place in the process
  tree; its space is now the one loaded from the file, and its trap context starts at the entry
  point with an empty user stack.  The frames of the old space are free again, and no memory but the
  frames of the new space has changed.
\<close>

theorem exec_replaces:
  assumes c: "cellk k t = Some c" "\<not> borrowed c" and mem: "task_memory env k c" and syms: "syms_ok (env_syms env)"
    and elf: "env_elf_new env data = Some elf" "elf_ok elf" and room: "14 + load_cost (loads elf (elf_ph_count elf)) \<le> frames_left (mm k)"
  shows "\<exists>k' d sp st1. exec env t data k = Inr k' \<and> cellk k' = (cellk k)(t := Some d) \<and>
    inner_of d = (inner_of c)\<lparr>memory_set := memory_set (inner_of d), trap_cx_ppn := trap_cx_ppn (inner_of d)\<rparr> \<and>
    tcb_pid (arc_data d) = tcb_pid (arc_data c) \<and> kernel_stack (arc_data d) = kernel_stack (arc_data c) \<and> strong d = strong c \<and> \<not> borrowed d \<and>
    task_memory env k' d \<and> elf_space (env_syms env) elf (mm k) (memory_set (inner_of d)) st1 \<and>
    (\<forall>v. ms_lookup (mm k') (memory_set (inner_of d)) v = ms_lookup st1 (memory_set (inner_of d)) v) \<and>
    (\<forall>v \<in> set (ms_pages (memory_set (inner_of d))) - {trap_vpn}.
       page_content (mm k') (memory_set (inner_of d)) v = page_content st1 (memory_set (inner_of d)) v) \<and>
    task_trap_cx k' d = app_init_context (env_sstatus env) (elf_entry_point elf) sp (ms_token (KERNEL_SPACE k))
      (get_top (kernel_stack (arc_data c))) (env_trap_handler env) \<and>
    unat sp = (load_end (loads elf (elf_ph_count elf)) + 3) * 4096 \<and>
    in_use (mm k') = in_use (mm k) - ms_frames (memory_set (inner_of c)) \<union> ms_frames (memory_set (inner_of d)) \<and>
    same_outside (ms_frames (memory_set (inner_of d))) (mm_mem (mm k)) (mm_mem (mm k'))"
proof -
  let ?us = "memory_set (inner_of c)"
  from exec_memory [OF mem [unfolded task_memory_def] syms elf room] obtain ms sp st1 p st2
    where f: "from_elf (env_elf_new env) (env_syms env) data (mm k) = Inr ((ms, sp, elf_entry_point elf), st1)"
      "find_trap_cx_ppn (mm_mem st1) ms = Inr p" "MemorySet_drop st1 ?us = Inr st2" "ppn_get_mut p = Inr (page_base p)"
    and es: "elf_space (env_syms env) elf (mm k) ms st1" and sp: "unat sp = (load_end (loads elf (elf_ph_count elf)) + 3) * 4096"
    and use: "in_use st2 = in_use (mm k) - ms_frames ?us \<union> ms_frames ms" and m2: "mm_mem st2 = mm_mem st1"
    and t2: "task_space (env_syms env) st2 (KERNEL_SPACE k) (live_pids k) ms p" .
  define cx where "cx = app_init_context (env_sstatus env) (elf_entry_point elf) sp (ms_token (KERNEL_SPACE k)) (get_top (kernel_stack (arc_data c))) (env_trap_handler env)"
  define d where "d = set_inner ((inner_of c)\<lparr>memory_set := ms, trap_cx_ppn := p\<rparr>) c"
  define k' where "k' = (arc_set t (Some d) k)\<lparr>mm := st2\<lparr>mm_mem := write_trap_cx (mm_mem st2) (page_base p) cx\<rparr>\<rparr>"
  have ex: "exec env t data k = Inr k'" unfolding k'_def cx_def d_def by (rule exec_eq [OF c f])
  have us: "user_space st2 ms" "trap_page st2 ms p" using t2 by (auto simp: task_space_def)
  note fr = trap_page_frame [OF us]
  have ok: "trap_cx_ok cx" by (simp add: cx_def app_init_context_ok)
  have out: "same_outside {p} (mm_mem st2) (mm_mem (mm k'))" unfolding k'_def using same_outside_write_trap_cx [OF fr(2) ok] by simp
  have mmk: "mm k' = st2\<lparr>mm_mem := mm_mem (mm k')\<rparr>" by (simp add: k'_def)
  note w = trap_page_write [OF t2 out, folded mmk]
  have cells: "cellk k' = (cellk k)(t := Some d)" using c(1) by (simp add: k'_def cellk_arc_set)
  have d: "memory_set (inner_of d) = ms" "trap_cx_ppn (inner_of d) = p" "tcb_pid (arc_data d) = tcb_pid (arc_data c)" "kernel_stack (arc_data d) = kernel_stack (arc_data c)"
    "strong d = strong c" "\<not> borrowed d" "inner_of d = (inner_of c)\<lparr>memory_set := ms, trap_cx_ppn := p\<rparr>"
    by (simp_all add: d_def)
  have tm: "task_memory env k' d"
    unfolding task_memory_def d live_pids_same [OF c(1) d(3) cells] using w(1) by (simp add: k'_def)
  have same: "same_outside (ms_frames ms) (mm_mem (mm k)) (mm_mem (mm k'))"
    by (rule same_outside_chain [OF _ out [unfolded m2]])
      (use es w(4) in \<open>auto simp: elf_space_def built_def Let_def\<close>)
  have pc: "page_content (mm k') ms v = page_content st1 ms v" if "v \<in> set (ms_pages ms) - {trap_vpn}" for v
    unfolding w(3) [OF that] by (simp add: page_content_def m2)
  have l: "ms_lookup (mm k') ms v = ms_lookup st1 ms v" for v using w(2) by (simp add: m2)
  have rcx: "task_trap_cx k' d = cx" unfolding task_trap_cx_def d using read_write_trap_cx [OF fr(2) ok] by (simp add: k'_def)
  have iu: "in_use (mm k') = in_use (mm k) - ms_frames ?us \<union> ms_frames ms" using use by (simp add: k'_def)
  show ?thesis
    by (intro exI [of _ k'] exI [of _ d] exI [of _ sp] exI [of _ st1] conjI allI ballI; (unfold d(1,2))?; rule ex cells d tm es l pc rcx [unfolded cx_def] sp iu same; assumption?)
qed

theorem exec_replaces_witness:
  "\<exists>k k' c d. proc_inv k \<and> cellk k 0 = Some c \<and> exec ex_env 0 [0x7f, 0x45, 0x4c, 0x46] k = Inr k' \<and> cellk k' = (cellk k)(0 := Some d) \<and>
     task_memory ex_env k' d"
proof -
  from ex_running obtain k c where k: "proc_inv k" "cur k = Some 0" "cellk k 0 = Some c" "task_memory ex_env k c"
    "copy_room (memory_set (inner_of c)) + 100 \<le> frames_left (mm k)" by metis
  have nb: "\<not> borrowed c" using running_cell [OF k(1-3)] by (simp add: running_def)
  have s: "syms_ok (env_syms ex_env)" "env_elf_new ex_env [0x7f, 0x45, 0x4c, 0x46] = Some ex_elf" by (simp_all add: ex_env_simps ex_syms_ok)
  have "14 + load_cost (loads ex_elf (elf_ph_count ex_elf)) \<le> frames_left (mm k)" using k(5) ex_elf_cost by simp
  from exec_replaces [OF k(3) nb k(4) s ex_elf_ok this] k(1,3) show ?thesis by blast
qed

end
