(* ===== verification/User_Calls.thy ===== *)
theory User_Calls
  imports Exec
begin

text \<open>
  System calls seen from a user program: what a trap leaves in the registers of the program that made the
  call, and which memory the kernel reaches through a pointer of the program.
\<close>

subsection \<open>The trap context of the running task\<close>

lemma trap_cx_ptr:
  assumes "task_space syms st ks P ms p"
  shows "ppn_get_mut p = Inr (page_base p)" and "ppn_ok p"
proof -
  have us: "user_space st ms" "trap_page st ms p" and "PhysPageNum 0 \<notin> ms_frames ms" using assms by (auto simp: task_space_def)
  note fr = trap_page_frame [OF us]
  show "ppn_ok p" by (rule fr(2))
  have "p \<noteq> PhysPageNum 0" using fr(1) \<open>PhysPageNum 0 \<notin> ms_frames ms\<close> by (auto simp: ms_frames_def)
  then show "ppn_get_mut p = Inr (page_base p)" by (rule ppn_get_mut_eq [OF fr(2)])
qed

text \<open>One word of the trap context of a task is written.\<close>

definition set_cx_word :: "ArcInner \<Rightarrow> nat \<Rightarrow> usize \<Rightarrow> kernel \<Rightarrow> kernel" where
  "set_cx_word c i w k =
     k\<lparr>mm := (mm k)\<lparr>mm_mem := write_u64 (mm_mem (mm k)) (cx_field (page_base (trap_cx_ppn (inner_of c))) (of_nat i)) w\<rparr>\<rparr>"

lemma set_cx_word_simps [simp]:
  "cellk (set_cx_word c i w k) = cellk k" "PROCESSOR (set_cx_word c i w k) = PROCESSOR k" "KERNEL_SPACE (set_cx_word c i w k) = KERNEL_SPACE k"
  "TASK_MANAGER (set_cx_word c i w k) = TASK_MANAGER k" "live_pids (set_cx_word c i w k) = live_pids k" "running (set_cx_word c i w k) = running k"
  by (simp_all add: set_cx_word_def live_pids_def running_def fun_eq_iff)

lemma set_cx_word_ok:
  assumes m: "task_memory env k c" and i: "i < 37"
  shows "task_memory env (set_cx_word c i w k) c"
    and "trap_words (task_trap_cx (set_cx_word c i w k) c) = (trap_words (task_trap_cx k c))[i := w]"
    and "same_outside {trap_cx_ppn (inner_of c)} (mm_mem (mm k)) (mm_mem (mm (set_cx_word c i w k)))"
proof -
  let ?p = "trap_cx_ppn (inner_of c)"
  have t: "task_space (env_syms env) (mm k) (KERNEL_SPACE k) (live_pids k) (memory_set (inner_of c)) ?p" using m by (simp add: task_memory_def)
  note p = trap_cx_ptr(2) [OF t]
  have out: "same_outside {?p} (mm_mem (mm k)) (write_u64 (mm_mem (mm k)) (cx_field (page_base ?p) (of_nat i)) w)"
    unfolding cx_field_slot using i by (intro same_outside_slot_write [OF p]) simp
  then show "same_outside {?p} (mm_mem (mm k)) (mm_mem (mm (set_cx_word c i w k)))" by (simp add: set_cx_word_def)
  show "task_memory env (set_cx_word c i w k) c"
    unfolding task_memory_def set_cx_word_simps using trap_page_write(1) [OF t out] by (simp add: set_cx_word_def)
  show "trap_words (task_trap_cx (set_cx_word c i w k) c) = (trap_words (task_trap_cx k c))[i := w]"
    using read_trap_cx_write_field [OF p i, of "mm_mem (mm k)" w] by (simp add: task_trap_cx_def set_cx_word_def)
qed

lemma running_trap_cx:
  assumes "running k t c" and "task_memory env k c"
  shows "current_trap_cx k = Inr (page_base (trap_cx_ppn (inner_of c)), k)"
  using current_trap_cx_eq [OF assms(1)] trap_cx_ptr(1) assms(2) by (simp add: get_trap_cx_def task_memory_def)

lemma trap_words_nth: "i < 37 \<Longrightarrow> trap_words (read_trap_cx m a) ! i = read_u64 m (cx_field a (of_nat i))"
proof -
  assume "i < 37"
  have "trap_words (read_trap_cx m a) = map (\<lambda>j. read_u64 m (cx_field a (of_nat j))) [0..<37]"
    unfolding words_upt by (simp add: trap_words_def read_trap_cx_def)
  with \<open>i < 37\<close> show ?thesis by simp
qed

subsection \<open>From an \<open>ecall\<close> back to the program\<close>

text \<open>The handler on an \<open>ecall\<close>, up to the call of \<open>syscall\<close>, and from its return on.\<close>

lemma trap_handler_ecall:
  assumes r: "running k t c" and m: "task_memory env k c"
  defines "w \<equiv> trap_words (task_trap_cx k c)"
  shows "trap_handler env ans UserEnvCall k =
    finish_syscall env (syscall env ans (w ! 17) (w ! 10) (w ! 11) (w ! 12) (set_cx_word c 33 (w ! 33 + 4) (set_kernel_trap_entry env k)))"
proof -
  define k1 where "k1 = set_kernel_trap_entry env k"
  define k2 where "k2 = set_cx_word c 33 (w ! 33 + 4) k1"
  let ?a = "page_base (trap_cx_ppn (inner_of c))"
  have k1: "running k1 t c" "task_memory env k1 c" "task_trap_cx k1 c = task_trap_cx k c"
    using r m by (simp_all add: k1_def set_kernel_trap_entry_def running_def task_memory_def live_pids_def task_trap_cx_def)
  have w1: "read_u64 (mm_mem (mm k1)) (cx_field ?a (of_nat i)) = w ! i" if "i < 37" for i
    unfolding w_def task_trap_cx_def trap_words_nth [OF that] by (simp add: k1_def set_kernel_trap_entry_def)
  have "trap_words (task_trap_cx k2 c) = w[33 := w ! 33 + 4]"
    using set_cx_word_ok(2) [OF k1(2), of 33 "w ! 33 + 4"] by (simp add: k2_def k1(3) w_def [symmetric])
  then have "read_u64 (mm_mem (mm k2)) (cx_field ?a (of_nat i)) = (w[33 := w ! 33 + 4]) ! i" if "i < 37" for i
    using trap_words_nth [OF that, of "mm_mem (mm k2)" ?a] by (simp add: task_trap_cx_def)
  from this [of 17] this [of 10] this [of 11] this [of 12]
  have w2: "read_u64 (mm_mem (mm k2)) (cx_field ?a 17) = w ! 17" "read_u64 (mm_mem (mm k2)) (cx_field ?a 10) = w ! 10"
    "read_u64 (mm_mem (mm k2)) (cx_field ?a 11) = w ! 11" "read_u64 (mm_mem (mm k2)) (cx_field ?a 12) = w ! 12" by simp_all
  have mem2: "write_u64 (mm_mem (mm k1)) (cx_field ?a 33) (read_u64 (mm_mem (mm k1)) (cx_field ?a 33) + 4) = mm_mem (mm k2)"
    using w1 [of 33] by (simp add: k2_def set_cx_word_def)
  have k2: "k1\<lparr>mm := (mm k1)\<lparr>mm_mem := mm_mem (mm k2)\<rparr>\<rparr> = k2" by (simp add: k2_def set_cx_word_def)
  show ?thesis
    unfolding trap_handler_def Let_def k1_def [symmetric] k2_def [symmetric]
    by (simp only: trap.case running_trap_cx [OF k1(1,2)] obind_simps Let_def prod.case mem2 k2 w2)
qed

lemma finish_syscall_returns:
  assumes "running k t c" and "task_memory env k c"
  shows "finish_syscall env (Some (Inr (Returns v k))) =
    Some (Inr (ToUser \<lparr>restore_va = env_restore env - env_alltraps env + TRAMPOLINE, trap_cx_ptr = TRAP_CONTEXT,
      user_satp = ms_token (memory_set (inner_of c))\<rparr> (set_user_trap_entry (set_cx_word c 10 v k))))"
proof -
  let ?k = "set_user_trap_entry (set_cx_word c 10 v k)"
  have "running ?k t c" using assms(1) by (simp add: set_user_trap_entry_def running_def)
  note u = current_user_token_eq [OF this, unfolded get_user_token_def]
  have "k\<lparr>mm := (mm k)\<lparr>mm_mem := write_u64 (mm_mem (mm k)) (cx_field (page_base (trap_cx_ppn (inner_of c))) 10) v\<rparr>\<rparr> = set_cx_word c 10 v k"
    by (simp add: set_cx_word_def)
  then show ?thesis
    using u by (simp add: finish_syscall_def running_trap_cx [OF assms] trap_return_def Let_def del: TRAMPOLINE_def TRAP_CONTEXT_def)
qed

subsection \<open>Pointers of the program\<close>

text \<open>An address in the page of the trap context.\<close>

lemma trap_context_va:
  fixes i :: nat
  assumes "i < 512"
  defines "va \<equiv> VirtAddr_from (TRAP_CONTEXT + 8 * of_nat i)"
  shows "va_floor va = trap_vpn" and "va_page_offset va = 8 * of_nat i"
proof -
  have "unat (8 * of_nat i :: usize) = 8 * i" using assms(1) by (simp add: unat_word_ariths)
  then have "unat (0xFFFFFFFFFFFFE000 + 8 * of_nat i :: usize) = 0xFFFFFFFFFFFFE000 + 8 * i"
    using assms(1) by (subst unat_add_less) simp_all
  then have "unat (va_bits va) = (0xFFFFFFFFFFFFE000 + 8 * i) mod 2 ^ 39"
    unfolding va_def VirtAddr_from_bits by (simp add: unat_take_bit)
  also have "\<dots> = (0x7FFFFFE000 + 8 * i + 0x1FFFFFF * 2 ^ 39) mod 2 ^ 39" by (simp add: add.commute)
  also have "\<dots> = 0x7FFFFFE000 + 8 * i" unfolding mod_mult_self1 using assms(1) by (intro mod_less) simp
  finally have u: "unat (va_bits va) = 0x7FFFFFE * 4096 + 8 * i" by simp
  have off: "unat (va_bits va) mod 4096 = 8 * i" unfolding u mod_mult_self3 using assms(1) by simp
  have "unat (vpn_bits (va_floor va)) = 0x7FFFFFE" unfolding unat_va_floor u using assms(1) by simp
  then show "va_floor va = trap_vpn" by (intro VirtPageNum_eqI) (simp add: trap_vpn_def)
  show "va_page_offset va = 8 * of_nat i"
    by (rule word_unat_eq_iff [THEN iffD2]) (use off assms(1) in \<open>simp add: unat_take_bit unat_word_ariths del: VirtAddr_from_bits\<close>)
qed

lemma refmut_trap_page:
  assumes us: "user_space st ms" and tp: "trap_page st ms p" and nz: "p \<noteq> PhysPageNum 0" and i: "i < 512"
  shows "translated_refmut (mm_mem st) (ms_token ms) (TRAP_CONTEXT + 8 * of_nat i) = Inr (cx_field (page_base p) (of_nat i))"
proof -
  let ?va = "VirtAddr_from (TRAP_CONTEXT + 8 * of_nat i)" and ?pt = "from_token (ms_token ms)"
  note fr = trap_page_frame [OF us tp] and va = trap_context_va [OF i]
  obtain e where e: "ms_lookup st ms trap_vpn = Some e" "pte_ppn e = p" using tp by (auto simp: trap_page_def)
  have "pt_inv st (page_table ms)" using us ms_invD(1) by (auto simp: user_space_def)
  then have "root_ppn ?pt = root_ppn (page_table ms)" unfolding ms_token_def by (intro from_token_token root_ppn_ok)
  then have "translate (mm_mem st) ?pt trap_vpn = Some e"
    using translate_mapped [OF e(1)] find_pte_root [of ?pt "page_table ms"] by (simp add: translate_def)
  then have tr: "translate_va (mm_mem st) ?pt ?va = Some (PhysAddr (page_base p + 8 * of_nat i))"
    unfolding translate_va_translate va using e(2) by simp
  have "unat (8 * of_nat i :: usize) = 8 * i" using i by (simp add: unat_word_ariths)
  then have "unat (page_base p + 8 * of_nat i) = unat (ppn_bits p) * 4096 + 8 * i"
    using unat_page_base_plus [OF fr(2), of "8 * of_nat i"] i by simp
  moreover have "unat (ppn_bits p) \<noteq> 0" using nz by (metis PhysPageNum.collapse unat_eq_zero)
  ultimately have "page_base p + 8 * of_nat i \<noteq> 0" by (metis add_is_0 mult_eq_0_iff unat_0 zero_neq_numeral)
  with tr show ?thesis by (simp add: translated_refmut_def pa_get_mut_def as_mut_unwrap_def cx_field_def del: TRAP_CONTEXT_def)
qed

subsection \<open>Printing\<close>

lemma write_buffers_ascii:
  assumes "\<forall>b \<in> set (concat (map (slice_read (mm_mem (mm k))) v)). unat b < 0x80"
  shows "for_each write_buffer v k = Inr (k\<lparr>console := console k @ map unat (concat (map (slice_read (mm_mem (mm k))) v))\<rparr>)"
  using assms
proof (induction v arbitrary: k)
  case Nil
  then show ?case by simp
next
  case (Cons b v)
  have "from_utf8 (slice_read (mm_mem (mm k)) b) = Some (map unat (slice_read (mm_mem (mm k)) b))"
    using Cons.prems by (intro from_utf8_ascii) simp
  then have "write_buffer b k = Inr (k\<lparr>console := console k @ map unat (slice_read (mm_mem (mm k)) b)\<rparr>)"
    by (simp add: write_buffer_def print_def)
  then show ?case using Cons.IH [of "k\<lparr>console := console k @ map unat (slice_read (mm_mem (mm k)) b)\<rparr>"] Cons.prems by simp
qed

subsection \<open>Properties\<close>

text \<open>
  C15: a call of \<open>getpid\<close> or \<open>get_time\<close>, from the trap to the jump to \<open>__restore\<close>.  The program gets its pid or the time
  in milliseconds in \<open>x10\<close>, and goes on at the instruction after the \<open>ecall\<close>; its other registers, all other memory,
  the process table and the ready queue are as before, and the trap entry is the user one again.
\<close>

theorem trap_handler_getpid_time:
  fixes ans :: answers
  assumes inv: "proc_inv k" and cur: "cur k = Some t" and c: "cellk k t = Some c" and m: "task_memory env k c"
    and id: "cx_x (task_trap_cx k c) ! 17 = n" "n \<in> {SYSCALL_GETPID, SYSCALL_GET_TIME}"
  defines "v \<equiv> if n = SYSCALL_GETPID then pid_num (tcb_pid (arc_data c)) else get_time_ms (ans_time ans)"
  shows "\<exists>k'. trap_handler env ans UserEnvCall k =
      Some (Inr (ToUser \<lparr>restore_va = env_restore env - env_alltraps env + TRAMPOLINE, trap_cx_ptr = TRAP_CONTEXT,
        user_satp = ms_token (memory_set (inner_of c))\<rparr> k')) \<and>
    trap_words (task_trap_cx k' c) = (trap_words (task_trap_cx k c))[33 := cx_sepc (task_trap_cx k c) + 4, 10 := v] \<and>
    same_outside {trap_cx_ppn (inner_of c)} (mm_mem (mm k)) (mm_mem (mm k')) \<and> task_memory env k' c \<and>
    k' = k\<lparr>mm := (mm k)\<lparr>mm_mem := mm_mem (mm k')\<rparr>, stvec := TRAMPOLINE\<rparr>"
proof -
  define w where "w = trap_words (task_trap_cx k c)"
  define k1 where "k1 = set_kernel_trap_entry env k"
  define k2 where "k2 = set_cx_word c 33 (w ! 33 + 4) k1"
  define k' where "k' = set_user_trap_entry (set_cx_word c 10 v k2)"
  note run = running_cell [OF inv cur c]
  have k1: "running k1 t c" "task_memory env k1 c" "task_trap_cx k1 c = task_trap_cx k c" "mm k1 = mm k"
    using run m by (simp_all add: k1_def set_kernel_trap_entry_def running_def task_memory_def live_pids_def task_trap_cx_def)
  note o2 = set_cx_word_ok [OF k1(2), of 33 "w ! 33 + 4", simplified, folded k2_def]
  have run2: "running k2 t c" using k1(1) by (simp add: k2_def)
  have l: "length (cx_x (task_trap_cx k c)) = 32" by (simp add: task_trap_cx_def read_trap_cx_def)
  have w17: "w ! 17 = n" and w33: "w ! 33 = cx_sepc (task_trap_cx k c)" using id(1) l by (simp_all add: w_def trap_words_def nth_append)
  have "syscall env ans n a0 a1 a2 k2 = Some (Inr (Returns v k2))" for a0 a1 a2
    using id(2) sys_getpid_eq [OF run2] by (auto simp: syscall_def sys_get_time_def v_def)
  then have h: "trap_handler env ans UserEnvCall k =
      Some (Inr (ToUser \<lparr>restore_va = env_restore env - env_alltraps env + TRAMPOLINE, trap_cx_ptr = TRAP_CONTEXT,
        user_satp = ms_token (memory_set (inner_of c))\<rparr> k'))"
    unfolding trap_handler_ecall [OF run m] k'_def
    using finish_syscall_returns [OF run2 o2(1)] w17 by (simp only: w_def [symmetric] k1_def [symmetric] k2_def [symmetric])
  note o3 = set_cx_word_ok [OF o2(1), of 10 v, simplified]
  have f: "mm k' = mm (set_cx_word c 10 v k2)" "cellk k' = cellk k2" "KERNEL_SPACE k' = KERNEL_SPACE k2"
    by (simp_all add: k'_def set_user_trap_entry_def)
  have words: "trap_words (task_trap_cx k' c) = (trap_words (task_trap_cx k c))[33 := cx_sepc (task_trap_cx k c) + 4, 10 := v]"
    using o3(2) o2(2) w33 unfolding task_trap_cx_def f by (simp only: k1(4))
  have mem: "task_memory env k' c" using o3(1) unfolding task_memory_def live_pids_def f by simp
  have out: "same_outside {trap_cx_ppn (inner_of c)} (mm_mem (mm k)) (mm_mem (mm k'))"
    using same_outside_trans [OF o2(3) o3(3)] unfolding f k1(4) .
  have "k' = k\<lparr>mm := (mm k)\<lparr>mm_mem := mm_mem (mm k')\<rparr>, stvec := TRAMPOLINE\<rparr>"
    by (simp add: k'_def k2_def k1_def set_user_trap_entry_def set_kernel_trap_entry_def set_cx_word_def del: TRAMPOLINE_def)
  with h words out mem show ?thesis by (intro exI [of _ k'] conjI)
qed

theorem trap_handler_getpid_time_witness:
  "\<exists>k e k' c. cellk k 0 = Some c \<and> cx_x (task_trap_cx k c) ! 17 = 172 \<and>
     trap_handler ex_env \<lparr>ans_time = 0, ans_char = 0\<rparr> UserEnvCall k = Some (Inr (ToUser e k')) \<and>
     trap_words (task_trap_cx k' c) = (trap_words (task_trap_cx k c))[33 := cx_sepc (task_trap_cx k c) + 4, 10 := 0]"
proof -
  from ex_running obtain k0 c where k0: "proc_inv k0" "cur k0 = Some 0" "cellk k0 0 = Some c" "task_memory ex_env k0 c" "tcb_pid (arc_data c) = PidHandle 0"
    by metis
  define k where "k = set_cx_word c 17 172 k0"
  have k: "proc_inv k" by (rule proc_inv_cong [OF k0(1)]) (simp_all add: k_def set_cx_word_def)
  have k': "cur k = Some 0" "cellk k 0 = Some c" using k0(2,3) by (simp_all add: k_def)
  note o = set_cx_word_ok [OF k0(4), of 17 172, simplified, folded k_def]
  have "length (cx_x (task_trap_cx k c)) = 32" "length (trap_words (task_trap_cx k0 c)) = 37" by (simp_all add: task_trap_cx_def read_trap_cx_def trap_words_def)
  then have x: "cx_x (task_trap_cx k c) ! 17 = 172" using arg_cong [OF o(2), of "\<lambda>ws. ws ! 17"] by (simp add: trap_words_def nth_append)
  from trap_handler_getpid_time [OF k k' o(1) x, of "\<lparr>ans_time = 0, ans_char = 0\<rparr>"] k'(2) x k0(5) show ?thesis
    by (auto simp del: TRAMPOLINE_def TRAP_CONTEXT_def)
qed

text \<open>
  C16: \<open>write\<close> to standard output.  When every byte of the buffer is mapped below the end of the 39-bit address space
  and is an ASCII character, the call prints exactly these characters, in order, wherever the
  boundaries of the pages lie, returns the length, and changes nothing else.
\<close>

theorem sys_write_prints:
  assumes inv: "proc_inv k" and cur: "cur k = Some t" and c: "cellk k t = Some c"
    and range: "unat buf + unat len < 2 ^ 39"
    and bytes: "map (\<lambda>i. map_option (mm_mem (mm k)) (user_pa (mm_mem (mm k)) (from_token (ms_token (memory_set (inner_of c)))) (buf + of_nat i))) [0..<unat len] = map Some bs"
    and ascii: "\<forall>b \<in> set bs. unat b < 0x80"
  shows "sys_write FD_STDOUT buf len k = Some (Inr (Returns len (k\<lparr>console := console k @ map unat bs\<rparr>)))"
proof -
  let ?m = "mm_mem (mm k)" and ?tok = "ms_token (memory_set (inner_of c))"
  let ?pa = "\<lambda>i. user_pa ?m (from_token ?tok) (buf + of_nat i)"
  have "map_option ?m (?pa i) \<noteq> None" if "i < unat len" for i
  proof -
    have "map_option ?m (?pa i) \<in> set (map (\<lambda>i. map_option ?m (?pa i)) [0..<unat len])" using that by simp
    then show ?thesis unfolding bytes by auto
  qed
  then have "\<forall>i < unat len. ?pa i \<noteq> None" by simp
  from translated_byte_buffer_ok [OF range this] obtain v where v: "translated_byte_buffer ?m ?tok buf len = Some (Inr v)"
    "map Some (concat (map slice_addrs v)) = map ?pa [0..<unat len]" by blast
  have "map Some (map ?m (concat (map slice_addrs v))) = map (map_option ?m) (map Some (concat (map slice_addrs v)))" by simp
  also have "\<dots> = map Some bs" unfolding v(2) bytes [symmetric] by simp
  finally have "map ?m (concat (map slice_addrs v)) = bs" by (simp add: inj_map_eq_map [OF inj_Some] del: map_map)
  moreover have "concat (map (slice_read ?m) v) = map ?m (concat (map slice_addrs v))"
    by (simp add: slice_read_addrs [abs_def] map_concat comp_def)
  ultimately have "concat (map (slice_read ?m) v) = bs" by simp
  then have "for_each write_buffer v k = Inr (k\<lparr>console := console k @ map unat bs\<rparr>)" using write_buffers_ascii [of k v] ascii by simp
  then show ?thesis
    using v(1) by (simp add: sys_write_def current_user_token_eq [OF running_cell [OF inv cur c]] get_user_token_def)
qed

theorem sys_write_prints_witness:
  "\<exists>m. let k = ex_kernel \<lparr>mm_mem = m, FRAME_ALLOCATOR = FRAME_ALLOCATOR ex_mm\<rparr> ex_pt (Some 0) in
     proc_inv k \<and> sys_write 1 0x5000 2 k = Some (Inr (Returns 2 (k\<lparr>console := [0x73, 0x68]\<rparr>)))"
proof -
  obtain m :: memory where pa: "\<forall>pt a. unat a < 2 ^ 39 \<longrightarrow> user_pa m pt a = Some (0x1a000 + take_bit 12 a)"
    and bytes: "m 0x1a000 = 0x73" "m 0x1a001 = 0x68" "m 0x1a002 = 0" by (rule ex_sh_memory)
  define k where "k = ex_kernel \<lparr>mm_mem = m, FRAME_ALLOCATOR = FRAME_ALLOCATOR ex_mm\<rparr> ex_pt (Some 0)"
  have inv: "proc_inv k" unfolding k_def by (rule ex_kernel_inv) simp
  have k: "cur k = Some 0" "cellk k 0 = Some (ex_cell ex_pt 2 0 Running None [1, 2] 0)" "mm_mem (mm k) = m" "console k = []"
    by (simp_all add: k_def ex_kernel_def cellk_def)
  have two: "[0..<unat (2 :: usize)] = [0, 1]" by (simp add: upt_rec)
  have "map (\<lambda>i. map_option (mm_mem (mm k)) (user_pa (mm_mem (mm k)) (from_token (ms_token (memory_set (inner_of (ex_cell ex_pt 2 0 Running None [1, 2] 0)))))
      (0x5000 + of_nat i))) [0..<unat (2 :: usize)] = map Some [0x73, 0x68]"
    unfolding two k(3) using pa bytes by simp
  from sys_write_prints [OF inv k(1,2) _ this] k(4) inv have "proc_inv k \<and> sys_write 1 0x5000 2 k = Some (Inr (Returns 2 (k\<lparr>console := [0x73, 0x68]\<rparr>)))"
    by simp
  then show ?thesis unfolding k_def by (intro exI [of _ m]) (simp only: Let_def)
qed

text \<open>
  C40: a user pointer may reach the trap context.  In a space loaded from an ELF file the page of the trap
  context is mapped without the user flag, so the program cannot access it; but \<open>translated_refmut\<close>
  does not look at the flags, and translates a pointer to any word of it, the address of the trap
  handler and of the kernel stack included, to the physical address of this word.  \<open>waitpid\<close> stores through it.
\<close>

theorem refmut_reaches_trap_context:
  assumes es: "elf_space syms elf st0 ms st" and z: "PhysPageNum 0 \<in> in_use st0" and i: "i < 37"
  shows "\<exists>p e. find_trap_cx_ppn (mm_mem st) ms = Inr p \<and> ms_translate (mm_mem st) ms trap_vpn = Some e \<and> pte_ppn e = p \<and>
    is_valid e \<and> pte_flags e AND PTE_U = 0 \<and>
    translated_refmut (mm_mem st) (ms_token ms) (TRAP_CONTEXT + 8 * of_nat i) = Inr (cx_field (page_base p) (of_nat i))"
proof -
  have b: "built st0 st ms" and us: "user_space st ms" and fl: "map_option pte_flags (ms_lookup st ms trap_vpn) = Some (MP_R OR MP_W OR PTE_V)"
    using es by (auto simp: elf_space_def Let_def)
  from trap_page_elf [OF es] obtain p where tp: "trap_page st ms p" .
  note fr = trap_page_frame [OF us tp]
  obtain e where e: "ms_lookup st ms trap_vpn = Some e" "pte_ppn e = p" "pte_flags e = MP_R OR MP_W OR PTE_V"
    using tp fl by (auto simp: trap_page_def)
  have "ms_translate (mm_mem st) ms trap_vpn = Some e" using translate_mapped [OF e(1)] by (simp add: ms_translate_def)
  moreover have "is_valid e" "pte_flags e AND PTE_U = 0" using e(3) by (simp_all add: is_valid_def MP_R_def MP_W_def PTE_V_def PTE_U_def)
  moreover have "p \<noteq> PhysPageNum 0" by (rule data_frame_nonzero [OF b z fr(1)])
  then have "translated_refmut (mm_mem st) (ms_token ms) (TRAP_CONTEXT + 8 * of_nat i) = Inr (cx_field (page_base p) (of_nat i))"
    by (rule refmut_trap_page [OF us tp]) (use i in simp)
  ultimately show ?thesis using fr(4) e(2) by blast
qed

theorem refmut_reaches_trap_context_witness:
  "\<exists>ms sp st p. from_elf (\<lambda>_. Some ex_elf) ex_syms [] ex_mm = Inr ((ms, sp, elf_entry_point ex_elf), st) \<and> find_trap_cx_ppn (mm_mem st) ms = Inr p \<and>
     translated_refmut (mm_mem st) (ms_token ms) (TRAP_CONTEXT + 8 * of_nat 36) = Inr (cx_field (page_base p) (of_nat 36))"
proof -
  have "20 \<le> frames_left ex_mm" by (simp add: ex_mm_left)
  from from_elf_Inr [where elf_new = "\<lambda>_. Some ex_elf" and data = "[]", OF refl ex_elf_ok ex_strampoline_ok ex_mm_inv ex_elf_room [OF this]] obtain ms sp st
    where f: "from_elf (\<lambda>_. Some ex_elf) ex_syms [] ex_mm = Inr ((ms, sp, elf_entry_point ex_elf), st)" and es: "elf_space ex_syms ex_elf ex_mm ms st" by blast
  have "PhysPageNum 0 \<in> in_use ex_mm" by (simp add: ex_mm_def sfa_in_use_def)
  from refmut_reaches_trap_context [OF es this, of 36] f show ?thesis by fastforce
qed

end
