(* ===== verification/Os_Spec.thy ===== *)
theory Os_Spec
  imports Prelude
begin

text \<open>
  What the kernel promises to user programs about processes, without control blocks, reference counts and
  memory: processes are named by their pids; each has its children in the order in which they came to
  it and is ready, running or a zombie with an exit code; the ready processes wait in a queue.  The five
  events are the ones that change this picture.
\<close>

datatype pstate = PReady | PRunning | PZombie i32

record proc =
  p_children :: "usize list"
  p_state :: pstate

record os =
  procs :: "usize \<Rightarrow> proc option"
  runq :: "usize list"
  on_hart :: "usize option"
  init_pid :: usize

datatype os_event = OFork usize | OExit i32 | OYield | OWait isize | ORun

subsection \<open>Waiting\<close>

definition is_pzombie :: "os \<Rightarrow> usize \<Rightarrow> bool" where
  "is_pzombie s n \<longleftrightarrow> (case map_option p_state (procs s n) of Some (PZombie _) \<Rightarrow> True | _ \<Rightarrow> False)"

definition exit_code_of :: "os \<Rightarrow> usize \<Rightarrow> i32" where
  "exit_code_of s n = (case map_option p_state (procs s n) of Some (PZombie c) \<Rightarrow> c | _ \<Rightarrow> 0)"

text \<open>
  The children that \<open>pid\<close> stands for; \<open>-1\<close> is any child.  The answer is \<open>-1\<close> when there are none, \<open>-2\<close> when
  none of them has exited, and otherwise the first that has, which is removed; the exit code is part of
  the answer then.
\<close>

definition asked :: "isize \<Rightarrow> proc \<Rightarrow> usize list" where
  "asked pid P = filter (\<lambda>n. pid = - 1 \<or> pid = n) (p_children P)"

definition os_wait :: "isize \<Rightarrow> usize \<Rightarrow> proc \<Rightarrow> os \<Rightarrow> isize \<times> i32 option \<times> os" where
  "os_wait pid p P s =
     (if asked pid P = [] then (- 1, None, s)
      else (case filter (is_pzombie s) (asked pid P) of
          [] \<Rightarrow> (- 2, None, s)
        | n # _ \<Rightarrow> (n, Some (exit_code_of s n),
            s\<lparr>procs := (procs s)(p := Some (P\<lparr>p_children := remove1 n (p_children P)\<rparr>), n := None)\<rparr>)))"

subsection \<open>Events\<close>

definition os_fork :: "usize \<Rightarrow> usize \<Rightarrow> proc \<Rightarrow> os \<Rightarrow> os" where
  "os_fork n p P s =
     s\<lparr>procs := (procs s)(p := Some (P\<lparr>p_children := p_children P @ [n]\<rparr>), n := Some \<lparr>p_children = [], p_state = PReady\<rparr>),
       runq := runq s @ [n]\<rparr>"

definition os_exit :: "i32 \<Rightarrow> usize \<Rightarrow> proc \<Rightarrow> proc \<Rightarrow> os \<Rightarrow> os" where
  "os_exit code p P I s =
     s\<lparr>procs := (procs s)(p := Some \<lparr>p_children = [], p_state = PZombie code\<rparr>,
         init_pid s := Some (I\<lparr>p_children := p_children I @ p_children P\<rparr>)),
       on_hart := None\<rparr>"

definition os_yield :: "usize \<Rightarrow> proc \<Rightarrow> os \<Rightarrow> os" where
  "os_yield p P s = s\<lparr>procs := (procs s)(p := Some (P\<lparr>p_state := PReady\<rparr>)), runq := runq s @ [p], on_hart := None\<rparr>"

definition os_run :: "usize \<Rightarrow> usize list \<Rightarrow> proc \<Rightarrow> os \<Rightarrow> os" where
  "os_run p q P s = s\<lparr>procs := (procs s)(p := Some (P\<lparr>p_state := PRunning\<rparr>)), runq := q, on_hart := Some p\<rparr>"

text \<open>The effect of an event, when it is possible: all but \<open>ORun\<close> are events of the process on the hart.\<close>

fun os_next :: "os_event \<Rightarrow> os \<Rightarrow> os option" where
  "os_next ORun s =
     (case (on_hart s, runq s) of
        (None, p # q) \<Rightarrow> map_option (\<lambda>P. os_run p q P s) (procs s p)
      | _ \<Rightarrow> None)"
| "os_next e s =
     Option.bind (on_hart s) (\<lambda>p.
     Option.bind (procs s p) (\<lambda>P.
     case e of
       OFork n \<Rightarrow> if procs s n = None then Some (os_fork n p P s) else None
     | OExit code \<Rightarrow> if p = init_pid s then None else map_option (\<lambda>I. os_exit code p P I s) (procs s (init_pid s))
     | OYield \<Rightarrow> Some (os_yield p P s)
     | OWait pid \<Rightarrow> Some (snd (snd (os_wait pid p P s)))
     | ORun \<Rightarrow> None))"

inductive os_steps :: "os \<Rightarrow> os_event list \<Rightarrow> os \<Rightarrow> bool" for s where
  here: "os_steps s [] s"
| more: "os_steps s es s' \<Longrightarrow> os_next e s' = Some s'' \<Longrightarrow> os_steps s (es @ [e]) s''"

lemma os_steps_one: "os_next e s = Some s' \<Longrightarrow> os_steps s [e] s'"
  using os_steps.more [OF os_steps.here] by fastforce

lemma os_steps_trans:
  assumes "os_steps s es s'" and "os_steps s' fs s''"
  shows "os_steps s (es @ fs) s''"
  using assms(2)
proof induction
  case here
  then show ?case using assms(1) by simp
next
  case (more gs s1 e s2)
  then show ?case using os_steps.more [of s "es @ gs" s1 e s2] by simp
qed

subsection \<open>Implementations\<close>

text \<open>After start-up there is one process, the initial one.\<close>

definition os_boot :: os where
  "os_boot = \<lparr>procs = [0 \<mapsto> \<lparr>p_children = [], p_state = PReady\<rparr>], runq = [0], on_hart = None, init_pid = 0\<rparr>"

text \<open>
  An implementation has states with an invariant, of which some are initial, and steps that are sequences
  of events.  Whatever the events preserve holds of the abstraction of every state it reaches.
\<close>

locale os_implementation =
  fixes abs :: "'s \<Rightarrow> os" and booted :: "'s \<Rightarrow> bool" and step :: "'s \<Rightarrow> 's \<Rightarrow> bool" and inv :: "'s \<Rightarrow> bool"
  assumes booted_abs: "booted s \<Longrightarrow> inv s \<and> abs s = os_boot"
    and step_abs: "inv s \<Longrightarrow> step s s' \<Longrightarrow> inv s' \<and> (\<exists>es. os_steps (abs s) es (abs s'))"
begin

lemma run_refines:
  assumes "inv s" and "step\<^sup>*\<^sup>* s s'"
  shows "inv s' \<and> (\<exists>es. os_steps (abs s) es (abs s'))"
  using assms(2)
proof induction
  case base
  then show ?case using assms(1) os_steps.here by blast
next
  case (step s1 s2)
  then show ?case using step_abs [of s1 s2] os_steps_trans by blast
qed

lemma run_from_boot:
  assumes "booted s" and "step\<^sup>*\<^sup>* s s'"
  shows "\<exists>es. os_steps os_boot es (abs s')"
  using run_refines [OF _ assms(2)] booted_abs [OF assms(1)] by simp

lemma invariant:
  assumes "booted s" and "step\<^sup>*\<^sup>* s s'" and "I os_boot" and "\<And>a e b. I a \<Longrightarrow> os_next e a = Some b \<Longrightarrow> I b"
  shows "I (abs s')"
proof -
  have "I b" if "os_steps a es b" "I a" for a es b using that by (induction rule: os_steps.induct) (auto intro: assms(4))
  then show ?thesis using run_from_boot [OF assms(1,2)] assms(3) by blast
qed

end

end
