(* ===== verification/Os_Refinement.thy ===== *)
theory Os_Refinement
  imports Schedule Os_Spec
begin

text \<open>
  The kernel implements \<open>Os_Spec\<close>.  The abstraction reads the processes off the cells of the control blocks;
  every operation on processes is an event of the specification, and every step of the machine is a
  sequence of events.
\<close>

subsection \<open>The abstraction\<close>

abbreviation cpid :: "ArcInner \<Rightarrow> usize" where
  "cpid c \<equiv> pid_num (tcb_pid (arc_data c))"

definition abs_state :: "TaskControlBlockInner \<Rightarrow> pstate" where
  "abs_state i = (case task_status i of Ready \<Rightarrow> PReady | Running \<Rightarrow> PRunning | Zombie \<Rightarrow> PZombie (exit_code i))"

lemma abs_state_upd [simp]: "abs_state (i\<lparr>children := us\<rparr>) = abs_state i" "abs_state (i\<lparr>parent := p\<rparr>) = abs_state i"
  by (simp_all add: abs_state_def split: TaskStatus.split)

definition abs_proc :: "(task_ref \<Rightarrow> ArcInner option) \<Rightarrow> ArcInner \<Rightarrow> proc" where
  "abs_proc f c = \<lparr>p_children = map (\<lambda>u. cpid (the (f u))) (children (inner_of c)), p_state = abs_state (inner_of c)\<rparr>"

definition live_cells :: "(task_ref \<Rightarrow> ArcInner option) \<Rightarrow> nat \<Rightarrow> ArcInner list" where
  "live_cells f n = List.map_filter f [0..<n]"

definition abs_procs :: "(task_ref \<Rightarrow> ArcInner option) \<Rightarrow> nat \<Rightarrow> usize \<Rightarrow> proc option" where
  "abs_procs f n = map_of (map (\<lambda>c. (cpid c, abs_proc f c)) (live_cells f n))"

definition abs_os :: "kernel \<Rightarrow> os" where
  "abs_os k =
     \<lparr>procs = abs_procs (cellk k) (length (arcs k)), runq = map (\<lambda>u. cpid (kid k u)) (queue k),
      on_hart = map_option (\<lambda>u. cpid (kid k u)) (cur k), init_pid = cpid (kid k (the (INITPROC k)))\<rparr>"

subsection \<open>Processes by pid\<close>

text \<open>No two cells have the same pid, and all cells have indexes below \<open>n\<close>.\<close>

definition pids_distinct :: "(task_ref \<Rightarrow> ArcInner option) \<Rightarrow> nat \<Rightarrow> bool" where
  "pids_distinct f n \<longleftrightarrow> dom f \<subseteq> {..<n} \<and> (\<forall>t u c d. f t = Some c \<longrightarrow> f u = Some d \<longrightarrow> cpid c = cpid d \<longrightarrow> t = u)"

lemma live_cells_set: "set (live_cells f n) = {c. \<exists>t < n. f t = Some c}"
  by (auto simp: live_cells_def map_filter_def image_iff) (metis option.sel)

lemma distinct_live_pids:
  assumes "pids_distinct f n"
  shows "distinct (map cpid (live_cells f m))"
proof (induction m)
  case 0
  then show ?case by (simp add: live_cells_def map_filter_def)
next
  case (Suc m)
  have "live_cells f (Suc m) = live_cells f m @ (case f m of None \<Rightarrow> [] | Some c \<Rightarrow> [c])"
    by (simp add: live_cells_def map_filter_def split: option.splits)
  moreover have "cpid c \<notin> cpid ` set (live_cells f m)" if "f m = Some c" for c
  proof
    assume "cpid c \<in> cpid ` set (live_cells f m)"
    then obtain t d where "t < m" "f t = Some d" "cpid d = cpid c" by (auto simp: live_cells_set)
    with that assms show False unfolding pids_distinct_def by (metis less_irrefl)
  qed
  ultimately show ?case using Suc by (auto split: option.splits)
qed

lemma abs_procs_Some:
  assumes "pids_distinct f n" and "f t = Some c"
  shows "abs_procs f n (cpid c) = Some (abs_proc f c)"
proof -
  have "t < n" using assms by (auto simp: pids_distinct_def)
  then have "c \<in> set (live_cells f n)" using assms(2) by (auto simp: live_cells_set)
  then have "(cpid c, abs_proc f c) \<in> set (map (\<lambda>c. (cpid c, abs_proc f c)) (live_cells f n))" by auto
  moreover have "distinct (map fst (map (\<lambda>c. (cpid c, abs_proc f c)) (live_cells f n)))"
    using distinct_live_pids [OF assms(1)] by (simp add: comp_def)
  ultimately show ?thesis unfolding abs_procs_def by (intro map_of_is_SomeI)
qed

lemma abs_procs_None:
  assumes "\<forall>t c. f t = Some c \<longrightarrow> cpid c \<noteq> p"
  shows "abs_procs f n p = None"
  using assms by (fastforce simp: abs_procs_def map_of_eq_None_iff live_cells_set)

lemma abs_procs_eqI:
  assumes "pids_distinct f n" and "\<And>t c. f t = Some c \<Longrightarrow> F (cpid c) = Some (abs_proc f c)"
    and "\<And>p. (\<forall>t c. f t = Some c \<longrightarrow> cpid c \<noteq> p) \<Longrightarrow> F p = None"
  shows "abs_procs f n = F"
proof
  fix p
  show "abs_procs f n p = F p"
  proof (cases "\<exists>t c. f t = Some c \<and> cpid c = p")
    case True
    then show ?thesis using abs_procs_Some [OF assms(1)] assms(2) by fastforce
  next
    case False
    then show ?thesis using abs_procs_None [of f p n] assms(3) [of p] by simp
  qed
qed

lemma proc_inv_pids:
  assumes "proc_inv k"
  shows "pids_distinct (cellk k) (length (arcs k))"
proof -
  have pk: "pids_ok (cellk k) (PID_ALLOCATOR k)" using assms by (simp add: proc_inv_def)
  have "t = u" if "cellk k t = Some c" "cellk k u = Some d" "cpid c = cpid d" for t u c d
    using pk that PidHandle.expand [OF that(3)] unfolding pids_ok_def by blast
  moreover have "dom (cellk k) \<subseteq> {..<length (arcs k)}" by (auto simp: cellk_def split: if_splits)
  ultimately show ?thesis by (auto simp: pids_distinct_def)
qed

text \<open>The cell of a task that keeps its pid is replaced, and the others keep pid, children and state.\<close>

lemma abs_procs_upd:
  assumes pd: "pids_distinct f n" and c: "f t = Some c" and d: "cpid d = cpid c"
  shows "abs_procs (f(t := Some d)) n = (abs_procs f n)(cpid c := Some (abs_proc f d))"
proof (rule abs_procs_eqI)
  have same: "map_option cpid ((f(t := Some d)) u) = map_option cpid (f u)" for u using c d by simp
  then have the_same: "cpid (the ((f(t := Some d)) u)) = cpid (the (f u))" for u using c d by (cases "u = t") auto
  then have ap: "abs_proc (f(t := Some d)) e = abs_proc f e" for e by (simp add: abs_proc_def)
  show "pids_distinct (f(t := Some d)) n"
    using pd c d unfolding pids_distinct_def by (auto split: if_splits; metis)
  fix u e
  assume u: "(f(t := Some d)) u = Some e"
  show "((abs_procs f n)(cpid c := Some (abs_proc f d))) (cpid e) = Some (abs_proc (f(t := Some d)) e)"
  proof (cases "u = t")
    case True
    then show ?thesis unfolding ap using u d by simp
  next
    case False
    then have "f u = Some e" using u by simp
    moreover have "cpid e \<noteq> cpid c" using pd c False \<open>f u = Some e\<close> unfolding pids_distinct_def by blast
    ultimately show ?thesis unfolding ap using abs_procs_Some [OF pd] by simp
  qed
next
  fix p
  assume no: "\<forall>u e. (f(t := Some d)) u = Some e \<longrightarrow> cpid e \<noteq> p"
  then have "p \<noteq> cpid c" using d by (metis fun_upd_same)
  moreover have "\<forall>u e. f u = Some e \<longrightarrow> cpid e \<noteq> p" using no c \<open>p \<noteq> cpid c\<close> by (metis fun_upd_other option.inject)
  ultimately show "((abs_procs f n)(cpid c := Some (abs_proc f d))) p = None" using abs_procs_None [of f p n] by simp
qed

lemma abs_proc_cong:
  assumes "\<forall>u \<in> set (children (inner_of c)). cpid (the (g u)) = cpid (the (f u))"
  shows "abs_proc g c = abs_proc f c"
  using assms by (simp add: abs_proc_def)

text \<open>A new cell that no other refers to.\<close>

lemma abs_procs_new:
  assumes pd: "pids_distinct f n" and u: "f u = None" "u < m" "n \<le> m" and new: "\<forall>t c. f t = Some c \<longrightarrow> cpid c \<noteq> cpid e"
    and no: "\<forall>t c. f t = Some c \<longrightarrow> u \<notin> set (children (inner_of c))"
  shows "pids_distinct (f(u := Some e)) m" and "abs_procs (f(u := Some e)) m = (abs_procs f n)(cpid e := Some (abs_proc (f(u := Some e)) e))"
proof -
  show pd': "pids_distinct (f(u := Some e)) m"
    using pd u new unfolding pids_distinct_def by (auto split: if_splits; metis)
  have ap: "abs_proc (f(u := Some e)) c = abs_proc f c" if "f t = Some c" for t c
    using no that by (intro abs_proc_cong) auto
  show "abs_procs (f(u := Some e)) m = (abs_procs f n)(cpid e := Some (abs_proc (f(u := Some e)) e))"
  proof (rule abs_procs_eqI [OF pd'])
    fix t c
    assume t: "(f(u := Some e)) t = Some c"
    show "((abs_procs f n)(cpid e := Some (abs_proc (f(u := Some e)) e))) (cpid c) = Some (abs_proc (f(u := Some e)) c)"
      using t ap [of t c] abs_procs_Some [OF pd, of t c] new by (cases "t = u") auto
  next
    fix p
    assume "\<forall>t c. (f(u := Some e)) t = Some c \<longrightarrow> cpid c \<noteq> p"
    then have "p \<noteq> cpid e" "\<forall>t c. f t = Some c \<longrightarrow> cpid c \<noteq> p" using u(1) by (metis fun_upd_same, metis fun_upd_other option.distinct(1))
    then show "((abs_procs f n)(cpid e := Some (abs_proc (f(u := Some e)) e))) p = None" using abs_procs_None [of f p n] by simp
  qed
qed

text \<open>A cell that no other refers to is removed.\<close>

lemma abs_procs_remove:
  assumes pd: "pids_distinct f n" and z: "f u = Some z" and no: "\<forall>t c. f t = Some c \<longrightarrow> t \<noteq> u \<longrightarrow> u \<notin> set (children (inner_of c))"
  shows "abs_procs (f(u := None)) n = (abs_procs f n)(cpid z := None)"
proof (rule abs_procs_eqI)
  show "pids_distinct (f(u := None)) n" using pd unfolding pids_distinct_def by (auto split: if_splits)
  fix t c
  assume t: "(f(u := None)) t = Some c"
  then have tu: "t \<noteq> u" "f t = Some c" by (auto split: if_splits)
  moreover have "cpid c \<noteq> cpid z" using pd z tu unfolding pids_distinct_def by blast
  moreover have "abs_proc (f(u := None)) c = abs_proc f c" using no tu by (intro abs_proc_cong) auto
  ultimately show "((abs_procs f n)(cpid z := None)) (cpid c) = Some (abs_proc (f(u := None)) c)" using abs_procs_Some [OF pd] by simp
next
  fix p
  assume no: "\<forall>t c. (f(u := None)) t = Some c \<longrightarrow> cpid c \<noteq> p"
  show "((abs_procs f n)(cpid z := None)) p = None"
  proof (cases "p = cpid z")
    case False
    then have "\<forall>t c. f t = Some c \<longrightarrow> cpid c \<noteq> p" using no z by (metis fun_upd_other option.inject)
    then show ?thesis using False abs_procs_None [of f p n] by simp
  qed simp
qed

subsection \<open>The operations\<close>

text \<open>What the abstraction of a state with a running task looks like.\<close>

lemma abs_running:
  assumes inv: "proc_inv k" and c: "running k t c"
  shows "on_hart (abs_os k) = Some (cpid c)" and "procs (abs_os k) (cpid c) = Some (abs_proc (cellk k) c)"
    and "INITPROC k = Some init \<Longrightarrow> init_pid (abs_os k) = cpid (kid k init)"
  using c abs_procs_Some [OF proc_inv_pids [OF inv]] by (auto simp: abs_os_def running_def)

lemma os_eqI:
  fixes s s' :: os
  assumes "procs s = procs s'" and "runq s = runq s'" and "on_hart s = on_hart s'" and "init_pid s = init_pid s'"
  shows "s = s'"
  using assms by simp

lemma abs_os_cong:
  assumes "cellk k' = cellk k" and "length (arcs k') = length (arcs k)" and "TASK_MANAGER k' = TASK_MANAGER k"
    and "PROCESSOR k' = PROCESSOR k" and "INITPROC k' = INITPROC k"
  shows "abs_os k' = abs_os k"
  using assms by (simp add: abs_os_def)

text \<open>One cell changes and keeps its pid.\<close>

lemma abs_os_upd:
  assumes inv: "proc_inv k" and c: "cellk k t = Some c" and d: "cpid d = cpid c" and k': "cellk k' = (cellk k)(t := Some d)"
    and l: "length (arcs k') = length (arcs k)" and i: "INITPROC k' = INITPROC k"
  shows "procs (abs_os k') = (procs (abs_os k))(cpid c := Some (abs_proc (cellk k) d))" and "init_pid (abs_os k') = init_pid (abs_os k)"
    and "runq (abs_os k') = map (\<lambda>u. cpid (kid k u)) (queue k')" and "on_hart (abs_os k') = map_option (\<lambda>u. cpid (kid k u)) (cur k')"
proof -
  have same: "cpid (kid k' u) = cpid (kid k u)" for u using c d by (cases "u = t") (simp_all add: k')
  show "procs (abs_os k') = (procs (abs_os k))(cpid c := Some (abs_proc (cellk k) d))"
    using abs_procs_upd [OF proc_inv_pids [OF inv] c d] by (simp add: abs_os_def k' l)
  show "init_pid (abs_os k') = init_pid (abs_os k)" "runq (abs_os k') = map (\<lambda>u. cpid (kid k u)) (queue k')"
    "on_hart (abs_os k') = map_option (\<lambda>u. cpid (kid k u)) (cur k')"
    by (simp_all add: abs_os_def i same)
qed

lemma suspend_refines:
  assumes inv: "proc_inv k" and cur: "cur k = Some t" and s: "suspend_current_and_run_next r k = Inr k'"
  shows "os_next OYield (abs_os k) = Some (abs_os k')"
proof -
  from proc_inv_running [OF inv cur] obtain c where c: "running k t c" by metis
  note ab = abs_running [OF inv c]
  have ck: "cellk k t = Some c" using c by (simp add: running_def)
  define d where "d = set_inner ((inner_of c)\<lparr>task_status := Ready, task_cx := cpu k\<rparr>) c"
  have k': "k' = (arc_set t (Some d) k)\<lparr>PROCESSOR := (PROCESSOR k)\<lparr>current := None\<rparr>, TASK_MANAGER := tm_add t (TASK_MANAGER k),
      cpu := idle_task_cx (PROCESSOR k), frames := (frames k)(t := r)\<rparr>"
    using s suspend_eq [OF c, of r] by (simp add: d_def)
  have cells: "cellk k' = (cellk k)(t := Some d)" using ck by (simp add: k' cellk_arc_set)
  have d: "cpid d = cpid c" "abs_proc (cellk k) d = (abs_proc (cellk k) c)\<lparr>p_state := PReady\<rparr>"
    by (simp_all add: d_def abs_proc_def abs_state_def)
  note u = abs_os_upd [OF inv ck d(1) cells]
  have "abs_os k' = os_yield (cpid c) (abs_proc (cellk k) c) (abs_os k)"
    by (rule os_eqI) (use u d(2) ck in \<open>simp_all add: os_yield_def k' tm_add_def arc_set_def abs_os_def\<close>)
  then show ?thesis using ab by simp
qed

lemma run_event:
  assumes inv: "proc_inv k" and idle: "cur k = None" and r: "run_tasks_step k = Inr (Some t, k')"
  shows "os_next ORun (abs_os k) = Some (abs_os k')"
proof -
  obtain q where q: "queue k = t # q" using proc_inv_run [OF inv idle] r by auto
  obtain init where i: "table_inv (cellk k) (length (arcs k)) (queue k) (cur k) init" using inv by (auto simp: proc_inv_def)
  have "t \<in> set (queue k)" using q by simp
  then obtain c where c: "cellk k t = Some c" unfolding table_invD(9) [OF i] by (auto simp: status_def)
  note nb = table_invD(3) [OF i c]
  define d where "d = set_inner ((inner_of c)\<lparr>task_status := Running\<rparr>) c"
  have k': "k' = (arc_set t (Some d) k)\<lparr>TASK_MANAGER := (TASK_MANAGER k)\<lparr>ready_queue := q\<rparr>,
      PROCESSOR := (PROCESSOR k)\<lparr>current := Some t, idle_task_cx := cpu k\<rparr>, cpu := task_cx (inner_of c)\<rparr>"
    using r run_tasks_step_Cons [OF q c nb idle] by (simp add: d_def)
  have cells: "cellk k' = (cellk k)(t := Some d)" using c by (simp add: k' cellk_arc_set)
  have d: "cpid d = cpid c" "abs_proc (cellk k) d = (abs_proc (cellk k) c)\<lparr>p_state := PRunning\<rparr>"
    by (simp_all add: d_def abs_proc_def abs_state_def)
  note u = abs_os_upd [OF inv c d(1) cells]
  have "abs_os k' = os_run (cpid c) (map (\<lambda>u. cpid (kid k u)) q) (abs_proc (cellk k) c) (abs_os k)"
    by (rule os_eqI) (use u d(2) c in \<open>simp_all add: os_run_def k' arc_set_def\<close>)
  moreover have "procs (abs_os k) (cpid c) = Some (abs_proc (cellk k) c)" using abs_procs_Some [OF proc_inv_pids [OF inv] c] by (simp add: abs_os_def)
  moreover have "on_hart (abs_os k) = None" "runq (abs_os k) = cpid c # map (\<lambda>u. cpid (kid k u)) q" using idle q c by (simp_all add: abs_os_def)
  ultimately show ?thesis by simp
qed

text \<open>References to children are to live cells.\<close>

lemma children_live:
  assumes "proc_inv k" and "cellk k t = Some c" and "u \<in> set (children (inner_of c))"
  obtains d where "cellk k u = Some d"
proof -
  obtain init where i: "table_inv (cellk k) (length (arcs k)) (queue k) (cur k) init" using assms(1) by (auto simp: proc_inv_def)
  from table_invD(7) [OF i assms(2,3)] that show ?thesis by blast
qed

lemma fork_refines:
  assumes inv: "proc_inv k" and cur: "cur k = Some t" and room: "pida_room (PID_ALLOCATOR k)" and r: "sys_fork env k = Inr (Returns n k')"
  shows "os_next (OFork n) (abs_os k) = Some (abs_os k')"
proof -
  from proc_inv_running [OF inv cur] obtain c where c: "running k t c" by metis
  note ab = abs_running [OF inv c]
  have ck: "cellk k t = Some c" using c by (simp add: running_def)
  from sys_fork_effect [OF c r] obtain u h ms ppn st1 st2 cx where n: "n = pid_num h" and fk: "forked env t c k u k' h ms ppn st1 st2 cx"
    and q: "TASK_MANAGER k' = tm_add u (TASK_MANAGER k)" by (metis flow.inject(1))
  have inv': "proc_inv k'" using proc_inv_sys_fork [OF inv cur room r] by auto
  let ?f = "cellk k" and ?d = "set_inner ((inner_of c)\<lparr>children := children (inner_of c) @ [u]\<rparr>) c" and ?e = "child_cell env h t (inner_of c) ms ppn 2"
  have u: "u = length (arcs k)" and cells: "cellk k' = ?f(t := Some ?d, u := Some ?e)" and l: "length (arcs k') = Suc (length (arcs k))"
    and pr: "PROCESSOR k' = PROCESSOR k" "INITPROC k' = INITPROC k" using fk by (auto simp: forked_def)
  have tu: "t \<noteq> u" and fu: "?f u = None" using cellk_length [OF ck] u by (auto simp: cellk_def)
  have e: "cpid ?e = n" "abs_proc g ?e = \<lparr>p_children = [], p_state = PReady\<rparr>" for g
    by (simp_all add: child_cell_def n abs_proc_def abs_state_def)
  have new: "cpid b \<noteq> cpid ?e" if "?f v = Some b" for v b
  proof
    assume eq: "cpid b = cpid ?e"
    have v: "v \<noteq> u" using that fu by auto
    have "\<exists>b'. cellk k' v = Some b' \<and> cpid b' = cpid ?e" using that eq v ck by (cases "v = t") (auto simp: cells)
    moreover have "cellk k' u = Some ?e" by (simp add: cells)
    ultimately show False using proc_inv_pids [OF inv'] v unfolding pids_distinct_def by blast
  qed
  have no: "u \<notin> set (children (inner_of b))" if "?f v = Some b" for v b
    using children_live [OF inv that, of u] fu by (metis option.distinct(1))
  have mn: "u < Suc (length (arcs k))" "length (arcs k) \<le> Suc (length (arcs k))" using u by simp_all
  note an = abs_procs_new [OF proc_inv_pids [OF inv] fu mn, of ?e]
  have cells': "cellk k' = (?f(u := Some ?e))(t := Some ?d)" using tu cells by (simp add: fun_upd_twist)
  have "abs_procs (cellk k') (Suc (length (arcs k))) = (abs_procs (?f(u := Some ?e)) (Suc (length (arcs k))))(cpid c := Some (abs_proc (?f(u := Some ?e)) ?d))"
    unfolding cells' by (rule abs_procs_upd [OF an(1)]) (use new no ck tu in auto)
  moreover have "abs_proc (?f(u := Some ?e)) ?d = (abs_proc ?f c)\<lparr>p_children := p_children (abs_proc ?f c) @ [n]\<rparr>"
    using no [OF ck] e(1) by (auto simp: abs_proc_def)
  moreover have "abs_procs (?f(u := Some ?e)) (Suc (length (arcs k))) = (procs (abs_os k))(n := Some \<lparr>p_children = [], p_state = PReady\<rparr>)"
    using an(2) new no e by (simp add: abs_os_def)
  moreover have "cpid c \<noteq> n" using new [OF ck] e(1) by simp
  ultimately have ps: "procs (abs_os k') = procs (os_fork n (cpid c) (abs_proc ?f c) (abs_os k))"
    unfolding os_fork_def by (simp add: abs_os_def l fun_upd_twist)
  have same: "cpid (kid k' v) = cpid (kid k v)" if "?f v \<noteq> None" for v
    using that fu ck by (cases "v = t") (auto simp: cells)
  obtain init where i: "INITPROC k = Some init" "table_inv ?f (length (arcs k)) (queue k) (cur k) init" using inv by (auto simp: proc_inv_def)
  have "?f v \<noteq> None" if "v \<in> set (queue k)" for v using that unfolding table_invD(9) [OF i(2)] by (auto simp: status_def)
  then have rq: "map (\<lambda>v. cpid (kid k' v)) (queue k) = map (\<lambda>v. cpid (kid k v)) (queue k)" using same by simp
  have "cpid (kid k' u) = n" using e(1) by (simp add: cells)
  then have "runq (abs_os k') = runq (abs_os k) @ [n]" using rq q by (simp add: abs_os_def tm_add_def)
  moreover have "cpid (kid k' t) = cpid (kid k t)" "cpid (kid k' init) = cpid (kid k init)"
    using same ck table_invD(1) [OF i(2)] by auto
  then have "on_hart (abs_os k') = on_hart (abs_os k)" "init_pid (abs_os k') = init_pid (abs_os k)"
    using pr cur i(1) by (simp_all add: abs_os_def)
  ultimately have "abs_os k' = os_fork n (cpid c) (abs_proc ?f c) (abs_os k)"
    by (intro os_eqI ps) (simp_all add: os_fork_def)
  moreover have "procs (abs_os k) n = None" using new e(1) by (simp add: abs_os_def abs_procs_None)
  ultimately show ?thesis using ab by simp
qed

text \<open>Cells change and keep their pids.\<close>

lemma same_pids:
  assumes pd: "pids_distinct f n" and eq: "\<forall>u. map_option cpid (g u) = map_option cpid (f u)"
  shows "pids_distinct g n" and "cpid (the (g u)) = cpid (the (f u))" and "abs_proc g d = abs_proc f d"
    and "(\<forall>u d. g u = Some d \<longrightarrow> cpid d \<noteq> p) \<Longrightarrow> f v = Some b \<Longrightarrow> cpid b \<noteq> p"
proof -
  have fwd: "\<exists>d'. f u = Some d' \<and> cpid d' = cpid d" if "g u = Some d" for u d using eq [rule_format, of u] that by (cases "f u") auto
  have bwd: "\<exists>d'. g u = Some d' \<and> cpid d' = cpid d" if "f u = Some d" for u d using eq [rule_format, of u] that by (cases "g u") auto
  have "dom g = dom f" using fwd bwd by (auto simp: dom_def; blast)
  moreover have "t = u" if "g t = Some c" "g u = Some d" "cpid c = cpid d" for t u c d
    using fwd [OF that(1)] fwd [OF that(2)] that(3) pd unfolding pids_distinct_def by metis
  ultimately show "pids_distinct g n" using pd unfolding pids_distinct_def by blast
  show same: "cpid (the (g u)) = cpid (the (f u))" for u using eq [rule_format, of u] by (cases "f u"; cases "g u") auto
  show "abs_proc g d = abs_proc f d" by (simp add: abs_proc_def same)
  show "(\<forall>u d. g u = Some d \<longrightarrow> cpid d \<noteq> p) \<Longrightarrow> f v = Some b \<Longrightarrow> cpid b \<noteq> p" using bwd by metis
qed

lemma abs_procs_exit:
  fixes us :: "task_ref list"
  assumes pd: "pids_distinct f n" and c: "f t = Some c" and i0: "f init = Some i0" and ti: "t \<noteq> init"
    and z: "cpid z = cpid c" and i: "cpid i = cpid i0" and h: "\<forall>d. cpid (h d) = cpid d \<and> abs_proc f (h d) = abs_proc f d"
  defines "g \<equiv> exit_table f t z init i h us"
  shows "abs_procs g n = (abs_procs f n)(cpid c := Some (abs_proc f z), cpid i0 := Some (abs_proc f i))" (is "_ = ?F")
    and "cpid (the (g u)) = cpid (the (f u))"
proof -
  have g: "g u = (if u = t then Some z else if u = init then Some i else if u \<in> set us then map_option h (f u) else f u)" for u
    by (simp add: g_def exit_table_def)
  have eq: "\<forall>u. map_option cpid (g u) = map_option cpid (f u)"
    using c i0 z i h by (simp add: g option.map_comp comp_def)
  note sp = same_pids [OF pd eq]
  have other: "cpid b \<noteq> cpid c'" if "f v = Some b" "f w = Some c'" "v \<noteq> w" for v w b c' using pd that unfolding pids_distinct_def by blast
  show "abs_procs g n = ?F"
  proof (rule abs_procs_eqI [OF sp(1)])
    fix u d
    assume u: "g u = Some d"
    consider "u = t" | "u = init" "u \<noteq> t" | "u \<noteq> t" "u \<noteq> init" by blast
    then show "?F (cpid d) = Some (abs_proc g d)"
    proof cases
      case 1
      then show ?thesis using u z other [OF c i0 ti] unfolding sp(3) by (simp add: g)
    next
      case 2
      then show ?thesis using u i unfolding sp(3) by (simp add: g)
    next
      case 3
      then obtain b where b: "f u = Some b" "cpid d = cpid b" "abs_proc f d = abs_proc f b"
        using u h by (auto simp: g split: if_splits)
      then show ?thesis unfolding sp(3) using abs_procs_Some [OF pd b(1)] other [OF b(1) c] other [OF b(1) i0] 3 by simp
    qed
  next
    fix p
    assume "\<forall>u d. g u = Some d \<longrightarrow> cpid d \<noteq> p"
    note no = sp(4) [OF this]
    then show "?F p = None" using no [OF c] no [OF i0] abs_procs_None [of f p n] by auto
  qed
  show "cpid (the (g u)) = cpid (the (f u))" by (rule sp(2))
qed

lemma exit_refines:
  assumes inv: "proc_inv k" and cur: "cur k = Some t" and r: "exit_current_and_run_next env code k = Some (Inr k')"
  shows "os_next (OExit code) (abs_os k) = Some (abs_os k')"
proof -
  from proc_inv_running [OF inv cur] obtain c where c: "running k t c" by metis
  note ab = abs_running [OF inv c] and pd = proc_inv_pids [OF inv]
  have ck: "cellk k t = Some c" using c by (simp add: running_def)
  from proc_inv_init [OF inv] obtain init i0 where i: "INITPROC k = Some init" "cellk k init = Some i0" by metis
  have ti: "t \<noteq> init" using exit_initproc [OF inv cur] i(1) r by auto
  from exit_effect_inv [OF inv c i(1) ti i(2), of env code] obtain k2
    where "exit_current_and_run_next env code k = Some (bind (recycle_data_pages (memory_set (inner_of c), mm k)) (\<lambda>(ms, st). Inr (k2 ms st)))"
      "\<forall>ms st. recycle_data_pages (memory_set (inner_of c), mm k) = Inr (ms, st) \<longrightarrow> exited t c init i0 code k (k2 ms st)" by blast
  with r have "exited t c init i0 code k k'" by (auto elim!: bind_InrE)
  then obtain ms where cells: "cellk k' = exit_table (cellk k) t (zombie_cell c code ms) init
        (set_inner ((inner_of i0)\<lparr>children := children (inner_of i0) @ children (inner_of c)\<rparr>) i0)
        (\<lambda>d. set_inner ((inner_of d)\<lparr>parent := Some init\<rparr>) d) (children (inner_of c))"
    and rest: "length (arcs k') = length (arcs k)" "TASK_MANAGER k' = TASK_MANAGER k" "PROCESSOR k' = (PROCESSOR k)\<lparr>current := None\<rparr>" "INITPROC k' = INITPROC k"
    by (auto simp: exited_def)
  let ?f = "cellk k" and ?i = "set_inner ((inner_of i0)\<lparr>children := children (inner_of i0) @ children (inner_of c)\<rparr>) i0"
  have z: "cpid (zombie_cell c code ms) = cpid c" "abs_proc ?f (zombie_cell c code ms) = \<lparr>p_children = [], p_state = PZombie code\<rparr>"
    "abs_proc ?f ?i = (abs_proc ?f i0)\<lparr>p_children := p_children (abs_proc ?f i0) @ p_children (abs_proc ?f c)\<rparr>"
    by (simp_all add: zombie_cell_def abs_proc_def abs_state_def [of "_\<lparr>memory_set := _\<rparr>"])
  note ex = abs_procs_exit [OF pd ck i(2) ti z(1), where i = ?i and h = "\<lambda>d. set_inner ((inner_of d)\<lparr>parent := Some init\<rparr>) d"
      and us = "children (inner_of c)", folded cells]
  have same: "cpid (kid k' u) = cpid (kid k u)" for u using ex(2) by (simp add: abs_proc_def)
  have "abs_procs (cellk k') (length (arcs k)) = (abs_procs ?f (length (arcs k)))(cpid c := Some (abs_proc ?f (zombie_cell c code ms)), cpid i0 := Some (abs_proc ?f ?i))"
    using ex(1) by (simp add: abs_proc_def)
  then have "abs_os k' = os_exit code (cpid c) (abs_proc ?f c) (abs_proc ?f i0) (abs_os k)"
    using i unfolding z by (intro os_eqI) (simp_all add: abs_os_def os_exit_def rest same)
  moreover have "procs (abs_os k) (init_pid (abs_os k)) = Some (abs_proc ?f i0)" "init_pid (abs_os k) = cpid i0"
    using abs_procs_Some [OF pd i(2)] i by (simp_all add: abs_os_def)
  moreover have "cpid i0 \<noteq> cpid c" using pd ck i(2) ti unfolding pids_distinct_def by blast
  ultimately show ?thesis using ab by auto
qed

subsection \<open>Waiting\<close>

lemma abs_wait_lists:
  assumes inv: "proc_inv k" and f: "family k t c"
  shows "asked pid (abs_proc (cellk k) c) = map (\<lambda>u. cpid (kid k u)) (filter (\<lambda>u. wanted pid (kid k u)) (children (inner_of c)))"
    and "u \<in> set (children (inner_of c)) \<Longrightarrow> is_pzombie (abs_os k) (cpid (kid k u)) \<longleftrightarrow> task_status (inner_of (kid k u)) = Zombie"
    and "u \<in> set (children (inner_of c)) \<Longrightarrow> task_status (inner_of (kid k u)) = Zombie \<Longrightarrow> exit_code_of (abs_os k) (cpid (kid k u)) = exit_code (inner_of (kid k u))"
proof -
  have st: "map_option p_state (procs (abs_os k) (cpid (kid k u))) = Some (abs_state (inner_of (kid k u)))" if u: "u \<in> set (children (inner_of c))" for u
  proof -
    obtain d where "cellk k u = Some d" using f u unfolding family_def by blast
    then show ?thesis using abs_procs_Some [OF proc_inv_pids [OF inv]] by (simp add: abs_os_def abs_proc_def)
  qed
  show "asked pid (abs_proc (cellk k) c) = map (\<lambda>u. cpid (kid k u)) (filter (\<lambda>u. wanted pid (kid k u)) (children (inner_of c)))"
    by (simp add: asked_def abs_proc_def filter_map comp_def wanted_def getpid_def)
  show "is_pzombie (abs_os k) (cpid (kid k u)) \<longleftrightarrow> task_status (inner_of (kid k u)) = Zombie" if "u \<in> set (children (inner_of c))"
    unfolding is_pzombie_def st [OF that] by (simp add: abs_state_def split: TaskStatus.split)
  show "exit_code_of (abs_os k) (cpid (kid k u)) = exit_code (inner_of (kid k u))"
    if "u \<in> set (children (inner_of c))" "task_status (inner_of (kid k u)) = Zombie"
    unfolding exit_code_of_def st [OF that(1)] using that(2) by (simp add: abs_state_def)
qed

lemma remove1_map_first:
  assumes "h u \<notin> h ` set as"
  shows "remove1 (h u) (map h (as @ u # bs)) = map h (as @ bs)"
  using assms by (induction as) auto

text \<open>The abstraction of the state after a child was reaped.\<close>

lemma abs_os_reaped:
  assumes inv: "proc_inv k" and c: "running k t c" and us: "children (inner_of c) = as @ u # bs" and rp: "reaped t c u z ptr k k'"
  shows "abs_os k' = (abs_os k)\<lparr>procs := (procs (abs_os k))(cpid c := Some ((abs_proc (cellk k) c)\<lparr>p_children := remove1 (cpid z) (p_children (abs_proc (cellk k) c))\<rparr>), cpid z := None)\<rparr>"
proof -
  let ?f = "cellk k" and ?d = "set_inner ((inner_of c)\<lparr>children := as @ bs\<rparr>) c"
  have ck: "?f t = Some c" "cur k = Some t" and z: "?f u = Some z" using c rp by (auto simp: running_def reaped_def)
  have fam: "family k t c" by (rule proc_inv_family [OF inv c])
  have dis: "distinct (as @ u # bs)" "t \<noteq> u" using fam us by (auto simp: family_def)
  obtain as' bs' where ab: "as @ u # bs = as' @ u # bs'" "cellk k' = ?f(t := Some (set_inner ((inner_of c)\<lparr>children := as' @ bs'\<rparr>) c), u := None)"
    using rp us by (auto simp: reaped_def)
  have "distinct (as' @ u # bs')" using dis(1) unfolding ab(1) .
  then have "as = as' \<and> bs = bs'" using ab(1) dis(1) by (subst (asm) append_Cons_eq_iff) auto
  then have cells: "cellk k' = (?f(t := Some ?d))(u := None)" using ab(2) by simp
  have rest: "length (arcs k') = length (arcs k)" "TASK_MANAGER k' = TASK_MANAGER k" "PROCESSOR k' = PROCESSOR k" "INITPROC k' = INITPROC k"
    using rp by (auto simp: reaped_def)
  obtain init where i: "INITPROC k = Some init" "table_inv ?f (length (arcs k)) (queue k) (cur k) init" using inv by (auto simp: proc_inv_def)
  note pd = proc_inv_pids [OF inv]
  have only: "u \<notin> set (children (inner_of b))" if "?f v = Some b" "v \<noteq> t" for v b
  proof
    assume "u \<in> set (children (inner_of b))"
    then have "parent (inner_of z) = Some v" using table_invD(7) [OF i(2) that(1), of u] z by auto
    moreover have "parent (inner_of z) = Some t" using table_invD(7) [OF i(2) ck(1), of u] us z by auto
    ultimately show False using that(2) by simp
  qed
  have "pids_distinct (?f(t := Some ?d)) (length (arcs k))" by (rule same_pids(1) [OF pd]) (use ck in simp)
  then have "abs_procs (cellk k') (length (arcs k)) = (abs_procs (?f(t := Some ?d)) (length (arcs k)))(cpid z := None)"
    unfolding cells by (rule abs_procs_remove) (use z dis only in \<open>auto split: if_splits\<close>)
  also have "abs_procs (?f(t := Some ?d)) (length (arcs k)) = (abs_procs ?f (length (arcs k)))(cpid c := Some (abs_proc ?f ?d))"
    by (rule abs_procs_upd [OF pd ck(1)]) simp
  finally have ps: "abs_procs (cellk k') (length (arcs k)) = (abs_procs ?f (length (arcs k)))(cpid c := Some (abs_proc ?f ?d), cpid z := None)" .
  have "cpid (kid k v) \<noteq> cpid (kid k u)" if "v \<in> set as" for v
  proof -
    have "v \<in> set (children (inner_of c))" "v \<noteq> u" using that us dis(1) by auto
    moreover obtain b where "?f v = Some b" using fam \<open>v \<in> set (children (inner_of c))\<close> by (auto simp: family_def)
    ultimately show ?thesis using pd z unfolding pids_distinct_def by (metis option.sel)
  qed
  then have "cpid (kid k u) \<notin> (\<lambda>v. cpid (kid k v)) ` set as" by fastforce
  from remove1_map_first [of "\<lambda>v. cpid (kid k v)" u as bs, OF this]
  have "abs_proc ?f ?d = (abs_proc ?f c)\<lparr>p_children := remove1 (cpid z) (p_children (abs_proc ?f c))\<rparr>"
    using z by (simp add: abs_proc_def us)
  moreover have "cpid (kid k' v) = cpid (kid k v)" if "v \<noteq> u" for v using that ck by (cases "v = t") (simp_all add: cells)
  moreover have "u \<notin> set (queue k)" "u \<noteq> init" "cur k \<noteq> Some u"
    using rp z ck(2) dis(2) table_invD(6) [OF i(2)] unfolding table_invD(9) [OF i(2)] by (auto simp: reaped_def status_def)
  ultimately have "\<forall>v \<in> set (queue k). cpid (kid k' v) = cpid (kid k v)" "cpid (kid k' init) = cpid (kid k init)" "cpid (kid k' t) = cpid (kid k t)"
    and d: "abs_proc ?f ?d = (abs_proc ?f c)\<lparr>p_children := remove1 (cpid z) (p_children (abs_proc ?f c))\<rparr>" using dis(2) by metis+
  then show ?thesis using i(1) ck(2) ps unfolding d by (intro os_eqI) (simp_all add: abs_os_def rest)
qed

text \<open>
  The answer of \<open>sys_waitpid\<close> and what it leaves are those of the specification; when a child was reaped, its
  exit code was written to the memory of the caller.
\<close>

lemma wait_refines:
  assumes inv: "proc_inv k" and c: "running k t c" and r: "sys_waitpid pid ptr k = Inr (Returns v k')"
  obtains code where "os_wait pid (cpid c) (abs_proc (cellk k) c) (abs_os k) = (v, code, abs_os k')"
    and "\<forall>x. code = Some x \<longrightarrow> (\<exists>u. reaped t c u (kid k u) ptr k k' \<and> exit_code (inner_of (kid k u)) = x)"
    and "code = None \<longrightarrow> k' = k"
proof -
  let ?P = "abs_proc (cellk k) c" and ?us = "children (inner_of c)" and ?n = "\<lambda>u. cpid (kid k u)"
  have fam: "family k t c" by (rule proc_inv_family [OF inv c])
  note wl = abs_wait_lists [OF inv fam]
  have zs: "filter (is_pzombie (abs_os k)) (asked pid ?P) = map ?n (filter (\<lambda>u. task_status (inner_of (kid k u)) = Zombie \<and> wanted pid (kid k u)) ?us)"
    unfolding wl(1) filter_map comp_def filter_filter by (rule arg_cong [of _ _ "map ?n"], rule filter_cong) (auto simp: wl(2))
  from sys_waitpid_cases [OF fam r]
  consider (none) "\<forall>u \<in> set ?us. \<not> wanted pid (kid k u)" "v = - 1" "k' = k"
    | (wait) "\<exists>u \<in> set ?us. wanted pid (kid k u)" "\<forall>u \<in> set ?us. wanted pid (kid k u) \<longrightarrow> task_status (inner_of (kid k u)) \<noteq> Zombie" "v = - 2" "k' = k"
    | (reap) as u bs where "?us = as @ u # bs" "wanted pid (kid k u)" "\<forall>a \<in> set as. \<not> (wanted pid (kid k a) \<and> task_status (inner_of (kid k a)) = Zombie)"
        "v = ?n u" "reaped t c u (kid k u) ptr k k'"
    unfolding getpid_def by auto
  then show ?thesis
  proof cases
    case none
    then have "asked pid ?P = []" unfolding wl(1) by (simp add: filter_empty_conv)
    then show ?thesis using none that [of None] by (simp add: os_wait_def)
  next
    case wait
    then have "asked pid ?P \<noteq> []" unfolding wl(1) by (simp add: filter_empty_conv)
    moreover have "filter (is_pzombie (abs_os k)) (asked pid ?P) = []" unfolding zs using wait(2) by (auto simp: filter_empty_conv)
    ultimately show ?thesis using wait that [of None] by (simp add: os_wait_def)
  next
    case reap
    have z: "task_status (inner_of (kid k u)) = Zombie" using reap(5) by (simp add: reaped_def)
    have "filter (\<lambda>u. task_status (inner_of (kid k u)) = Zombie \<and> wanted pid (kid k u)) as = []" using reap(3) by (auto simp: filter_empty_conv)
    then obtain rest where f: "filter (is_pzombie (abs_os k)) (asked pid ?P) = ?n u # rest" unfolding zs reap(1) using z reap(2) by simp
    then have "asked pid ?P \<noteq> []" by auto
    moreover have "exit_code_of (abs_os k) (?n u) = exit_code (inner_of (kid k u))" using wl(3) [OF _ z] reap(1) by simp
    ultimately have "os_wait pid (cpid c) ?P (abs_os k) = (v, Some (exit_code (inner_of (kid k u))), abs_os k')"
      unfolding abs_os_reaped [OF inv c reap(1,5)] using f reap(4) by (simp add: os_wait_def)
    then show ?thesis by (rule that) (use reap(5) in auto)
  qed
qed

lemma wait_event:
  assumes inv: "proc_inv k" and cur: "cur k = Some t" and r: "sys_waitpid pid ptr k = Inr (Returns v k')"
  shows "os_next (OWait pid) (abs_os k) = Some (abs_os k')"
proof -
  from proc_inv_running [OF inv cur] obtain c where c: "running k t c" by metis
  from wait_refines [OF inv c r] obtain code where "os_wait pid (cpid c) (abs_proc (cellk k) c) (abs_os k) = (v, code, abs_os k')" by metis
  then show ?thesis using abs_running(1,2) [OF inv c] by simp
qed

end
