(* ===== verification/Os_Simulation.thy ===== *)
theory Os_Simulation
  imports Os_Refinement Fork
begin

text \<open>
  The machine implements \<open>Os_Spec\<close>: system calls, traps and switches are events of the specification, and
  everything else leaves the abstraction as it is.
\<close>

subsection \<open>Calls that do not concern processes\<close>

definition same_procs :: "kernel \<Rightarrow> kernel \<Rightarrow> bool" where
  "same_procs k k' \<longleftrightarrow> arcs k' = arcs k \<and> TASK_MANAGER k' = TASK_MANAGER k \<and> PROCESSOR k' = PROCESSOR k \<and> INITPROC k' = INITPROC k"

lemma same_procs_abs: "same_procs k k' \<Longrightarrow> abs_os k' = abs_os k"
  by (intro abs_os_cong) (auto simp: same_procs_def cellk_def)

lemma write_same:
  assumes c: "running k t c" and r: "sys_write fd buf len k = Some (Inr fl)"
  obtains k' where "fl = Returns len k'" and "same_procs k k'"
proof -
  obtain bs k' where l: "for_each write_buffer bs k = Inr k'" and fl: "fl = Returns len k'"
    using r by (auto simp: sys_write_def current_user_token_eq [OF c] obind_eq_Inr_iff split: if_splits elim!: bind_InrE)
  have "same_procs k k'"
    by (rule for_each_invariant [OF l, where I = "\<lambda>_ j. same_procs k j"]) (auto simp: same_procs_def write_buffer_def print_def elim!: bind_InrE)
  with fl that show ?thesis by blast
qed

lemma exec_same:
  assumes inv: "proc_inv k" and cur: "cur k = Some t" and r: "sys_exec env path k = Some (Inr fl)"
  obtains v k' where "fl = Returns v k'" and "abs_os k' = abs_os k"
proof -
  from proc_inv_running [OF inv cur] obtain c where c: "running k t c" "strong c = 2" by metis
  have ck: "cellk k t = Some c" using c(1) by (auto simp: running_def)
  from sys_exec_effect [OF c r] show ?thesis
  proof (elim disjE exE)
    fix ms ppn st
    let ?d = "set_inner ((inner_of c)\<lparr>memory_set := ms, trap_cx_ppn := ppn\<rparr>) c" and ?k' = "\<lambda>d. (arc_set t (Some d) k)\<lparr>mm := st\<rparr>"
    assume fl: "fl = Returns 0 (?k' ?d)"
    have "cellk (?k' ?d) = (cellk k)(t := Some ?d)" using ck by (simp add: cellk_arc_set)
    note u = abs_os_upd [OF inv ck _ this]
    have "abs_proc (cellk k) ?d = abs_proc (cellk k) c" by (simp add: abs_proc_def abs_state_def split: TaskStatus.split)
    then have "procs (abs_os (?k' ?d)) = procs (abs_os k)" using u(1) abs_running(2) [OF inv c(1)] by (simp add: fun_upd_idem)
    then have "abs_os (?k' ?d) = abs_os k" by (rule os_eqI) (use u in \<open>simp_all add: abs_os_def\<close>)
    with fl that show ?thesis by blast
  qed (use that in blast)
qed

subsection \<open>System calls\<close>

fun flow_state :: "'a flow \<Rightarrow> kernel" where
  "flow_state (Returns v k) = k"
| "flow_state (Switched k) = k"

text \<open>
  What a call is to do, from its number and arguments, the state and the answers of the firmware alone: the calls that
  give up the hart, the events, and the values that may be returned.  \<open>read\<close> yields when there is no character.
\<close>

definition idles :: "answers \<Rightarrow> usize \<Rightarrow> bool" where
  "idles ans i \<longleftrightarrow> i = SYSCALL_EXIT \<or> i = SYSCALL_YIELD \<or> i = SYSCALL_READ \<and> ans_char ans = 0"

definition next_pid :: "kernel \<Rightarrow> usize" where
  "next_pid k = pid_num (fst (pid_alloc (PID_ALLOCATOR k)))"

definition call_events :: "answers \<Rightarrow> usize \<Rightarrow> usize \<Rightarrow> kernel \<Rightarrow> os_event list" where
  "call_events ans i a0 k =
     (if i = SYSCALL_EXIT then [OExit (ucast a0)]
      else if i = SYSCALL_FORK then [OFork (next_pid k)]
      else if i = SYSCALL_WAITPID then [OWait a0]
      else if idles ans i then [OYield]
      else [])"

definition call_answer :: "answers \<Rightarrow> usize \<Rightarrow> usize \<Rightarrow> usize \<Rightarrow> kernel \<Rightarrow> isize \<Rightarrow> os \<Rightarrow> bool" where
  "call_answer ans i a0 a2 k v s' \<longleftrightarrow>
     i = SYSCALL_READ \<and> v = 1 \<or>
     i = SYSCALL_WRITE \<and> v = a2 \<or>
     i = SYSCALL_GET_TIME \<and> v = get_time_ms (ans_time ans) \<or>
     i = SYSCALL_GETPID \<and> on_hart (abs_os k) = Some v \<or>
     i = SYSCALL_FORK \<and> v = next_pid k \<or>
     i = SYSCALL_EXEC \<and> v \<in> {0, - 1} \<or>
     i = SYSCALL_WAITPID \<and> (\<exists>p P code. on_hart (abs_os k) = Some p \<and> procs (abs_os k) p = Some P \<and> os_wait a0 p P (abs_os k) = (v, code, s'))"

lemma suspend_events:
  assumes "proc_inv k" and "cur k = Some t" and "bind (suspend_current_and_run_next r k) (\<lambda>k. Inr (Switched k)) = Inr fl"
  shows "\<exists>k'. fl = Switched k' \<and> os_steps (abs_os k) [OYield] (abs_os k')"
  using suspend_refines [OF assms(1,2)] assms(3) by (auto simp del: os_next.simps elim!: bind_InrE intro: os_steps_one)

lemma read_loop_events:
  assumes inv: "proc_inv k" "cur k = Some t" and r: "read_loop c fd buf len k = Some (Inr fl)"
  shows "os_steps (abs_os k) (if c = 0 then [OYield] else []) (abs_os (flow_state fl)) \<and> (if c = 0 then \<exists>k'. fl = Switched k' else \<exists>k'. fl = Returns 1 k')"
proof (cases "c = 0")
  case True
  then show ?thesis using r suspend_events [OF inv] by (fastforce simp: read_loop_def)
next
  case False
  from proc_inv_running [OF inv] obtain d where d: "running k t d" .
  from False obtain m where fl: "fl = Returns 1 (k\<lparr>mm := m\<rparr>)"
    using r by (auto simp: read_loop_def current_user_token_eq [OF d] obind_eq_Inr_iff Let_def neq_Nil_conv split: list.splits)
  have "abs_os (k\<lparr>mm := m\<rparr>) = abs_os k" by (rule same_procs_abs) (simp add: same_procs_def)
  then show ?thesis using os_steps.here False by (simp add: fl)
qed

lemma fork_next_pid:
  assumes c: "running k t c" and r: "sys_fork env k = Inr fl"
  obtains k' where "fl = Returns (next_pid k) k'"
proof -
  from sys_fork_effect [OF c r] obtain u k' h ms ppn st1 st2 cx where "fl = Returns (pid_num h) k'" "forked env t c k u k' h ms ppn st1 st2 cx" by metis
  moreover from this(2) have "fst (pid_alloc (PID_ALLOCATOR k)) = h" by (simp add: forked_def)
  ultimately show ?thesis using that by (simp add: next_pid_def)
qed

definition flow_answer :: "answers \<Rightarrow> usize \<Rightarrow> usize \<Rightarrow> usize \<Rightarrow> kernel \<Rightarrow> isize flow \<Rightarrow> bool" where
  "flow_answer ans i a0 a2 k fl \<longleftrightarrow>
     (case fl of Switched _ \<Rightarrow> idles ans i | Returns v k' \<Rightarrow> \<not> idles ans i \<and> call_answer ans i a0 a2 k v (abs_os k'))"

lemma syscall_events:
  assumes inv: "proc_inv k" "cur k = Some t" and room: "pida_room (PID_ALLOCATOR k)" and r: "syscall env ans i a0 a1 a2 k = Some (Inr fl)"
  shows "os_steps (abs_os k) (call_events ans i a0 k) (abs_os (flow_state fl)) \<and> flow_answer ans i a0 a2 k fl"
proof -
  from proc_inv_running [OF inv] obtain c where c: "running k t c" "strong c = 2" by metis
  note r' = r [unfolded syscall_def] and defs = call_events_def idles_def flow_answer_def call_answer_def
  consider "i = SYSCALL_READ" | "i = SYSCALL_WRITE" | "i = SYSCALL_EXIT" | "i = SYSCALL_YIELD" | "i = SYSCALL_GET_TIME" | "i = SYSCALL_GETPID"
    | "i = SYSCALL_FORK" | "i = SYSCALL_EXEC" | "i = SYSCALL_WAITPID"
    using r' by (auto split: if_splits)
  then show ?thesis
  proof cases
    case 1
    then obtain fd buf len where "read_loop (ans_char ans) fd buf len k = Some (Inr fl)"
      using r' by (auto simp: sys_read_def obind_eq_Inr_iff split: if_splits)
    from read_loop_events [OF inv this] 1 show ?thesis by (auto simp: defs split: if_splits)
  next
    case 2
    then have "sys_write a0 a1 a2 k = Some (Inr fl)" using r' by simp
    from write_same [OF c(1) this] obtain k' where "fl = Returns a2 k'" "same_procs k k'" .
    then show ?thesis using 2 same_procs_abs os_steps.here by (simp add: defs)
  next
    case 3
    then obtain k' where "fl = Switched k'" "exit_current_and_run_next env (ucast a0) k = Some (Inr k')"
      using r' by (auto simp: sys_exit_def obind_eq_Inr_iff)
    then show ?thesis using 3 exit_refines [OF inv] os_steps_one by (simp add: defs del: os_next.simps)
  next
    case 4
    then have "sys_yield k = Inr fl" using r' by simp
    from suspend_events [OF inv this [unfolded sys_yield_def]] show ?thesis using 4 by (auto simp: defs)
  next
    case 5
    then show ?thesis using r' os_steps.here by (auto simp: defs sys_get_time_def)
  next
    case 6
    then show ?thesis using r' os_steps.here sys_getpid_eq [OF c(1)] abs_running(1) [OF inv(1) c(1)] by (auto simp: defs)
  next
    case 7
    then have f: "sys_fork env k = Inr fl" using r' by simp
    from fork_next_pid [OF c(1) f] obtain k' where fl: "fl = Returns (next_pid k) k'" .
    from fork_refines [OF inv room f [unfolded fl]] 7 os_steps_one show ?thesis by (simp add: defs fl del: os_next.simps)
  next
    case 8
    then have e: "sys_exec env a0 k = Some (Inr fl)" using r' by simp
    from exec_same [OF inv this] obtain v k' where "fl = Returns v k'" "abs_os k' = abs_os k" .
    moreover have "v = 0 \<or> v = - 1" using sys_exec_effect [OF c e] calculation(1) by auto
    ultimately show ?thesis using 8 os_steps.here by (auto simp: defs)
  next
    case 9
    then have w: "sys_waitpid a0 a1 k = Inr fl" using r' by simp
    from proc_inv_sys_waitpid [OF inv w] obtain v k' where fl: "fl = Returns v k'" by metis
    from wait_refines [OF inv(1) c(1) w [unfolded fl]] obtain code where "os_wait a0 (cpid c) (abs_proc (cellk k) c) (abs_os k) = (v, code, abs_os k')" by metis
    with abs_running(1,2) [OF inv(1) c(1)] wait_event [OF inv w [unfolded fl]] 9 os_steps_one show ?thesis by (simp add: defs fl del: os_next.simps)
  qed
qed

subsection \<open>Traps\<close>

fun outcome_state :: "outcome \<Rightarrow> kernel" where
  "outcome_state (ToUser e k) = k"
| "outcome_state (ToIdle k) = k"

text \<open>The events of a trap: those of the call whose number and first argument are in the trap context, a yield, or an exit.\<close>

definition trap_events :: "answers \<Rightarrow> trap \<Rightarrow> kernel \<Rightarrow> os_event list" where
  "trap_events ans cause k =
     (case cause of
        UserEnvCall \<Rightarrow>
          (case current_trap_cx k of
             Inl _ \<Rightarrow> []
           | Inr (cx, _) \<Rightarrow> call_events ans (read_u64 (mm_mem (mm k)) (cx_field cx 17)) (read_u64 (mm_mem (mm k)) (cx_field cx 10)) k)
      | SupervisorTimer \<Rightarrow> [OYield]
      | IllegalInstruction \<Rightarrow> [OExit (- 3)]
      | OtherTrap \<Rightarrow> []
      | _ \<Rightarrow> [OExit (- 2)])"

lemma length_trap_events: "length (trap_events ans cause k) \<le> 1"
  by (simp add: trap_events_def call_events_def split: trap.split sum.split)

text \<open>The counter of instructions is not an argument of the call.\<close>

lemma cx_field_sepc:
  assumes "i = 10 \<or> i = 17"
  shows "read_u64 (write_u64 m (cx_field cx 33) w) (cx_field cx i) = read_u64 m (cx_field cx i)"
proof -
  have "read_bytes (write_bytes m (cx_field cx 33) (le_bytes 8 w)) (cx_field cx i) 8 = read_bytes m (cx_field cx i) 8"
  proof (rule read_bytes_cong)
    fix j :: nat
    assume "j < 8"
    then have j: "j \<in> {0, 1, 2, 3, 4, 5, 6, 7}" by auto
    have "cx_field cx i + of_nat j - cx_field cx 33 = 8 * i + of_nat j - 264" by (simp add: cx_field_def)
    moreover have "8 \<le> unat (8 * i + of_nat j - 264)" using assms j by auto
    ultimately have "\<not> unat (cx_field cx i + of_nat j - cx_field cx 33) < 8" by (simp only: not_less)
    then show "write_bytes m (cx_field cx 33) (le_bytes 8 w) (cx_field cx i + of_nat j) = m (cx_field cx i + of_nat j)"
      by (simp add: write_bytes_def)
  qed
  then show ?thesis by (simp add: read_u64_def write_u64_def)
qed

lemma trap_return_same:
  assumes "running k t c" and "trap_return env k = Inr out"
  shows "abs_os (outcome_state out) = abs_os k"
proof -
  have "running (set_user_trap_entry k) t c" using assms(1) by (simp add: running_def set_user_trap_entry_def cellk_def)
  from current_user_token_eq [OF this] assms(2) have "outcome_state out = set_user_trap_entry k"
    by (auto simp: trap_return_def Let_def)
  moreover have "abs_os (set_user_trap_entry k) = abs_os k" by (rule same_procs_abs) (simp add: same_procs_def set_user_trap_entry_def)
  ultimately show ?thesis by simp
qed

lemma abs_os_mm: "abs_os (k\<lparr>mm := m\<rparr>) = abs_os k"
  by (rule same_procs_abs) (simp add: same_procs_def)

lemma finish_syscall_flow:
  assumes "finish_syscall env r = Some (Inr out)"
  obtains fl where "r = Some (Inr fl)" and "finish_syscall env (Some (Inr fl)) = Some (Inr out)"
proof -
  obtain fl where "r = Some (Inr fl)" using assms unfolding finish_syscall_def obind_eq_Inr_iff by blast
  with assms that show ?thesis by blast
qed

lemma finish_syscall_same:
  assumes "flow_inv t k0 fl" and "finish_syscall env (Some (Inr fl)) = Some (Inr out)"
  shows "abs_os (outcome_state out) = abs_os (flow_state fl)"
proof (cases fl)
  case (Switched k)
  then show ?thesis using assms(2) by (auto simp: finish_syscall_def)
next
  case (Returns v k)
  then have k: "proc_inv k" "cur k = Some t" using assms(1) by auto
  from proc_inv_running [OF k] obtain c where c: "running k t c" .
  obtain m where "trap_return env (k\<lparr>mm := m\<rparr>) = Inr out"
    using assms(2) Returns by (auto simp: finish_syscall_def current_trap_cx_eq [OF c] Let_def elim!: bind_InrE)
  moreover have "running (k\<lparr>mm := m\<rparr>) t c" using c by (simp add: running_def cellk_def)
  ultimately show ?thesis using trap_return_same abs_os_mm Returns by simp
qed

lemma trap_handler_events:
  assumes "proc_inv k" "cur k = Some t" and room: "pida_room (PID_ALLOCATOR k)" and r: "trap_handler env ans cause k = Some (Inr out)"
  shows "os_steps (abs_os k) (trap_events ans cause k) (abs_os (outcome_state out))"
proof -
  define k1 where "k1 = set_kernel_trap_entry env k"
  have k1: "proc_inv k1" "cur k1 = Some t" "pida_room (PID_ALLOCATOR k1)" "mm k1 = mm k"
    using assms(1-3) by (auto simp: k1_def set_kernel_trap_entry_def intro: proc_inv_cong)
  have same: "abs_os k1 = abs_os k" by (rule same_procs_abs) (simp add: same_procs_def k1_def set_kernel_trap_entry_def)
  from proc_inv_running [OF assms(1,2)] obtain c where c0: "running k t c" .
  then have c: "running k1 t c" by (simp add: running_def k1_def set_kernel_trap_entry_def cellk_def)
  note r1 = r [unfolded trap_handler_def Let_def, folded k1_def]
  have exit: "os_steps (abs_os k1) [OExit code] (abs_os (outcome_state out))"
    if e: "obind (exit_current_and_run_next env code k1) (\<lambda>k. Some (Inr (ToIdle k))) = Some (Inr out)" for code
  proof -
    obtain k' where k': "exit_current_and_run_next env code k1 = Some (Inr k')" "out = ToIdle k'" using e by (auto simp: obind_eq_Inr_iff)
    show ?thesis using os_steps_one [OF exit_refines [OF k1(1,2) k'(1)]] k'(2) by simp
  qed
  have fault: "os_steps (abs_os k1) [OExit (- 2)] (abs_os (outcome_state out))"
    if "obind (Some (current_trap_cx k1)) (\<lambda>(cx, k). obind (exit_current_and_run_next env (- 2) k) (\<lambda>k. Some (Inr (ToIdle k)))) = Some (Inr out)"
    using that exit by (auto simp: current_trap_cx_eq [OF c] obind_eq_Inr_iff elim!: bind_InrE)
  have "os_steps (abs_os k1) (trap_events ans cause k) (abs_os (outcome_state out))"
  proof (cases cause)
    case UserEnvCall
    let ?m = "\<lambda>cx. write_u64 (mm_mem (mm k)) (cx_field cx 33) (read_u64 (mm_mem (mm k)) (cx_field cx 33) + 4)"
    obtain cx a1 a2 where cx: "get_trap_cx (inner_of c) = Inr cx"
      and f: "finish_syscall env (syscall env ans (read_u64 (?m cx) (cx_field cx 17)) (read_u64 (?m cx) (cx_field cx 10)) a1 a2 (k1\<lparr>mm := (mm k1)\<lparr>mm_mem := ?m cx\<rparr>\<rparr>)) = Some (Inr out)"
      using r1 UserEnvCall by (auto simp: current_trap_cx_eq [OF c] obind_eq_Inr_iff k1(4) elim!: bind_InrE)
    define i a0 where "i = read_u64 (mm_mem (mm k)) (cx_field cx 17)" and "a0 = read_u64 (mm_mem (mm k)) (cx_field cx 10)"
    define k2 where "k2 = k1\<lparr>mm := (mm k1)\<lparr>mm_mem := ?m cx\<rparr>\<rparr>"
    have k2: "proc_inv k2" "cur k2 = Some t" "pida_room (PID_ALLOCATOR k2)" "abs_os k2 = abs_os k1" "PID_ALLOCATOR k2 = PID_ALLOCATOR k"
      using k1 by (auto simp: k2_def abs_os_mm k1_def set_kernel_trap_entry_def intro: proc_inv_cong)
    obtain fl where fl: "syscall env ans i a0 a1 a2 k2 = Some (Inr fl)" "finish_syscall env (Some (Inr fl)) = Some (Inr out)"
      using finish_syscall_flow [OF f] by (auto simp: k2_def i_def a0_def cx_field_sepc)
    have "trap_events ans cause k = call_events ans i a0 k2"
      using UserEnvCall by (simp add: trap_events_def current_trap_cx_eq [OF c0] cx i_def a0_def call_events_def next_pid_def k2(5))
    moreover have "flow_inv t k2 fl" using syscall_flow [OF k2(1-3), of env ans i a0 a1 a2] fl(1) by (simp add: call_inv_def)
    ultimately show ?thesis using finish_syscall_same [OF _ fl(2)] syscall_events [OF k2(1-3) fl(1)] k2(4) by simp
  next
    case SupervisorTimer
    define k2 where "k2 = k1\<lparr>timer := set_next_trigger (ans_time ans)\<rparr>"
    have k2: "proc_inv k2" "cur k2 = Some t" "abs_os k2 = abs_os k1"
      using k1 by (auto simp: k2_def same_procs_def intro: proc_inv_cong same_procs_abs)
    obtain k' where k': "suspend_current_and_run_next ResumeTimer k2 = Inr k'" "out = ToIdle k'" using r1 SupervisorTimer by (auto simp: k2_def elim!: bind_InrE)
    show ?thesis using os_steps_one [OF suspend_refines [OF k2(1,2) k'(1)]] k'(2) k2(3) SupervisorTimer by (simp add: trap_events_def)
  next
    case IllegalInstruction
    then show ?thesis using r1 exit [of "- 3"] by (simp add: trap_events_def)
  qed (use r1 fault in \<open>simp_all add: trap_events_def\<close>)
  then show ?thesis using same by simp
qed

text \<open>The events of a task that is switched to: it yields again if it waits for a character and there is none.\<close>

definition resume_events :: "answers \<Rightarrow> resume \<Rightarrow> os_event list" where
  "resume_events ans r = (case r of ResumeRead _ _ _ \<Rightarrow> if ans_char ans = 0 then [OYield] else [] | _ \<Rightarrow> [])"

lemma resume_task_events:
  assumes inv: "proc_inv k" "cur k = Some t" and r: "resume_task env ans t k = Some (Inr out)"
  shows "os_steps (abs_os k) (resume_events ans (frames k t)) (abs_os (outcome_state out))"
proof -
  from proc_inv_running [OF inv] obtain c where c: "running k t c" .
  show ?thesis
  proof (cases "frames k t")
    case (ResumeRead fd buf len)
    have "finish_syscall env (read_loop (ans_char ans) fd buf len k) = Some (Inr out)" using r ResumeRead by (simp add: resume_task_def)
    from finish_syscall_flow [OF this] obtain fl
      where fl: "read_loop (ans_char ans) fd buf len k = Some (Inr fl)" "finish_syscall env (Some (Inr fl)) = Some (Inr out)" .
    show ?thesis using read_loop_events [OF inv fl(1)] finish_syscall_same [OF read_loop_flow [OF inv fl(1)] fl(2)] ResumeRead by (simp add: resume_events_def)
  next
    case ResumeYield
    have "flow_inv t k (Returns (0 :: isize) k)" using inv by simp
    from finish_syscall_same [OF this] r ResumeYield show ?thesis using os_steps.here by (simp add: resume_task_def resume_events_def)
  qed (use r trap_return_same [OF c] os_steps.here in \<open>auto simp: resume_task_def resume_events_def\<close>)
qed

lemma resume_events_cases: "resume_events ans r \<in> {[], [OYield]}"
  by (simp add: resume_events_def split: resume.split)

subsection \<open>Steps of the machine\<close>

abbreviation abs_machine :: "machine \<Rightarrow> os" where
  "abs_machine s \<equiv> abs_os (mstate s)"

text \<open>A switch from the idle loop, with what the task does next.\<close>

lemma switch_events:
  assumes inv: "proc_inv k" "cur k = None" and r: "run_tasks_step k = Inr (Some t, k1)" and o: "resume_task env ans t k1 = Some (Inr out)"
  shows "os_steps (abs_os k) (ORun # resume_events ans (frames k t)) (abs_os (outcome_state out))"
proof -
  have k1: "proc_inv k1" "cur k1 = Some t" "saved k1 t = saved k t" using proc_inv_run [OF inv] r by auto
  then have "frames k1 t = frames k t" by (simp add: saved_def)
  then have "os_steps (abs_os k1) (resume_events ans (frames k t)) (abs_os (outcome_state out))" using resume_task_events [OF k1(1,2) o] by simp
  from os_steps_trans [OF os_steps_one [OF run_event [OF inv r]] this] show ?thesis by simp
qed

text \<open>What a step may be: at most one event in user mode, a switch and perhaps a yield in the idle loop.\<close>

fun step_events :: "machine \<Rightarrow> os_event list \<Rightarrow> bool" where
  "step_events (InUser _) es \<longleftrightarrow> length es \<le> 1"
| "step_events (InIdle _) es \<longleftrightarrow> es \<in> {[], [ORun], [ORun, OYield]}"

lemma kstep_events:
  assumes inv: "machine_inv s" and st: "kstep env s s'"
  shows "\<exists>es. step_events s es \<and> os_steps (abs_machine s) es (abs_machine s')"
  using st
proof cases
  case (user k regs m)
  have "abs_os (k\<lparr>mm := (mm k)\<lparr>mm_mem := m\<rparr>, cpu := regs\<rparr>) = abs_os k" by (rule same_procs_abs) (simp add: same_procs_def)
  then show ?thesis using user os_steps.here by (intro exI [of _ "[]"]) simp
next
  case (trap_user k ans cause e k')
  then obtain t where "proc_inv k" "cur k = Some t" using inv by auto
  from trap_handler_events [OF this trap_user(3,4)] trap_user(1,2) length_trap_events show ?thesis by auto
next
  case (trap_idle k ans cause k')
  then obtain t where "proc_inv k" "cur k = Some t" using inv by auto
  from trap_handler_events [OF this trap_idle(3,4)] trap_idle(1,2) length_trap_events show ?thesis by auto
next
  case (wait k k')
  then have "k' = k" using inv proc_inv_run [of k] by (auto simp: run_tasks_step_def)
  then show ?thesis using wait os_steps.here by (intro exI [of _ "[]"]) simp
next
  case (run k t k1 ans e k')
  then have "proc_inv k" "cur k = None" using inv by auto
  from switch_events [OF this run(3,4)] run(1,2) resume_events_cases [of ans "frames k t"] show ?thesis
    by (intro exI [of _ "ORun # resume_events ans (frames k t)"]) auto
next
  case (run_idle k t k1 ans k')
  then have "proc_inv k" "cur k = None" using inv by auto
  from switch_events [OF this run_idle(3,4)] run_idle(1,2) resume_events_cases [of ans "frames k t"] show ?thesis
    by (intro exI [of _ "ORun # resume_events ans (frames k t)"]) auto
qed

subsection \<open>Start-up\<close>

lemma boot_abs:
  assumes "rust_main env ans m h regs = Some (Inr k)"
  shows "abs_os k = os_boot"
proof -
  from rust_main_initproc [OF assms] obtain k0 k1 where i: "add_initproc env k0 = Some (Inr k1)" "INITPROC k0 = None" "arcs k0 = []" "queue k0 = []"
    "cur k0 = None" "PID_ALLOCATOR k0 = pida_new"
    and k: "arcs k = arcs k1" "TASK_MANAGER k = TASK_MANAGER k1" "PROCESSOR k = PROCESSOR k1" "INITPROC k = INITPROC k1" by metis
  from add_initproc_effect [OF i] obtain c pa where ck: "cellk k1 = (\<lambda>_. None)(0 := Some c)"
    and f: "length (arcs k1) = 1" "queue k1 = [0]" "cur k1 = None" "INITPROC k1 = Some 0"
    and h: "pid_alloc pida_new = (tcb_pid (arc_data c), pa)" and c: "task_status (inner_of c) = Ready" "children (inner_of c) = []" by metis
  have "cpid c = 0" using h by (auto simp: pid_alloc_def pida_alloc_def pida_new_def dest: sym)
  then have "abs_os k1 = os_boot"
    using c by (intro os_eqI) (simp_all add: abs_os_def os_boot_def f ck abs_procs_def live_cells_def map_filter_def abs_proc_def abs_state_def)
  moreover have "abs_os k = abs_os k1" by (rule same_procs_abs) (simp add: same_procs_def k)
  ultimately show ?thesis by simp
qed

text \<open>The machine as an implementation.\<close>

definition booted :: "kernel_env \<Rightarrow> machine \<Rightarrow> bool" where
  "booted env s \<longleftrightarrow> (\<exists>ans m h regs k. rust_main env ans m h regs = Some (Inr k) \<and> s = InIdle k)"

interpretation apollo: os_implementation abs_machine "booted env" "kstep env" machine_inv
proof
  fix s
  assume "booted env s"
  then show "machine_inv s \<and> abs_machine s = os_boot"
    using rust_main_inv boot_abs by (auto simp: booted_def simp del: machine_inv.simps)
next
  fix s s'
  assume "machine_inv s" "kstep env s s'"
  then show "machine_inv s' \<and> (\<exists>es. os_steps (abs_machine s) es (abs_machine s'))"
    using kstep_inv kstep_events by blast
qed

lemma reachable_run: "reachable env s \<longleftrightarrow> (\<exists>s0. booted env s0 \<and> (kstep env)\<^sup>*\<^sup>* s0 s)"
proof
  show "reachable env s \<Longrightarrow> \<exists>s0. booted env s0 \<and> (kstep env)\<^sup>*\<^sup>* s0 s"
  proof (induction rule: reachable.induct)
    case (boot ans m h regs k)
    then show ?case unfolding booted_def by blast
  next
    case (step s s')
    then show ?case by (meson rtranclp.rtrancl_into_rtrancl)
  qed
  have "reachable env s" if "(kstep env)\<^sup>*\<^sup>* s0 s" "reachable env s0" for s0
    using that by (induction rule: rtranclp_induct) (auto intro: reachable.step)
  then show "\<exists>s0. booted env s0 \<and> (kstep env)\<^sup>*\<^sup>* s0 s \<Longrightarrow> reachable env s"
    by (auto simp: booted_def intro: reachable.boot)
qed

subsection \<open>Properties\<close>

text \<open>
  C1: the kernel implements the specification of processes.  Every reachable state of the machine abstracts
  to a state that the specification reaches from the state after start-up.  From there, whatever user code did before,
  a trap that does not panic, with pids left in the counter, has exactly the events that its cause and the trap context say: none or that of the
  system call, a yield on a timer interrupt, an exit with code \<open>-3\<close> on an illegal instruction and \<open>-2\<close> on the other faults.  The idle loop switches to the next
  task, which yields again exactly if it still waits for a character and there is none.  So a step of the machine in user mode is at
  most one event, and one of the idle loop is none, a switch, or a switch and a yield.
\<close>

theorem kernel_refines_os:
  assumes "reachable env s"
  shows "(\<exists>es. os_steps os_boot es (abs_os (mstate s))) \<and>
    (\<forall>k ans cause out. s = InUser k \<longrightarrow> pida_room (PID_ALLOCATOR k) \<longrightarrow> trap_handler env ans cause k = Some (Inr out) \<longrightarrow>
       os_steps (abs_os k) (trap_events ans cause k) (abs_os (outcome_state out))) \<and>
    (\<forall>k ans t k1 out. s = InIdle k \<longrightarrow> run_tasks_step k = Inr (Some t, k1) \<longrightarrow> resume_task env ans t k1 = Some (Inr out) \<longrightarrow>
       os_steps (abs_os k) (ORun # resume_events ans (frames k t)) (abs_os (outcome_state out))) \<and>
    (\<forall>s'. kstep env s s' \<longrightarrow> (\<exists>es. step_events s es \<and> os_steps (abs_os (mstate s)) es (abs_os (mstate s'))))"
proof -
  note inv = reachable_inv [OF assms]
  from assms obtain s0 where "booted env s0" "(kstep env)\<^sup>*\<^sup>* s0 s" unfolding reachable_run by blast
  then have boot: "\<exists>es. os_steps os_boot es (abs_os (mstate s))" by (rule apollo.run_from_boot)
  have trap: "os_steps (abs_os k) (trap_events ans cause k) (abs_os (outcome_state out))"
    if "s = InUser k" "pida_room (PID_ALLOCATOR k)" "trap_handler env ans cause k = Some (Inr out)" for k ans cause out
    using trap_handler_events [OF _ _ that(2,3)] inv that(1) by auto
  have idle: "os_steps (abs_os k) (ORun # resume_events ans (frames k t)) (abs_os (outcome_state out))"
    if "s = InIdle k" "run_tasks_step k = Inr (Some t, k1)" "resume_task env ans t k1 = Some (Inr out)" for k ans t k1 out
    using switch_events [OF _ _ that(2,3)] inv that(1) by auto
  show ?thesis by (intro conjI allI impI boot trap idle kstep_events [OF inv])
qed

theorem kernel_refines_os_witness:
  "\<exists>k k'. reachable ex_env (InIdle k) \<and> kstep ex_env (InIdle k) (InUser k') \<and> (\<exists>es. os_steps os_boot es (abs_os k)) \<and>
     os_steps (abs_os k) [ORun] (abs_os k')"
proof -
  from ex_reachable obtain k where k: "reachable ex_env (InIdle k)" "queue k = [0]" "frames k 0 = ResumeTrapReturn" by metis
  have inv: "proc_inv k" "cur k = None" using reachable_inv [OF k(1)] by auto
  from proc_inv_run [OF inv] k(2) obtain k1 where r: "run_tasks_step k = Inr (Some 0, k1)" "proc_inv k1" "cur k1 = Some 0" "frames k1 0 = frames k 0"
    by (auto simp: saved_def split: option.splits)
  from proc_inv_running [OF r(2,3)] obtain c where "running k1 0 c" by metis
  then have "running (set_user_trap_entry k1) 0 c" by (simp add: running_def set_user_trap_entry_def cellk_def)
  from current_user_token_eq [OF this] obtain e k' where t: "resume_task ex_env \<lparr>ans_time = 0, ans_char = 0\<rparr> 0 k1 = Some (Inr (ToUser e k'))"
    using k(3) r(4) by (simp add: resume_task_def trap_return_def Let_def)
  have "os_steps (abs_os k) [ORun] (abs_os k')" using kernel_refines_os [OF k(1)] r(1) t k(3) by (fastforce simp: resume_events_def)
  with kstep.run [OF r(1) t] kernel_refines_os [OF k(1)] k(1) show ?thesis by auto
qed

text \<open>
  C9: each system call is the event of its name.  In a state with the process table in order and pids left in the counter, a call of the task on the hart that does
  not panic changes the processes exactly as the specification says: by the event of \<open>exit\<close> with its code, of \<open>fork\<close> with the pid
  that the allocator gives next, or of \<open>waitpid\<close>; by that of yielding for \<open>yield\<close>, and for \<open>read\<close> exactly when there is no character;
  not at all for any other call.  Only \<open>exit\<close>, \<open>yield\<close> and such a \<open>read\<close> give up the hart; the other calls return: the pid of the caller, the pid
  of the child, the time, the number of characters, what the specification answers to \<open>waitpid\<close>, and 0 or \<open>-1\<close> for \<open>exec\<close>.
\<close>

theorem syscall_refines:
  assumes inv: "proc_inv k" and cur: "cur k = Some t" and room: "pida_room (PID_ALLOCATOR k)" and r: "syscall env ans i a0 a1 a2 k = Some (Inr fl)"
  shows "os_steps (abs_os k) (call_events ans i a0 k) (abs_os (flow_state fl)) \<and>
    (case fl of Switched _ \<Rightarrow> idles ans i | Returns v k' \<Rightarrow> \<not> idles ans i \<and> call_answer ans i a0 a2 k v (abs_os k'))"
  using syscall_events [OF inv cur room r] by (simp add: flow_answer_def)

theorem syscall_refines_witness:
  "\<exists>k k'. proc_inv k \<and> syscall ex_env \<lparr>ans_time = 0, ans_char = 0\<rparr> 124 0 0 0 k = Some (Inr (Switched k')) \<and> os_steps (abs_os k) [OYield] (abs_os k')"
proof -
  from ex_running obtain k where k: "proc_inv k" "cur k = Some 0" "PID_ALLOCATOR k = \<lparr>pida_current = 1, pida_recycled = []\<rparr>" by metis
  have room: "pida_room (PID_ALLOCATOR k)" by (simp add: k(3) pida_room_def)
  from proc_inv_running [OF k(1,2)] obtain c where c: "running k 0 c" by metis
  from suspend_eq [OF c, of ResumeYield] obtain k' where "syscall ex_env \<lparr>ans_time = 0, ans_char = 0\<rparr> 124 0 0 0 k = Some (Inr (Switched k'))"
    by (simp add: syscall_def sys_yield_def)
  from syscall_refines [OF k(1,2) room this] this k(1) show ?thesis by (auto simp: call_events_def idles_def)
qed

end
