(* ===== verification/User_Io.thy ===== *)
theory User_Io
  imports Prelude
begin

text \<open>
  User programs as they look from the kernel.  A program runs on its own until it makes a system
  call; what it does next depends on the answers it has had so far.  It is a function from these
  answers to its next request or its result; it is \<open>None\<close> if the program runs for ever without
  another call.  A call of \<open>fork\<close> returns twice in this picture: two processes go on with the same
  program and the same answers, but for the last.
\<close>

subsection \<open>Requests and answers\<close>

text \<open>
  A request is what an \<open>ecall\<close> passes: the number of the call in \<open>x17\<close> and three arguments in \<open>x10\<close> to \<open>x12\<close>.  An
  argument is a number or the address of a buffer of the program; where the compiler puts the buffer does not
  matter, the bytes in it are part of the request.
\<close>

datatype uarg = Val usize | Addr

record request =
  rq_id :: usize
  rq_args :: "uarg \<times> uarg \<times> uarg"
  rq_data :: "u8 list"

text \<open>The answer is the value in \<open>x10\<close> and what the call has written to the buffer: one byte, or an exit code.\<close>

record answer =
  a_ret :: isize
  a_byte :: "u8 option"
  a_code :: "i32 option"

datatype 'a ustep = Ask request | Done 'a "answer list"

type_synonym 'a user = "answer list \<Rightarrow> 'a ustep option"

subsection \<open>Sequencing\<close>

definition ureturn :: "'a \<Rightarrow> 'a user" where
  "ureturn x h = Some (Done x h)"

definition ubind :: "'a user \<Rightarrow> ('a \<Rightarrow> 'b user) \<Rightarrow> 'b user" where
  "ubind m f h =
     (case m h of
        None \<Rightarrow> None
      | Some (Ask q) \<Rightarrow> Some (Ask q)
      | Some (Done x h') \<Rightarrow> f x h')"

definition ask :: "request \<Rightarrow> answer user" where
  "ask q h = (case h of [] \<Rightarrow> Some (Ask q) | a # h' \<Rightarrow> Some (Done a h'))"

text \<open>\<open>loop {}\<close>\<close>

definition spin :: "'a user" where
  "spin h = None"

text \<open>\<open>for x in xs { body }\<close>, also with a state, and a loop whose body goes on with a new state (\<open>Inl\<close>) or leaves it with a value (\<open>Inr\<close>).\<close>

primrec ufor :: "'b list \<Rightarrow> ('b \<Rightarrow> unit user) \<Rightarrow> unit user" where
  "ufor [] body = ureturn ()"
| "ufor (x # xs) body = ubind (body x) (\<lambda>_. ufor xs body)"

primrec ufold :: "('b \<Rightarrow> 's \<Rightarrow> 's user) \<Rightarrow> 'b list \<Rightarrow> 's \<Rightarrow> 's user" where
  "ufold body [] s = ureturn s"
| "ufold body (x # xs) s = ubind (body x s) (ufold body xs)"

partial_function (option) uloop :: "('s \<Rightarrow> ('s + 'a) user) \<Rightarrow> 's \<Rightarrow> 'a user" where
  "uloop body s h =
     (case body s h of
        None \<Rightarrow> None
      | Some r \<Rightarrow>
          (case r of
             Ask q \<Rightarrow> Some (Ask q)
           | Done y h' \<Rightarrow> (case y of Inl s' \<Rightarrow> uloop body s' h' | Inr x \<Rightarrow> Some (Done x h'))))"

lemma ureturn_bind [simp]: "ubind (ureturn x) f = f x"
  by (rule ext) (simp add: ubind_def ureturn_def)

lemma bind_ureturn [simp]: "ubind m ureturn = m"
  by (rule ext) (simp add: ubind_def ureturn_def split: option.split ustep.split)

lemma ubind_assoc: "ubind (ubind m f) g = ubind m (\<lambda>x. ubind (f x) g)"
  by (rule ext) (simp add: ubind_def split: option.split ustep.split)

lemma ask_simps [simp]: "ask q [] = Some (Ask q)" "ask q (a # h) = Some (Done a h)"
  by (simp_all add: ask_def)

lemma ubind_Done [simp]: "m h = Some (Done x h') \<Longrightarrow> ubind m f h = f x h'"
  by (simp add: ubind_def)

lemma ubind_Ask [simp]: "m h = Some (Ask q) \<Longrightarrow> ubind m f h = Some (Ask q)"
  by (simp add: ubind_def)

lemma ubind_None [simp]: "m h = None \<Longrightarrow> ubind m f h = None"
  by (simp add: ubind_def)

lemma uloop_unfold: "uloop body s = ubind (body s) (\<lambda>y. case y of Inl s' \<Rightarrow> uloop body s' | Inr x \<Rightarrow> ureturn x)"
  by (rule ext, subst uloop.simps) (simp add: ubind_def ureturn_def split: option.split ustep.split sum.split)

subsection \<open>What a program asks for\<close>

text \<open>Every request that a program may make satisfies \<open>P\<close>.\<close>

definition asks :: "(request \<Rightarrow> bool) \<Rightarrow> 'a user \<Rightarrow> bool" where
  "asks P m \<longleftrightarrow> (\<forall>h q. m h = Some (Ask q) \<longrightarrow> P q)"

named_theorems asks_intros \<open>rules for what programs ask for\<close>

lemma asks_ureturn [asks_intros]: "asks P (ureturn x)"
  by (simp add: asks_def ureturn_def)

lemma asks_spin [asks_intros]: "asks P spin"
  by (simp add: asks_def spin_def)

lemma asks_ask: "asks P (ask q) \<longleftrightarrow> P q"
  by (auto simp: asks_def ask_def split: list.splits)

lemma asks_ubind [asks_intros]:
  assumes "asks P m" and "\<And>x. asks P (f x)"
  shows "asks P (ubind m f)"
  using assms unfolding asks_def by (auto simp: ubind_def split: option.splits ustep.splits)

lemma asks_ufor [asks_intros]:
  assumes "\<And>x. asks P (body x)"
  shows "asks P (ufor xs body)"
  using assms by (induction xs) (simp_all add: asks_ureturn asks_ubind)

lemma asks_ufold [asks_intros]:
  assumes "\<And>x s. asks P (body x s)"
  shows "asks P (ufold body xs s)"
  using assms by (induction xs arbitrary: s) (simp_all add: asks_ureturn asks_ubind)

lemma asks_uloop [asks_intros]:
  assumes "\<And>s. asks P (body s)"
  shows "asks P (uloop body s)"
proof -
  have "body = body \<longrightarrow> (\<forall>q. r = Ask q \<longrightarrow> P q)" if "uloop body s h = Some r" for h r
    using that
    by (rule uloop.raw_induct [of "\<lambda>body' s h r. body' = body \<longrightarrow> (\<forall>q. r = Ask q \<longrightarrow> P q)", rotated])
      (use assms in \<open>fastforce simp: asks_def split: option.splits ustep.splits sum.splits\<close>)
  then show ?thesis by (simp add: asks_def)
qed

lemma asks_if [asks_intros]: "(b \<Longrightarrow> asks P m) \<Longrightarrow> (\<not> b \<Longrightarrow> asks P n) \<Longrightarrow> asks P (if b then m else n)"
  by simp

end
