(* ===== verification/Polling.thy ===== *)
theory Polling
  imports User_Io
begin

text \<open>
  Loops that poll: the body makes a call whose answer says whether to go on waiting; if so it yields the hart
  and tries again, else the loop ends.  \<open>wait\<close>, \<open>waitpid\<close> and \<open>sleep\<close> of the user library are of this kind.
\<close>

text \<open>The answers of rounds in which the loop goes on: each round has one answer of the call and one of the yield.\<close>

fun busy_rounds :: "('s \<Rightarrow> answer \<Rightarrow> bool) \<Rightarrow> ('s \<Rightarrow> answer \<Rightarrow> 's) \<Rightarrow> 's \<Rightarrow> (answer \<times> answer) list \<Rightarrow> 's option" where
  "busy_rounds busy upd s [] = Some s"
| "busy_rounds busy upd s ((a, y) # ws) = (if busy s a then busy_rounds busy upd (upd s a) ws else None)"

definition round_answers :: "(answer \<times> answer) list \<Rightarrow> answer list" where
  "round_answers ws = concat (map (\<lambda>(a, y). [a, y]) ws)"

lemma round_answers_simps [simp]: "round_answers [] = []" "round_answers ((a, y) # ws) = a # y # round_answers ws"
  by (simp_all add: round_answers_def)

locale polling =
  fixes body :: "'s \<Rightarrow> ('s + 'a) user" and q :: "'s \<Rightarrow> request" and yq :: request and busy :: "'s \<Rightarrow> answer \<Rightarrow> bool"
    and upd :: "'s \<Rightarrow> answer \<Rightarrow> 's" and res :: "'s \<Rightarrow> answer \<Rightarrow> 'a"
  assumes poll_asks: "body s [] = Some (Ask (q s))"
    and busy_yields: "busy s a \<Longrightarrow> body s [a] = Some (Ask yq)"
    and busy_goes_on: "busy s a \<Longrightarrow> body s (a # y # h) = Some (Done (Inl (upd s a)) h)"
    and ready_leaves: "\<not> busy s a \<Longrightarrow> body s (a # h) = Some (Done (Inr (res s a)) h)"
begin

lemma rounds: "busy_rounds busy upd s ws = Some s' \<Longrightarrow> uloop body s (round_answers ws @ h) = uloop body s' h"
proof (induction ws arbitrary: s)
  case (Cons w ws)
  obtain a y where w: "w = (a, y)" by fastforce
  with Cons.prems have "busy s a" "busy_rounds busy upd (upd s a) ws = Some s'" by (auto split: if_splits)
  then show ?case using Cons.IH busy_goes_on by (subst uloop_unfold) (simp add: w)
qed simp

text \<open>After any number of rounds the loop asks again, yields, or returns.\<close>

lemma after_rounds:
  assumes "busy_rounds busy upd s ws = Some s'"
  shows "uloop body s (round_answers ws) = Some (Ask (q s'))"
    and "busy s' a \<Longrightarrow> uloop body s (round_answers ws @ [a]) = Some (Ask yq)"
    and "\<not> busy s' a \<Longrightarrow> uloop body s (round_answers ws @ a # h) = Some (Done (res s' a) h)"
  using rounds [OF assms, of "[]"] rounds [OF assms, of "[a]"] rounds [OF assms, of "a # h"]
  by (simp_all add: uloop_unfold [of body s'] poll_asks busy_yields ready_leaves ureturn_def)

text \<open>Every list of answers is one of these.\<close>

lemma rounds_cases:
  obtains ws s' where "busy_rounds busy upd s ws = Some s'" and "h = round_answers ws"
  | ws s' a where "busy_rounds busy upd s ws = Some s'" and "busy s' a" and "h = round_answers ws @ [a]"
  | ws s' a h' where "busy_rounds busy upd s ws = Some s'" and "\<not> busy s' a" and "h = round_answers ws @ a # h'"
proof -
  have "(\<exists>ws s'. busy_rounds busy upd s ws = Some s' \<and> h = round_answers ws) \<or>
      (\<exists>ws s' a. busy_rounds busy upd s ws = Some s' \<and> busy s' a \<and> h = round_answers ws @ [a]) \<or>
      (\<exists>ws s' a h'. busy_rounds busy upd s ws = Some s' \<and> \<not> busy s' a \<and> h = round_answers ws @ a # h')"
  proof (induction h arbitrary: s rule: induct_list012)
    case 1
    have "busy_rounds busy upd s [] = Some s" "[] = round_answers []" by simp_all
    then show ?case by blast
  next
    case (2 a)
    have "busy_rounds busy upd s [] = Some s" "[a] = round_answers [] @ [a]" by simp_all
    then show ?case by blast
  next
    case (3 a y h)
    show ?case
    proof (cases "busy s a")
      case False
      have "busy_rounds busy upd s [] = Some s" "a # y # h = round_answers [] @ a # y # h" by simp_all
      with False show ?thesis by blast
    next
      case True
      then have "busy_rounds busy upd s ((a, y) # ws) = busy_rounds busy upd (upd s a) ws" "a # y # round_answers ws @ h' = round_answers ((a, y) # ws) @ h'" for ws h'
        by simp_all
      with 3(1) [of "upd s a"] show ?thesis by (metis append_Nil2)
    qed
  qed
  then show ?thesis using that by blast
qed

lemma returnsD:
  assumes "uloop body s h = Some (Done x h')"
  obtains ws s' a where "busy_rounds busy upd s ws = Some s'" and "\<not> busy s' a" and "h = round_answers ws @ a # h'" and "x = res s' a"
  using assms that by (cases rule: rounds_cases [of s h]) (auto simp: after_rounds)

lemma never_silent: "uloop body s h \<noteq> None"
  by (cases rule: rounds_cases [of s h]) (auto simp: after_rounds)

end

end
