(* ===== verification/Decimal.thy ===== *)
theory Decimal
  imports Main
begin

text \<open>Numbers in decimal, as \<open>core::fmt\<close> writes them.\<close>

fun dec :: "nat \<Rightarrow> string" where
  "dec n = (if n < 10 then [char_of (48 + n)] else dec (n div 10) @ [char_of (48 + n mod 10)])"

declare dec.simps [simp del]

definition undec :: "string \<Rightarrow> nat" where
  "undec s = foldl (\<lambda>n c. 10 * n + (of_char c - 48)) 0 s"

lemma undec_dec [simp]: "undec (dec n) = n"
proof (induction n rule: dec.induct)
  case (1 n)
  have "of_char (char_of (48 + d) :: char) = 48 + d" if "d < 10" for d :: nat using that by (simp add: of_char_of)
  then show ?case using 1 by (subst dec.simps) (auto simp: undec_def)
qed

lemma dec_inject [simp]: "dec m = dec n \<longleftrightarrow> m = n"
  using undec_dec by metis

end
