(* ===== verification/User_Lib.thy ===== *)
theory User_Lib
  imports Polling Decimal
begin

text \<open>
  The user library (\<^verbatim>\<open>src/user/src\<close>: \<^verbatim>\<open>syscall.rs\<close>, \<^verbatim>\<open>lib.rs\<close>, \<^verbatim>\<open>console.rs\<close>, \<^verbatim>\<open>lang_items.rs\<close>).  Names that the kernel
  uses too have the prefix \<open>u_\<close> or the suffix \<open>_u\<close>.  A buffer is the list of its bytes; a function that writes to a buffer or a
  variable of its caller returns the new contents with its result.
\<close>

unbundle bit_operations_syntax

subsection \<open>\<^verbatim>\<open>syscall.rs\<close>\<close>

definition U_SYSCALL_READ :: usize where "U_SYSCALL_READ = 63"
definition U_SYSCALL_WRITE :: usize where "U_SYSCALL_WRITE = 64"
definition U_SYSCALL_EXIT :: usize where "U_SYSCALL_EXIT = 93"
definition U_SYSCALL_YIELD :: usize where "U_SYSCALL_YIELD = 124"
definition U_SYSCALL_GET_TIME :: usize where "U_SYSCALL_GET_TIME = 169"
definition U_SYSCALL_GETPID :: usize where "U_SYSCALL_GETPID = 172"
definition U_SYSCALL_FORK :: usize where "U_SYSCALL_FORK = 220"
definition U_SYSCALL_EXEC :: usize where "U_SYSCALL_EXEC = 221"
definition U_SYSCALL_WAITPID :: usize where "U_SYSCALL_WAITPID = 260"

lemmas U_SYSCALL_defs [simp] = U_SYSCALL_READ_def U_SYSCALL_WRITE_def U_SYSCALL_EXIT_def U_SYSCALL_YIELD_def U_SYSCALL_GET_TIME_def
  U_SYSCALL_GETPID_def U_SYSCALL_FORK_def U_SYSCALL_EXEC_def U_SYSCALL_WAITPID_def

text \<open>The inline assembly: an \<open>ecall\<close> with the arguments in the registers.\<close>

definition u_syscall :: "usize \<Rightarrow> uarg \<times> uarg \<times> uarg \<Rightarrow> u8 list \<Rightarrow> answer user" where
  "u_syscall i args data = ask \<lparr>rq_id = i, rq_args = args, rq_data = data\<rparr>"

definition u_sys_read :: "usize \<Rightarrow> u8 list \<Rightarrow> (isize \<times> u8 list) user" where
  "u_sys_read fd buffer =
     ubind (u_syscall U_SYSCALL_READ (Val fd, Addr, Val (of_nat (length buffer))) buffer) (\<lambda>a.
     ureturn (a_ret a, case a_byte a of None \<Rightarrow> buffer | Some b \<Rightarrow> buffer[0 := b]))"

definition u_sys_write :: "usize \<Rightarrow> u8 list \<Rightarrow> isize user" where
  "u_sys_write fd buffer =
     ubind (u_syscall U_SYSCALL_WRITE (Val fd, Addr, Val (of_nat (length buffer))) buffer) (\<lambda>a. ureturn (a_ret a))"

definition u_sys_yield :: "isize user" where
  "u_sys_yield = ubind (u_syscall U_SYSCALL_YIELD (Val 0, Val 0, Val 0) []) (\<lambda>a. ureturn (a_ret a))"

definition u_sys_get_time :: "isize user" where
  "u_sys_get_time = ubind (u_syscall U_SYSCALL_GET_TIME (Val 0, Val 0, Val 0) []) (\<lambda>a. ureturn (a_ret a))"

definition u_sys_getpid :: "isize user" where
  "u_sys_getpid = ubind (u_syscall U_SYSCALL_GETPID (Val 0, Val 0, Val 0) []) (\<lambda>a. ureturn (a_ret a))"

definition u_sys_fork :: "isize user" where
  "u_sys_fork = ubind (u_syscall U_SYSCALL_FORK (Val 0, Val 0, Val 0) []) (\<lambda>a. ureturn (a_ret a))"

definition u_sys_exec :: "u8 list \<Rightarrow> isize user" where
  "u_sys_exec path = ubind (u_syscall U_SYSCALL_EXEC (Addr, Val 0, Val 0) path) (\<lambda>a. ureturn (a_ret a))"

definition u_sys_waitpid :: "isize \<Rightarrow> i32 \<Rightarrow> (isize \<times> i32) user" where
  "u_sys_waitpid pid exit_code =
     ubind (u_syscall U_SYSCALL_WAITPID (Val pid, Addr, Val 0) (le_bytes 4 exit_code)) (\<lambda>a.
     ureturn (a_ret a, case a_code a of None \<Rightarrow> exit_code | Some c \<Rightarrow> c))"

subsection \<open>\<^verbatim>\<open>console.rs\<close>\<close>

definition STDIN :: usize where "STDIN = 0"
definition STDOUT :: usize where "STDOUT = 1"

definition u_read :: "usize \<Rightarrow> u8 list \<Rightarrow> (isize \<times> u8 list) user" where
  "u_read fd buf = u_sys_read fd buf"

definition u_write :: "usize \<Rightarrow> u8 list \<Rightarrow> isize user" where
  "u_write fd buf = u_sys_write fd buf"

definition u_write_str :: "u8 list \<Rightarrow> unit user" where
  "u_write_str s = ubind (u_write STDOUT s) (\<lambda>_. ureturn ())"

text \<open>
  \<open>format_args!\<close> as \<open>core::fmt::write\<close> renders it: a literal piece, and a string, an integer or a character with \<open>{}\<close>.
  Each is handed to \<open>write_str\<close> on its own; a literal only if it is not empty; the sign of a negative number
  goes before its digits.
\<close>

datatype piece = Lit string | Txt "u8 list" | Num int | Chr u8

definition utf8_char :: "u8 \<Rightarrow> u8 list" where
  "utf8_char c = (if c < 0x80 then [c] else [0xC0 OR drop_bit 6 c, 0x80 OR (c AND 0x3F)])"

definition str :: "string \<Rightarrow> u8 list" where
  "str s = map of_char s"

fun writes :: "piece \<Rightarrow> u8 list list" where
  "writes (Lit s) = (if s = [] then [] else [str s])"
| "writes (Txt s) = [s]"
| "writes (Num i) = (if i < 0 then [str ''-'', str (dec (nat (- i)))] else [str (dec (nat i))])"
| "writes (Chr c) = [utf8_char c]"

definition u_print :: "piece list \<Rightarrow> unit user" where
  "u_print args = ufor (concat (map writes args)) u_write_str"

text \<open>\<open>println!\<close>: a line feed is added to the format string, so to its last literal piece.\<close>

fun add_lf :: "piece list \<Rightarrow> piece list" where
  "add_lf [] = [Lit [char_of (10 :: nat)]]"
| "add_lf [Lit s] = [Lit (s @ [char_of (10 :: nat)])]"
| "add_lf (p # ps) = p # add_lf ps"

definition u_println :: "piece list \<Rightarrow> unit user" where
  "u_println args = u_print (add_lf args)"

definition getchar :: "u8 user" where
  "getchar = ubind (u_read STDIN [0]) (\<lambda>(_, c). ureturn (c ! 0))"

subsection \<open>\<^verbatim>\<open>lang_items.rs\<close>\<close>

text \<open>
  What the core library reports of a panic.  The text of the message of an assertion depends on the compiler: the
  reports are an argument \<open>pi\<close> of the programs, by file, line and compared values.
\<close>

record PanicInfo =
  pi_location :: "(string \<times> nat) option"
  pi_message :: "piece list"

type_synonym reports = "string \<Rightarrow> nat \<Rightarrow> isize list \<Rightarrow> PanicInfo"

definition u_panic :: "PanicInfo \<Rightarrow> 'a user" where
  "u_panic panic_info =
     (let err = pi_message panic_info
      in ubind (case pi_location panic_info of
           Some (file, line) \<Rightarrow> u_println ([Lit ''Panicked at '', Txt (str file), Lit '':'', Num (int line), Lit '' ''] @ err @ [Lit ''''])
         | None \<Rightarrow> u_println ([Lit ''Panicked: ''] @ err @ [Lit ''''])) (\<lambda>_.
         spin))"

definition u_assert :: "bool \<Rightarrow> PanicInfo \<Rightarrow> unit user" where
  "u_assert b info = (if b then ureturn () else u_panic info)"

definition u_sys_exit :: "reports \<Rightarrow> i32 \<Rightarrow> 'a user" where
  "u_sys_exit pi exit_code =
     ubind (u_syscall U_SYSCALL_EXIT (Val (scast exit_code), Val 0, Val 0) []) (\<lambda>_.
     u_panic (pi ''src/syscall.rs'' 47 []))"

subsection \<open>\<^verbatim>\<open>lib.rs\<close>\<close>

definition u_exit :: "reports \<Rightarrow> i32 \<Rightarrow> 'a user" where
  "u_exit pi exit_code = u_sys_exit pi exit_code"

definition yield_u :: "isize user" where
  "yield_u = u_sys_yield"

definition get_time_u :: "isize user" where
  "get_time_u = u_sys_get_time"

definition getpid_u :: "isize user" where
  "getpid_u = u_sys_getpid"

definition fork_u :: "isize user" where
  "fork_u = u_sys_fork"

definition exec_u :: "u8 list \<Rightarrow> isize user" where
  "exec_u path = u_sys_exec path"

definition wait_step :: "isize \<Rightarrow> i32 \<Rightarrow> (i32 + isize \<times> i32) user" where
  "wait_step pid exit_code =
     ubind (u_sys_waitpid pid exit_code) (\<lambda>(exit_pid, exit_code).
     if exit_pid = - 2 then ubind yield_u (\<lambda>_. ureturn (Inl exit_code))
     else ureturn (Inr (exit_pid, exit_code)))"

definition wait :: "i32 \<Rightarrow> (isize \<times> i32) user" where
  "wait exit_code = uloop (wait_step (- 1)) exit_code"

definition waitpid :: "usize \<Rightarrow> i32 \<Rightarrow> (isize \<times> i32) user" where
  "waitpid pid exit_code = uloop (wait_step pid) exit_code"

definition sleep_step :: "isize \<Rightarrow> usize \<Rightarrow> unit \<Rightarrow> (unit + unit) user" where
  "sleep_step start period_ms _ =
     ubind u_sys_get_time (\<lambda>t.
     if t <s start + period_ms then ubind u_sys_yield (\<lambda>_. ureturn (Inl ()))
     else ureturn (Inr ()))"

definition sleep :: "usize \<Rightarrow> unit user" where
  "sleep period_ms = ubind u_sys_get_time (\<lambda>start. uloop (sleep_step start period_ms) ())"

text \<open>The entry point; the heap of the program is not modelled.\<close>

definition start_u :: "reports \<Rightarrow> i32 user \<Rightarrow> unit user" where
  "start_u pi main = ubind main (\<lambda>code. u_exit pi code)"

definition no_main :: "reports \<Rightarrow> i32 user" where
  "no_main pi = u_panic (pi ''src/lib.rs'' 39 [])"

subsection \<open>Requests of the library\<close>

text \<open>The forms of requests that the functions of the library make, when they write to the standard output and name programs by strings with a final zero.\<close>

definition well_formed :: "request \<Rightarrow> bool" where
  "well_formed q \<longleftrightarrow>
     (rq_id q = U_SYSCALL_READ \<and> rq_args q = (Val STDIN, Addr, Val 1) \<and> length (rq_data q) = 1) \<or>
     (rq_id q = U_SYSCALL_WRITE \<and> rq_args q = (Val STDOUT, Addr, Val (of_nat (length (rq_data q))))) \<or>
     (rq_id q = U_SYSCALL_EXIT \<and> (\<exists>c :: i32. rq_args q = (Val (scast c), Val 0, Val 0))) \<or>
     (rq_id q \<in> {U_SYSCALL_YIELD, U_SYSCALL_GET_TIME, U_SYSCALL_GETPID, U_SYSCALL_FORK} \<and> rq_args q = (Val 0, Val 0, Val 0)) \<or>
     (rq_id q = U_SYSCALL_EXEC \<and> rq_args q = (Addr, Val 0, Val 0) \<and> rq_data q \<noteq> [] \<and> last (rq_data q) = 0) \<or>
     (rq_id q = U_SYSCALL_WAITPID \<and> (\<exists>pid. rq_args q = (Val pid, Addr, Val 0)) \<and> length (rq_data q) = 4)"

lemma asks_write_str [asks_intros]: "asks well_formed (u_write_str s)"
  by (auto simp: u_write_str_def u_write_def u_sys_write_def u_syscall_def asks_ask well_formed_def STDOUT_def intro!: asks_intros)

lemma asks_print [asks_intros]: "asks well_formed (u_print args)"
  unfolding u_print_def by (intro asks_intros)

lemma asks_println [asks_intros]: "asks well_formed (u_println args)"
  unfolding u_println_def by (intro asks_intros)

lemma asks_panic [asks_intros]: "asks well_formed (u_panic info)"
  unfolding u_panic_def Let_def by (intro asks_intros) (auto intro: asks_intros split: option.split)

lemma asks_assert [asks_intros]: "asks well_formed (u_assert b info)"
  unfolding u_assert_def by (intro asks_intros)

lemma asks_calls [asks_intros]:
  "asks well_formed u_sys_yield" "asks well_formed u_sys_get_time" "asks well_formed u_sys_getpid" "asks well_formed u_sys_fork"
  "asks well_formed yield_u" "asks well_formed get_time_u" "asks well_formed getpid_u" "asks well_formed fork_u"
  by (auto simp: u_sys_yield_def u_sys_get_time_def u_sys_getpid_def u_sys_fork_def yield_u_def get_time_u_def getpid_u_def fork_u_def
      u_syscall_def asks_ask well_formed_def intro!: asks_intros)

lemma asks_getchar [asks_intros]: "asks well_formed getchar"
  by (auto simp: getchar_def u_read_def u_sys_read_def u_syscall_def asks_ask well_formed_def STDIN_def intro!: asks_intros)

lemma asks_exit [asks_intros]: "asks well_formed (u_exit pi c)"
  unfolding u_exit_def u_sys_exit_def u_syscall_def
  by (intro asks_intros) (auto simp: asks_ask well_formed_def)

lemma asks_exec [asks_intros]: "path \<noteq> [] \<Longrightarrow> last path = 0 \<Longrightarrow> asks well_formed (exec_u path)"
  by (auto simp: exec_u_def u_sys_exec_def u_syscall_def asks_ask well_formed_def intro!: asks_intros)

lemma asks_waitpid_step: "asks well_formed (wait_step pid c)"
  unfolding wait_step_def u_sys_waitpid_def u_syscall_def
  by (auto simp: asks_ask well_formed_def intro!: asks_intros split: prod.split)

lemma asks_wait [asks_intros]: "asks well_formed (wait c)" "asks well_formed (waitpid pid c)"
  unfolding wait_def waitpid_def by (intro asks_intros asks_waitpid_step)+

lemma asks_sleep [asks_intros]: "asks well_formed (sleep n)"
  unfolding sleep_def sleep_step_def by (intro asks_intros)

lemma asks_start [asks_intros]: "asks well_formed m \<Longrightarrow> asks well_formed (start_u pi m)"
  unfolding start_u_def by (intro asks_intros)

subsection \<open>Waiting and sleeping\<close>

definition plain_request :: "usize \<Rightarrow> request" where
  "plain_request i = \<lparr>rq_id = i, rq_args = (Val 0, Val 0, Val 0), rq_data = []\<rparr>"

definition waitpid_request :: "isize \<Rightarrow> i32 \<Rightarrow> request" where
  "waitpid_request pid c = \<lparr>rq_id = U_SYSCALL_WAITPID, rq_args = (Val pid, Addr, Val 0), rq_data = le_bytes 4 c\<rparr>"

definition read_request :: request where
  "read_request = \<lparr>rq_id = U_SYSCALL_READ, rq_args = (Val STDIN, Addr, Val 1), rq_data = [0]\<rparr>"

definition write_request :: "u8 list \<Rightarrow> request" where
  "write_request s = \<lparr>rq_id = U_SYSCALL_WRITE, rq_args = (Val STDOUT, Addr, Val (of_nat (length s))), rq_data = s\<rparr>"

definition code_after :: "i32 \<Rightarrow> answer \<Rightarrow> i32" where
  "code_after c a = (case a_code a of None \<Rightarrow> c | Some c' \<Rightarrow> c')"

text \<open>A child that has not exited yet is answered by \<open>-2\<close>; the deadline has not passed yet.\<close>

abbreviation not_yet :: "i32 \<Rightarrow> answer \<Rightarrow> bool" where
  "not_yet \<equiv> \<lambda>_ a. a_ret a = - 2"

abbreviation before :: "isize \<Rightarrow> unit \<Rightarrow> answer \<Rightarrow> bool" where
  "before deadline \<equiv> \<lambda>_ a. a_ret a <s deadline"

lemmas call_simps = u_syscall_def ubind_def ureturn_def ask_def

interpretation waiting: polling "wait_step pid" "waitpid_request pid" "plain_request U_SYSCALL_YIELD" not_yet code_after "\<lambda>c a. (a_ret a, code_after c a)"
  by unfold_locales
    (simp_all add: wait_step_def u_sys_waitpid_def yield_u_def u_sys_yield_def waitpid_request_def plain_request_def code_after_def call_simps)

interpretation sleeping: polling "sleep_step t0 period" "\<lambda>_. plain_request U_SYSCALL_GET_TIME" "plain_request U_SYSCALL_YIELD" "before (t0 + period)" "\<lambda>s _. s" "\<lambda>_ _. ()"
  by unfold_locales
    (simp_all add: sleep_step_def u_sys_get_time_def u_sys_yield_def plain_request_def call_simps)

lemma busy_each: "busy_rounds (\<lambda>_. P) (\<lambda>s _. s) s ws = Some s' \<Longrightarrow> (a, y) \<in> set ws \<Longrightarrow> P a"
  by (induction ws) (auto split: if_splits)

lemma busy_take: "busy_rounds (\<lambda>_. P) (\<lambda>s _. s) () ws = Some s \<Longrightarrow> busy_rounds (\<lambda>_. P) (\<lambda>s _. s) () (take n ws) = Some ()"
  by (induction ws arbitrary: n) (auto simp: take_Cons split: if_splits nat.split)

lemma sint_plus_uint:
  fixes a p :: isize
  assumes "sint a + uint p < 2 ^ 63" and "- (2 ^ 63) \<le> sint a"
  shows "sint (a + p) = sint a + uint p"
proof -
  have e: "a + p = word_of_int (sint a + uint p)" by simp
  have "sint (a + p) = signed_take_bit 63 (sint a + uint p)" unfolding e sint_sbintrunc' by simp
  also have "\<dots> = sint a + uint p" using assms uint_nonnegative [of p] by (intro signed_take_bit_int_eq_self) linarith+
  finally show ?thesis .
qed

subsection \<open>Properties\<close>

text \<open>
  C22: \<open>wait\<close> and \<open>waitpid\<close> wait.  As long as the kernel answers \<open>-2\<close>, the library yields and asks again for the
  same child; the first other answer ends the wait and is the result, with the exit code the kernel stored.  So
  neither function ever returns \<open>-2\<close>.
\<close>

theorem waitpid_polls:
  assumes "m = waitpid pid code \<or> (m = wait code \<and> pid = - 1)"
  shows "(\<forall>ws c a h. busy_rounds (\<lambda>_ a. a_ret a = - 2) code_after code ws = Some c \<longrightarrow>
      m (round_answers ws) = Some (Ask (waitpid_request pid c)) \<and>
      (a_ret a = - 2 \<longrightarrow> m (round_answers ws @ [a]) = Some (Ask (plain_request U_SYSCALL_YIELD))) \<and>
      (a_ret a \<noteq> - 2 \<longrightarrow> m (round_answers ws @ a # h) = Some (Done (a_ret a, code_after c a) h))) \<and>
    (\<forall>h. m h \<noteq> None) \<and> (\<forall>h r c h'. m h = Some (Done (r, c) h') \<longrightarrow> r \<noteq> - 2)"
proof -
  have m: "m = uloop (wait_step pid) code" using assms by (auto simp: wait_def waitpid_def)
  have r: "r \<noteq> - 2" if "uloop (wait_step pid) code h = Some (Done (r, c) h')" for h r c h'
    using that by (elim waiting.returnsD) auto
  show ?thesis unfolding m
    by (intro conjI allI impI) (assumption | rule waiting.never_silent waiting.after_rounds | erule r)+
qed

theorem waitpid_polls_witness:
  "waitpid 5 0 [\<lparr>a_ret = - 2, a_byte = None, a_code = None\<rparr>, \<lparr>a_ret = 0, a_byte = None, a_code = None\<rparr>, \<lparr>a_ret = 5, a_byte = None, a_code = Some 9\<rparr>] =
     Some (Done (5, 9) [])"
proof -
  let ?b = "\<lparr>a_ret = - 2, a_byte = None, a_code = None\<rparr>" and ?y = "\<lparr>a_ret = 0, a_byte = None, a_code = None\<rparr>" and ?a = "\<lparr>a_ret = 5, a_byte = None, a_code = Some 9\<rparr>"
  have "busy_rounds (\<lambda>_ a. a_ret a = - 2) code_after 0 [(?b, ?y)] = Some 0" by (simp add: code_after_def)
  with waitpid_polls [of "waitpid 5 0" 5 0] have "waitpid 5 0 (round_answers [(?b, ?y)] @ ?a # []) = Some (Done (a_ret ?a, code_after 0 ?a) [])"
    by fastforce
  then show ?thesis by (simp add: code_after_def)
qed

text \<open>
  C24: \<open>sleep\<close> never returns early.  It reads the clock for the start, and then reads it again and again and yields after each of these
  readings but the last.  When it returns, the last reading is at least the given period after the first, unless the deadline overflows, and
  every reading before the last was earlier than the deadline.
\<close>

theorem sleep_not_early:
  assumes ret: "sleep period h = Some (Done () h')" and no_overflow: "sint (a_ret (hd h)) + uint period < 2 ^ 63"
  shows "\<exists>first ws last. h = first # round_answers ws @ last # h' \<and> uint period \<le> sint (a_ret last) - sint (a_ret first) \<and>
    (\<forall>(t, y) \<in> set ws. sint (a_ret t) - sint (a_ret first) < uint period) \<and>
    sleep period [] = Some (Ask (plain_request U_SYSCALL_GET_TIME)) \<and>
    (\<forall>n \<le> length ws. sleep period (first # round_answers (take n ws)) = Some (Ask (plain_request U_SYSCALL_GET_TIME))) \<and>
    (\<forall>n < length ws. sleep period (first # round_answers (take n ws) @ [fst (ws ! n)]) = Some (Ask (plain_request U_SYSCALL_YIELD)))"
proof -
  have sl: "sleep period [] = Some (Ask (plain_request U_SYSCALL_GET_TIME))" "sleep period (a # h1) = uloop (sleep_step (a_ret a) period) () h1" for a h1
    by (simp_all add: sleep_def u_sys_get_time_def plain_request_def call_simps)
  obtain a h1 where h: "h = a # h1" and l: "uloop (sleep_step (a_ret a) period) () h1 = Some (Done () h')"
    using ret sl by (cases h) auto
  obtain ws s t where ws: "busy_rounds (before (a_ret a + period)) (\<lambda>s _. s) () ws = Some s"
    and t: "\<not> a_ret t <s a_ret a + period" "h1 = round_answers ws @ t # h'" by (rule sleeping.returnsD [OF l])
  have "sint (a_ret a) + uint period < 2 ^ 63" using no_overflow h by simp
  moreover have "- (2 ^ 63) \<le> sint (a_ret a)" using sint_ge [of "a_ret a"] by simp
  ultimately have deadline: "sint (a_ret a + period) = sint (a_ret a) + uint period"
    by (rule sint_plus_uint)
  have busy: "a_ret (fst (ws ! n)) <s a_ret a + period" if "n < length ws" for n
    using busy_each [OF ws, of "fst (ws ! n)" "snd (ws ! n)"] that by simp
  have early: "\<forall>(b, y) \<in> set ws. sint (a_ret b) - sint (a_ret a) < uint period"
    using busy_each [OF ws] by (fastforce simp: word_sless_alt deadline)
  have part: "busy_rounds (before (a_ret a + period)) (\<lambda>s _. s) () (take n ws) = Some ()" for n
    using ws by (rule busy_take)
  have "sint (a_ret a) + uint period \<le> sint (a_ret t)" using t(1) by (simp add: word_sless_alt deadline)
  moreover have "sleep period (a # round_answers (take n ws)) = Some (Ask (plain_request U_SYSCALL_GET_TIME))" for n
    unfolding sl(2) by (rule sleeping.after_rounds(1) [OF part])
  moreover have "sleep period (a # round_answers (take n ws) @ [fst (ws ! n)]) = Some (Ask (plain_request U_SYSCALL_YIELD))" if "n < length ws" for n
    unfolding sl(2) by (rule sleeping.after_rounds(2) [OF part busy [OF that]])
  ultimately show ?thesis using h t(2) early sl(1) by (intro exI [of _ a] exI [of _ ws] exI [of _ t]) simp
qed

theorem sleep_not_early_witness:
  "let t = (\<lambda>n. \<lparr>a_ret = n, a_byte = None, a_code = None\<rparr>)
   in sleep 100 [t 1000, t 1050, t 0, t 1100] = Some (Done () []) \<and>
      (\<exists>first ws last. [t 1000, t 1050, t 0, t 1100] = first # round_answers ws @ [last] \<and> 100 \<le> sint (a_ret last) - sint (a_ret first))"
proof -
  define t where "t = (\<lambda>n. \<lparr>a_ret = n, a_byte = None, a_code = None\<rparr>)"
  have s: "sleep 100 [t 1000, t 1050, t 0, t 1100] = Some (Done () [])"
    using sleeping.after_rounds(3) [of 1000 100 "()" "[(t 1050, t 0)]" "()" "t 1100" "[]"]
    by (simp add: sleep_def u_sys_get_time_def call_simps t_def word_sless_alt)
  from sleep_not_early [OF this] have "\<exists>first ws last. [t 1000, t 1050, t 0, t 1100] = first # round_answers ws @ [last] \<and> 100 \<le> sint (a_ret last) - sint (a_ret first)"
    by (auto simp: t_def)
  with s show ?thesis unfolding t_def Let_def by blast
qed

end
