(* ===== verification/User_Programs.thy ===== *)
theory User_Programs
  imports User_Lib "HOL-Library.Signed_Division"
begin

text \<open>
  The programs under \<^verbatim>\<open>src/user/src/bin\<close>, each the function \<open>main\<close> of a file.  \<open>pi\<close> holds the reports of panics.  The matrix
  program and the shell have theories of their own.
\<close>

text \<open>The remainder of signed division, and \<open>t as i32 as isize\<close>.\<close>

definition irem :: "'a::len word \<Rightarrow> 'a word \<Rightarrow> 'a word" where
  "irem a b = word_of_int (sint a smod sint b)"

definition as_i32 :: "isize \<Rightarrow> isize" where
  "as_i32 t = scast (ucast t :: i32)"

subsection \<open>Programs that only print\<close>

definition hello_world :: "i32 user" where
  "hello_world = ubind (u_println [Lit ''Hello world from user mode program!'']) (\<lambda>_. ureturn 0)"

text \<open>
  The next two have no result but are called as functions that return an \<open>i32\<close>: the exit code is what is left in
  the register of the result.
\<close>

definition uname :: "i32 \<Rightarrow> i32 user" where
  "uname a0 = ubind (u_println [Lit ''ApolloOS'']) (\<lambda>_. ureturn a0)"

definition whoami :: "i32 \<Rightarrow> i32 user" where
  "whoami a0 = ubind (u_println [Lit ''root'']) (\<lambda>_. ureturn a0)"

definition esc :: "string \<Rightarrow> string" where
  "esc s = CHR 0x1B # s"

definition color_text :: "string \<Rightarrow> nat \<Rightarrow> piece list" where
  "color_text text color = [Lit (esc ''[''), Num (int color), Lit ''m'', Txt (str text), Lit (esc ''[0m'')]"

definition fantastic_text :: "i32 user" where
  "fantastic_text =
     ubind (u_println (
       color_text ''H'' 31 @ color_text ''e'' 32 @ color_text ''l'' 33 @ color_text ''l'' 34 @ color_text ''o'' 35 @ [Lit '' ''] @
       color_text ''R'' 36 @ color_text ''u'' 37 @ color_text ''s'' 90 @ color_text ''t'' 91 @ [Lit '' ''] @
       color_text ''u'' 92 @ color_text ''C'' 93 @ color_text ''o'' 94 @ color_text ''r'' 95 @ color_text ''e'' 96 @ color_text ''!'' 97 @ [Lit ''''])) (\<lambda>_.
     let text = ''reguler '' @ esc ''[4munderline'' @ esc ''[24m '' @ esc ''[7mreverse'' @ esc ''[27m '' @ esc ''[9mstrikethrough'' @ esc ''[29m''
     in ubind (u_println ([Lit (esc ''[47m'')] @ color_text text 30 @ [Lit (esc ''[0m'')])) (\<lambda>_.
        ubind (ufor [31..<38] (\<lambda>i. u_println (color_text text i @ [Lit '''']))) (\<lambda>_.
        ubind (ufor [90..<98] (\<lambda>i. u_println (color_text text i @ [Lit '''']))) (\<lambda>_.
        ureturn 0))))"

text \<open>
  \<open>f\<close> calls itself without end.  The stack is not modelled: the fault that ends the process when the stack is full is not a request.
\<close>

definition stack_overflow_f :: "usize \<Rightarrow> 'a user" where
  "stack_overflow_f = uloop (\<lambda>d. ubind (u_println [Lit ''d = '', Num (uint d)]) (\<lambda>_. ureturn (Inl (d + 1))))"

definition stack_overflow :: "i32 user" where
  "stack_overflow =
     ubind (u_println [Lit ''It should trigger segmentation fault!'']) (\<lambda>_.
     ubind (stack_overflow_f 0) (\<lambda>_ :: unit. ureturn 0))"

subsection \<open>Programs about one process\<close>

definition yield_main :: "i32 user" where
  "yield_main =
     ubind getpid_u (\<lambda>p.
     ubind (u_println [Lit ''Hello, I am process '', Num (sint p), Lit ''.'']) (\<lambda>_.
     ubind (ufor [0..<5] (\<lambda>i.
        ubind yield_u (\<lambda>_.
        ubind getpid_u (\<lambda>p.
        u_println [Lit ''Back in process '', Num (sint p), Lit '', iteration '', Num (int i), Lit ''.''])))) (\<lambda>_.
     ubind (u_println [Lit ''yield pass.'']) (\<lambda>_.
     ureturn 0))))"

definition sleep_simple :: "i32 user" where
  "sleep_simple =
     ubind (u_println [Lit ''into sleep test!'']) (\<lambda>_.
     ubind get_time_u (\<lambda>start.
     ubind (u_println [Lit ''current time_msec = '', Num (sint start)]) (\<lambda>_.
     ubind (sleep 100) (\<lambda>_.
     ubind get_time_u (\<lambda>end.
     ubind (u_println [Lit ''time_msec = '', Num (sint end), Lit '' after sleeping 100 ticks, delta = '', Num (sint (end - start)), Lit ''ms!'']) (\<lambda>_.
     ubind (u_println [Lit ''r_sleep passed!'']) (\<lambda>_.
     ureturn 0)))))))"

subsection \<open>Programs that fork\<close>

definition MAGIC :: i32 where
  "MAGIC = - 0x10384"

definition exit_main :: "reports \<Rightarrow> i32 user" where
  "exit_main pi =
     ubind (u_println [Lit ''I am the parent. Forking the child...'']) (\<lambda>_.
     ubind fork_u (\<lambda>pid.
     ubind (if pid = 0 then
         ubind (u_println [Lit ''I am the child.'']) (\<lambda>_.
         ubind (ufor [0..<7] (\<lambda>_. ubind yield_u (\<lambda>_. ureturn ()))) (\<lambda>_.
         u_exit pi MAGIC))
       else u_println [Lit ''I am parent, fork a child pid '', Num (sint pid)]) (\<lambda>_.
     ubind (u_println [Lit ''I am the parent, waiting now..'']) (\<lambda>_.
     ubind (waitpid pid 0) (\<lambda>(r, xstate).
     ubind (u_assert (r = pid \<and> xstate = MAGIC) (pi ''src/bin/exit.rs'' 25 [])) (\<lambda>_.
     ubind (waitpid pid xstate) (\<lambda>(r, xstate).
     ubind (if r <s 0 then ubind (wait xstate) (\<lambda>(r, xstate). ureturn (r \<le>s 0)) else ureturn False) (\<lambda>b.
     ubind (u_assert b (pi ''src/bin/exit.rs'' 26 [])) (\<lambda>_.
     ubind (u_println [Lit ''waitpid '', Num (sint pid), Lit '' ok.'']) (\<lambda>_.
     ubind (u_println [Lit ''exit pass.'']) (\<lambda>_.
     ureturn 0)))))))))))"

definition MAX_CHILD :: nat where
  "MAX_CHILD = 30"

definition forktest :: "reports \<Rightarrow> i32 user" where
  "forktest pi =
     ubind (ufor [0..<MAX_CHILD] (\<lambda>i.
       ubind fork_u (\<lambda>pid.
       ubind (if pid = 0 then ubind (u_println [Lit ''I am child '', Num (int i)]) (\<lambda>_. u_exit pi 0)
         else u_println [Lit ''forked child pid = '', Num (sint pid)]) (\<lambda>_.
       u_assert (0 <s pid) (pi ''src/bin/forktest.rs'' 21 []))))) (\<lambda>_.
     ubind (ufold (\<lambda>_ exit_code.
       ubind (wait exit_code) (\<lambda>(r, exit_code).
       if r \<le>s 0 then u_panic (pi ''src/bin/forktest.rs'' 26 []) else ureturn exit_code)) [0..<MAX_CHILD] 0) (\<lambda>exit_code.
     ubind (wait exit_code) (\<lambda>(r, exit_code).
     ubind (if 0 <s r then u_panic (pi ''src/bin/forktest.rs'' 30 []) else ureturn ()) (\<lambda>_.
     ubind (u_println [Lit ''forktest pass.'']) (\<lambda>_.
     ureturn 0)))))"

definition NUM :: nat where
  "NUM = 30"

definition forktest2 :: "reports \<Rightarrow> i32 user" where
  "forktest2 pi =
     ubind (ufor [0..<NUM] (\<lambda>_.
       ubind fork_u (\<lambda>pid.
       if pid = 0 then
         ubind get_time_u (\<lambda>current_time.
         let sleep_length = irem (as_i32 current_time * as_i32 current_time) 1000 + 1000
         in ubind getpid_u (\<lambda>p.
            ubind (u_println [Lit ''pid '', Num (sint p), Lit '' sleep for '', Num (sint sleep_length), Lit '' ms'']) (\<lambda>_.
            ubind (sleep sleep_length) (\<lambda>_.
            ubind getpid_u (\<lambda>p.
            ubind (u_println [Lit ''pid '', Num (sint p), Lit '' OK!'']) (\<lambda>_.
            u_exit pi 0))))))
       else ureturn ()))) (\<lambda>_.
     ubind (ufold (\<lambda>_ exit_code.
       ubind (wait exit_code) (\<lambda>(r, exit_code).
       ubind (u_assert (0 <s r) (pi ''src/bin/forktest2.rs'' 28 [])) (\<lambda>_.
       ubind (u_assert (exit_code = 0) (pi ''src/bin/forktest2.rs'' 29 [scast exit_code, 0])) (\<lambda>_.
       ureturn exit_code)))) [0..<NUM] 0) (\<lambda>exit_code.
     ubind (wait exit_code) (\<lambda>(r, exit_code).
     ubind (u_assert (r <s 0) (pi ''src/bin/forktest2.rs'' 31 [])) (\<lambda>_.
     ubind (u_println [Lit ''forktest2 test passed!'']) (\<lambda>_.
     ureturn 0)))))"

definition forktest_simple :: "reports \<Rightarrow> i32 user" where
  "forktest_simple pi =
     ubind (wait 0) (\<lambda>(r, _).
     ubind (u_assert (r = - 1) (pi ''src/bin/forktest_simple.rs'' 11 [r, - 1])) (\<lambda>_.
     ubind (u_println [Lit ''sys_wait without child process test passed!'']) (\<lambda>_.
     ubind getpid_u (\<lambda>p.
     ubind (u_println [Lit ''parent start, pid = '', Num (sint p), Lit ''!'']) (\<lambda>_.
     ubind fork_u (\<lambda>pid.
     if pid = 0 then ubind (u_println [Lit ''hello child process!'']) (\<lambda>_. ureturn 100)
     else
       ubind (u_println [Lit ''ready waiting on parent process!'']) (\<lambda>_.
       ubind (wait 0) (\<lambda>(r, exit_code).
       ubind (u_assert (pid = r) (pi ''src/bin/forktest_simple.rs'' 23 [pid, r])) (\<lambda>_.
       ubind (u_assert (exit_code = 100) (pi ''src/bin/forktest_simple.rs'' 24 [scast exit_code, 100])) (\<lambda>_.
       ubind (u_println [Lit ''child process pid = '', Num (sint pid), Lit '', exit code = '', Num (sint exit_code)]) (\<lambda>_.
       ureturn 0)))))))))))"

definition DEPTH :: nat where
  "DEPTH = 4"

function fork_child :: "reports \<Rightarrow> u8 list \<Rightarrow> u8 \<Rightarrow> unit user" and fork_tree :: "reports \<Rightarrow> u8 list \<Rightarrow> unit user" where
  "fork_child pi cur branch =
     (let l = length cur
      in if DEPTH \<le> l then ureturn ()
         else
           (let next = cur @ [branch]
            in ubind fork_u (\<lambda>pid.
               if pid = 0 then
                 ubind (fork_tree pi next) (\<lambda>_.
                 ubind yield_u (\<lambda>_.
                 u_exit pi 0))
               else ureturn ())))"
| "fork_tree pi cur =
     ubind getpid_u (\<lambda>p.
     ubind (u_println [Lit ''pid'', Num (sint p), Lit '': '', Txt cur]) (\<lambda>_.
     ubind (fork_child pi cur (of_char CHR ''0'')) (\<lambda>_.
     fork_child pi cur (of_char CHR ''1''))))"
  by pat_completeness auto
termination
  by (relation "measure (\<lambda>x. case x of Inl (pi, cur, branch) \<Rightarrow> 2 * (DEPTH - length cur) | Inr (pi, cur) \<Rightarrow> 2 * (DEPTH - length cur) + 1)") auto

declare fork_child.simps [simp del] fork_tree.simps [simp del]

definition forktree :: "reports \<Rightarrow> i32 user" where
  "forktree pi = ubind (fork_tree pi []) (\<lambda>_. ubind (sleep 3000) (\<lambda>_. ureturn 0))"

definition sleepy :: "reports \<Rightarrow> unit user" where
  "sleepy pi =
     (let time = 100
      in ubind (ufor [0..<5] (\<lambda>i.
           ubind (sleep time) (\<lambda>_.
           u_println [Lit ''sleep '', Num (int i + 1), Lit '' x '', Num (uint time), Lit '' msecs.'']))) (\<lambda>_.
         u_exit pi 0))"

definition sleep_main :: "reports \<Rightarrow> i32 user" where
  "sleep_main pi =
     ubind get_time_u (\<lambda>current_time.
     ubind fork_u (\<lambda>pid.
     ubind (if pid = 0 then sleepy pi else ureturn ()) (\<lambda>_.
     ubind (waitpid pid 0) (\<lambda>(r, exit_code).
     ubind (u_assert (r = pid \<and> exit_code = 0) (pi ''src/bin/sleep.rs'' 26 [])) (\<lambda>_.
     ubind get_time_u (\<lambda>t.
     ubind (u_println [Lit ''use '', Num (sint (t - current_time)), Lit '' msecs.'']) (\<lambda>_.
     ubind (u_println [Lit ''sleep pass.'']) (\<lambda>_.
     ureturn 0))))))))"

subsection \<open>Programs that start others\<close>

text \<open>A string literal with a final zero.\<close>

definition zstr :: "string \<Rightarrow> u8 list" where
  "zstr s = str s @ [0]"

definition initproc_step :: "unit \<Rightarrow> (unit + unit) user" where
  "initproc_step _ =
     ubind (wait 0) (\<lambda>(pid, exit_code).
     if pid = - 1 then ubind yield_u (\<lambda>_. ureturn (Inl ()))
     else
       ubind (u_println [Lit ''[initproc] Released a zombie process, pid='', Num (sint pid), Lit '', exit_code='', Num (sint exit_code)]) (\<lambda>_.
       ureturn (Inl ())))"

definition initproc :: "i32 user" where
  "initproc =
     ubind fork_u (\<lambda>pid.
     ubind (if pid = 0 then ubind (exec_u (zstr ''user_shell'')) (\<lambda>_. ureturn ()) else uloop initproc_step ()) (\<lambda>_.
     ureturn 0))"

definition TESTS :: "u8 list list" where
  "TESTS = map zstr [''exit'', ''fantastic_text'', ''forktest'', ''forktest2'', ''forktest_simple'', ''hello_world'', ''matrix'', ''sleep'',
     ''sleep_simple'', ''stack_overflow'', ''yield'']"

definition usertests :: "reports \<Rightarrow> i32 user" where
  "usertests pi =
     ubind (ufor TESTS (\<lambda>test.
       ubind (u_println [Lit ''Usertests: Running '', Txt test]) (\<lambda>_.
       ubind fork_u (\<lambda>pid.
       if pid = 0 then ubind (exec_u test) (\<lambda>_. u_panic (pi ''src/bin/usertests.rs'' 30 []))
       else
         ubind (waitpid pid 0) (\<lambda>(wait_pid, exit_code).
         ubind (u_assert (pid = wait_pid) (pi ''src/bin/usertests.rs'' 34 [pid, wait_pid])) (\<lambda>_.
         u_println [Lit (esc ''[32mUsertests: Test ''), Txt test, Lit '' in Process '', Num (sint pid), Lit '' exited with code '', Num (sint exit_code), Lit (esc ''[0m'')])))))) (\<lambda>_.
     ubind (u_println [Lit ''Usertests passed!'']) (\<lambda>_.
     ureturn 0))"

end
