(* ===== verification/User_Shell.thy ===== *)
theory User_Shell
  imports User_Programs
begin

text \<open>
  The shell (\<^verbatim>\<open>src/user/src/bin/user_shell.rs\<close>).  The line is a list of characters; all of them come from bytes, so
  a character is a byte, and its UTF-8 form has one byte or two.
\<close>

subsection \<open>The program\<close>

definition LF :: u8 where "LF = 0x0a"
definition CR :: u8 where "CR = 0x0d"
definition DL :: u8 where "DL = 0x7f"
definition BS :: u8 where "BS = 0x08"

definition as_str :: "u8 list \<Rightarrow> u8 list" where
  "as_str line = concat (map utf8_char line)"

definition prompt :: "piece list" where
  "prompt = [Lit ''p0lar1s@os:~# '']"

text \<open>The arm for \<open>LF\<close> and \<open>CR\<close> after the line feed; the line is not empty.  \<open>Inr\<close> is a return from \<open>main\<close>.\<close>

definition run_line :: "reports \<Rightarrow> u8 list \<Rightarrow> (u8 list + i32) user" where
  "run_line pi line =
     (let line = line @ [0]
      in ubind fork_u (\<lambda>pid.
         if pid = 0 then
           ubind (exec_u (as_str line)) (\<lambda>r.
           if r = - 1 then ubind (u_println [Lit ''Error when executing!'']) (\<lambda>_. ureturn (Inr (- 4)))
           else u_panic (pi ''src/bin/user_shell.rs'' 45 []))
         else
           ubind (waitpid pid 0) (\<lambda>(exit_pid, exit_code).
           ubind (u_assert (pid = exit_pid) (pi ''src/bin/user_shell.rs'' 51 [pid, exit_pid])) (\<lambda>_.
           ubind (u_println [Lit ''Shell: Process '', Num (sint pid), Lit '' exited with code '', Num (sint exit_code)]) (\<lambda>_.
           ureturn (Inl []))))))"

definition shell_step :: "reports \<Rightarrow> u8 list \<Rightarrow> (u8 list + i32) user" where
  "shell_step pi line =
     ubind getchar (\<lambda>c.
     if c = LF \<or> c = CR then
       ubind (u_println [Lit '''']) (\<lambda>_.
       ubind (if line \<noteq> [] then run_line pi line else ureturn (Inl line)) (\<lambda>y.
       case y of
         Inr code \<Rightarrow> ureturn (Inr code)
       | Inl line \<Rightarrow> ubind (u_print prompt) (\<lambda>_. ureturn (Inl line))))
     else if c = BS \<or> c = DL then
       (if line \<noteq> [] then
          ubind (u_print [Chr BS]) (\<lambda>_.
          ubind (u_print [Lit '' '']) (\<lambda>_.
          ubind (u_print [Chr BS]) (\<lambda>_.
          ureturn (Inl (butlast line)))))
        else ureturn (Inl line))
     else
       ubind (u_print [Chr c]) (\<lambda>_.
       ureturn (Inl (line @ [c]))))"

definition user_shell :: "reports \<Rightarrow> i32 user" where
  "user_shell pi =
     ubind (u_println [Lit ''Rust user shell'']) (\<lambda>_.
     let line = []
     in ubind (u_print prompt) (\<lambda>_.
        uloop (shell_step pi) line))"

lemma asks_run_line: "asks well_formed (run_line pi line)"
  unfolding run_line_def Let_def
  by (intro asks_intros) (auto simp: as_str_def utf8_char_def intro!: asks_intros split: prod.split)

lemma asks_shell_step: "asks well_formed (shell_step pi line)"
  unfolding shell_step_def
  by (intro asks_intros asks_run_line) (auto intro: asks_intros split: sum.split)

lemma asks_user_shell: "asks well_formed (user_shell pi)"
  unfolding user_shell_def Let_def by (intro asks_intros asks_shell_step)

subsection \<open>Typing a line\<close>

text \<open>What the typed bytes leave in the line, and the answers that a program has had when they were typed and echoed.\<close>

definition edit :: "u8 list \<Rightarrow> u8 \<Rightarrow> u8 list" where
  "edit line c = (if c = BS \<or> c = DL then butlast line else line @ [c])"

definition typed :: "u8 \<Rightarrow> answer" where
  "typed c = \<lparr>a_ret = 1, a_byte = Some c, a_code = None\<rparr>"

definition wrote :: "nat \<Rightarrow> answer" where
  "wrote n = \<lparr>a_ret = of_nat n, a_byte = None, a_code = None\<rparr>"

definition echo_answers :: "u8 list \<Rightarrow> u8 \<Rightarrow> answer list" where
  "echo_answers line c =
     typed c # (if c = BS \<or> c = DL then (if line = [] then [] else [wrote 1, wrote 1, wrote 1]) else [wrote (length (utf8_char c))])"

fun typing :: "u8 list \<Rightarrow> u8 list \<Rightarrow> answer list" where
  "typing line [] = []"
| "typing line (c # cs) = echo_answers line c @ typing (edit line c) cs"

lemma getchar_typed [simp]: "getchar (typed c # h) = Some (Done c h)"
  by (simp add: getchar_def u_read_def u_sys_read_def u_syscall_def typed_def ubind_def ureturn_def)

lemma write_str_answer [simp]: "u_write_str s (a # h) = Some (Done () h)"
  by (simp add: u_write_str_def u_write_def u_sys_write_def u_syscall_def ubind_def ureturn_def)

lemma print_char [simp]: "u_print [Chr c] (a # h) = Some (Done () h)"
  by (simp add: u_print_def ubind_def ureturn_def)

lemma print_literal [simp]: "s \<noteq> [] \<Longrightarrow> u_print [Lit s] (a # h) = Some (Done () h)"
  by (simp add: u_print_def ubind_def ureturn_def)

lemma shell_step_edit:
  assumes "c \<notin> {LF, CR}"
  shows "shell_step pi line (echo_answers line c @ h) = Some (Done (Inl (edit line c)) h)"
  using assms by (simp add: shell_step_def echo_answers_def edit_def) (simp add: ureturn_def)

text \<open>The loop goes on with the edited line.\<close>

lemma shell_typing:
  assumes "\<forall>c \<in> set cs. c \<notin> {LF, CR}"
  shows "uloop (shell_step pi) line (typing line cs @ h) = uloop (shell_step pi) (foldl edit line cs) h"
  using assms
proof (induction cs arbitrary: line)
  case (Cons c cs)
  have "shell_step pi line (typing line (c # cs) @ h) = Some (Done (Inl (edit line c)) (typing (edit line c) cs @ h))"
    using Cons.prems by (simp add: shell_step_edit)
  then show ?case using Cons by (subst uloop_unfold) simp
qed simp

text \<open>The answers up to the end of the line: the greeting, the first prompt, the typed line, and the key that ends it.\<close>

definition ret :: "isize \<Rightarrow> answer" where
  "ret n = \<lparr>a_ret = n, a_byte = None, a_code = None\<rparr>"

definition child_exit :: "isize \<Rightarrow> i32 \<Rightarrow> answer" where
  "child_exit pid code = \<lparr>a_ret = pid, a_byte = None, a_code = Some code\<rparr>"

definition entered :: "u8 list \<Rightarrow> u8 \<Rightarrow> answer list" where
  "entered cs e = [wrote 16, wrote 14] @ typing [] cs @ [typed e, wrote 1]"

lemma user_shell_start: "user_shell pi ([a, b] @ h) = uloop (shell_step pi) [] h"
  by (simp add: user_shell_def u_println_def prompt_def)

lemma ubind_at: "m h = m' h' \<Longrightarrow> ubind m f h = ubind m' f h'"
  by (simp add: ubind_def)

lemma user_shell_entered:
  assumes "\<forall>c \<in> set cs. c \<notin> {LF, CR}" and "e \<in> {LF, CR}" and "foldl edit [] cs \<noteq> []"
  shows "user_shell pi (entered cs e @ h) =
    ubind (run_line pi (foldl edit [] cs)) (\<lambda>y. case y of Inr code \<Rightarrow> ureturn code
      | Inl line \<Rightarrow> ubind (u_print prompt) (\<lambda>_. uloop (shell_step pi) line)) h"
proof -
  let ?line = "foldl edit [] cs"
  have "user_shell pi (entered cs e @ h) = uloop (shell_step pi) [] (typing [] cs @ typed e # wrote 1 # h)"
    using user_shell_start [of pi "wrote 16" "wrote 14"] by (simp add: entered_def)
  also have "\<dots> = uloop (shell_step pi) ?line (typed e # wrote 1 # h)" by (rule shell_typing [OF assms(1)])
  also have "\<dots> = ubind (shell_step pi ?line) (\<lambda>y. case y of Inl s' \<Rightarrow> uloop (shell_step pi) s' | Inr x \<Rightarrow> ureturn x) (typed e # wrote 1 # h)"
    by (subst uloop_unfold) simp
  also have "\<dots> = ubind (ubind (run_line pi ?line) (\<lambda>y. case y of Inr code \<Rightarrow> ureturn (Inr code)
      | Inl line \<Rightarrow> ubind (u_print prompt) (\<lambda>_. ureturn (Inl line)))) (\<lambda>y. case y of Inl s' \<Rightarrow> uloop (shell_step pi) s' | Inr x \<Rightarrow> ureturn x) h"
    by (rule ubind_at) (use assms(2,3) in \<open>auto simp: shell_step_def u_println_def\<close>)
  also have "\<dots> = ubind (run_line pi ?line) (\<lambda>y. case y of Inr code \<Rightarrow> ureturn code
      | Inl line \<Rightarrow> ubind (u_print prompt) (\<lambda>_. uloop (shell_step pi) line)) h"
    unfolding ubind_assoc by (rule arg_cong [of _ _ "\<lambda>f. ubind _ f h"]) (auto simp: ubind_assoc fun_eq_iff split: sum.split)
  finally show ?thesis .
qed

lemma ufor_write:
  "length ws = length xs \<Longrightarrow> ufor xs u_write_str (ws @ h) = Some (Done () h)"
  "length ws < length xs \<Longrightarrow> ufor xs u_write_str ws = Some (Ask (write_request (xs ! length ws)))"
proof -
  show "length ws = length xs \<Longrightarrow> ufor xs u_write_str (ws @ h) = Some (Done () h)"
    by (induction xs ws rule: list_induct2') (simp_all add: ureturn_def)
  have "u_write_str x [] = Some (Ask (write_request x))" for x
    by (simp add: u_write_str_def u_write_def u_sys_write_def u_syscall_def write_request_def)
  then show "length ws < length xs \<Longrightarrow> ufor xs u_write_str ws = Some (Ask (write_request (xs ! length ws)))"
    by (induction xs ws rule: list_induct2') simp_all
qed

text \<open>The strings that \<open>println!\<close> writes, one request each.\<close>

definition printed :: "piece list \<Rightarrow> u8 list list" where
  "printed args = concat (map writes (add_lf args))"

lemma println_requests:
  "length ws = length (printed args) \<Longrightarrow> u_println args (ws @ h) = Some (Done () h)"
  "length ws < length (printed args) \<Longrightarrow> u_println args ws = Some (Ask (write_request (printed args ! length ws)))"
  unfolding u_println_def u_print_def printed_def by (rule ufor_write, assumption)+

definition exit_message :: "isize \<Rightarrow> i32 \<Rightarrow> u8 list list" where
  "exit_message pid code = printed [Lit ''Shell: Process '', Num (sint pid), Lit '' exited with code '', Num (sint code)]"

lemma getchar_request: "getchar [] = Some (Ask read_request)"
  by (simp add: getchar_def u_read_def u_sys_read_def u_syscall_def read_request_def)

lemma exec_request: "exec_u path [] = Some (Ask \<lparr>rq_id = U_SYSCALL_EXEC, rq_args = (Addr, Val 0, Val 0), rq_data = path\<rparr>)"
  "exec_u path (a # h) = Some (Done (a_ret a) h)"
  by (simp_all add: exec_u_def u_sys_exec_def call_simps)

lemma fork_request: "fork_u [] = Some (Ask (plain_request U_SYSCALL_FORK))" "fork_u (a # h) = Some (Done (a_ret a) h)"
  by (simp_all add: fork_u_def u_sys_fork_def plain_request_def call_simps)

text \<open>The shell forks; the child replaces itself, or fails and returns; the parent waits for it and reports.\<close>

lemma run_line_fork: "run_line pi line [] = Some (Ask (plain_request U_SYSCALL_FORK))"
  by (simp add: run_line_def Let_def fork_request)

lemma run_line_child:
  "run_line pi line [ret 0] = Some (Ask \<lparr>rq_id = U_SYSCALL_EXEC, rq_args = (Addr, Val 0, Val 0), rq_data = as_str line @ [0]\<rparr>)"
  "run_line pi line [ret 0, ret (- 1), a] = Some (Done (Inr (- 4)) [])"
  by (simp_all add: run_line_def Let_def fork_request exec_request ret_def as_str_def utf8_char_def u_println_def) (simp add: ureturn_def)

lemma line_feed: "of_char (char_of (10 :: nat)) = LF"
  by (simp add: char_of_def LF_def bit_0)

lemma run_line_error:
  "run_line pi line [ret 0, ret (- 1)] = Some (Ask (write_request (str ''Error when executing!'' @ [LF])))"
  using println_requests(2) [of "[]" "[Lit ''Error when executing!'']"]
  by (simp add: run_line_def Let_def fork_request exec_request ret_def printed_def str_def line_feed)

lemma run_line_waits:
  assumes "pid \<noteq> 0" and "busy_rounds (\<lambda>_ a. a_ret a = - 2) code_after 0 rs = Some c"
  shows "run_line pi line (ret pid # round_answers rs) = Some (Ask (waitpid_request pid c))"
    and "a_ret a = - 2 \<Longrightarrow> run_line pi line (ret pid # round_answers rs @ [a]) = Some (Ask (plain_request U_SYSCALL_YIELD))"
  using assms(1) waiting.after_rounds(1,2) [OF assms(2), where pid = pid]
  by (simp_all add: run_line_def Let_def fork_request ret_def waitpid_def)

lemma run_line_reports:
  assumes "pid \<noteq> 0" and "pid \<noteq> - 2" and "busy_rounds (\<lambda>_ a. a_ret a = - 2) code_after 0 rs = Some c"
  shows "length ws < length (exit_message pid code) \<Longrightarrow>
      run_line pi line (ret pid # round_answers rs @ child_exit pid code # ws) = Some (Ask (write_request (exit_message pid code ! length ws)))"
    and "length ws = length (exit_message pid code) \<Longrightarrow>
      run_line pi line (ret pid # round_answers rs @ child_exit pid code # ws @ h) = Some (Done (Inl []) h)"
proof -
  have w: "waitpid pid 0 (round_answers rs @ child_exit pid code # h) = Some (Done (pid, code) h)" for h
    using waiting.after_rounds(3) [OF assms(3), of "child_exit pid code" pid h] assms(2) by (simp add: waitpid_def child_exit_def code_after_def)
  show "run_line pi line (ret pid # round_answers rs @ child_exit pid code # ws) = Some (Ask (write_request (exit_message pid code ! length ws)))"
    if "length ws < length (exit_message pid code)"
    using assms(1) println_requests(2) [OF that [unfolded exit_message_def]] w [of ws]
    by (simp add: run_line_def Let_def fork_request ret_def u_assert_def exit_message_def)
  show "run_line pi line (ret pid # round_answers rs @ child_exit pid code # ws @ h) = Some (Done (Inl []) h)"
    if "length ws = length (exit_message pid code)"
    using assms(1) println_requests(1) [OF that [unfolded exit_message_def], of h] w [of "ws @ h"]
    by (simp add: run_line_def Let_def fork_request ret_def u_assert_def) (simp add: ureturn_def)
qed

lemma prompt_request: "u_print prompt [] = Some (Ask (write_request (str ''p0lar1s@os:~# '')))"
  using ufor_write(2) [of "[]" "[str ''p0lar1s@os:~# '']"] by (simp add: u_print_def prompt_def)

lemma shell_reads:
  assumes "\<forall>c \<in> set cs. c \<notin> {LF, CR}"
  shows "user_shell pi ([wrote 16, wrote 14] @ typing [] cs) = Some (Ask read_request)"
proof -
  have "user_shell pi ([wrote 16, wrote 14] @ typing [] cs) = uloop (shell_step pi) (foldl edit [] cs) []"
    using user_shell_start [of pi "wrote 16" "wrote 14"] shell_typing [OF assms, of pi "[]" "[]"] by simp
  also have "\<dots> = Some (Ask read_request)" by (subst uloop_unfold) (simp add: shell_step_def getchar_request)
  finally show ?thesis .
qed

subsection \<open>Properties\<close>

text \<open>
  C20: the shell runs the line that was typed.  Whatever keys are pressed, with backspace and delete taking back
  the last character of the line if there is one, the shell asks for the next key, and the key that ends a line that is not empty makes the shell
  fork.  The child asks for the program named by the edited line with a final zero, and if there is no such program
  it says so and ends with exit code \<open>-4\<close>.  The parent asks \<open>waitpid\<close> for exactly this child and yields, for as long as the child has not exited;
  then it writes the message with the pid and the exit code of this child, the pieces one by one, then the prompt, and starts over with an
  empty line.
\<close>

theorem shell_runs_line:
  assumes keys: "\<forall>c \<in> set cs. c \<notin> {LF, CR}" "e \<in> {LF, CR}" and line: "foldl edit [] cs = line" "line \<noteq> []"
  shows "user_shell pi ([wrote 16, wrote 14] @ typing [] cs) = Some (Ask read_request) \<and>
    user_shell pi (entered cs e) = Some (Ask (plain_request U_SYSCALL_FORK)) \<and>
    user_shell pi (entered cs e @ [ret 0]) = Some (Ask \<lparr>rq_id = U_SYSCALL_EXEC, rq_args = (Addr, Val 0, Val 0), rq_data = as_str line @ [0]\<rparr>) \<and>
    user_shell pi (entered cs e @ [ret 0, ret (- 1)]) = Some (Ask (write_request (str ''Error when executing!'' @ [LF]))) \<and>
    user_shell pi (entered cs e @ [ret 0, ret (- 1), wrote 22]) = Some (Done (- 4) []) \<and>
    (\<forall>pid rs c. pid \<noteq> 0 \<longrightarrow> busy_rounds (\<lambda>_ a. a_ret a = - 2) code_after 0 rs = Some c \<longrightarrow>
       user_shell pi (entered cs e @ ret pid # round_answers rs) = Some (Ask (waitpid_request pid c)) \<and>
       (\<forall>a. a_ret a = - 2 \<longrightarrow> user_shell pi (entered cs e @ ret pid # round_answers rs @ [a]) = Some (Ask (plain_request U_SYSCALL_YIELD))) \<and>
       (\<forall>code ws. pid \<noteq> - 2 \<longrightarrow>
          (length ws < length (exit_message pid code) \<longrightarrow>
             user_shell pi (entered cs e @ ret pid # round_answers rs @ child_exit pid code # ws) = Some (Ask (write_request (exit_message pid code ! length ws)))) \<and>
          (length ws = length (exit_message pid code) \<longrightarrow>
             user_shell pi (entered cs e @ ret pid # round_answers rs @ child_exit pid code # ws) = Some (Ask (write_request (str ''p0lar1s@os:~# ''))) \<and>
             (\<forall>w h. user_shell pi (entered cs e @ ret pid # round_answers rs @ child_exit pid code # ws @ w # h) = uloop (shell_step pi) [] h))))"
proof -
  have "foldl edit [] cs \<noteq> []" using line by simp
  note r = user_shell_entered [OF keys this, of pi, unfolded line(1)]
  show ?thesis
  proof (intro conjI allI impI)
    show "user_shell pi ([wrote 16, wrote 14] @ typing [] cs) = Some (Ask read_request)" using keys(1) by (rule shell_reads)
    show "user_shell pi (entered cs e) = Some (Ask (plain_request U_SYSCALL_FORK))"
      using r [of "[]"] run_line_fork by simp
    show "user_shell pi (entered cs e @ [ret 0]) = Some (Ask \<lparr>rq_id = U_SYSCALL_EXEC, rq_args = (Addr, Val 0, Val 0), rq_data = as_str line @ [0]\<rparr>)"
      using run_line_child(1) by (simp add: r)
    show "user_shell pi (entered cs e @ [ret 0, ret (- 1)]) = Some (Ask (write_request (str ''Error when executing!'' @ [LF])))"
      using run_line_error by (simp add: r)
    show "user_shell pi (entered cs e @ [ret 0, ret (- 1), wrote 22]) = Some (Done (- 4) [])"
      using run_line_child(2) by (simp add: r) (simp add: ureturn_def)
  next
    fix pid :: isize and rs c
    assume pid: "pid \<noteq> 0" and rs: "busy_rounds (\<lambda>_ a. a_ret a = - 2) code_after 0 rs = Some c"
    show "user_shell pi (entered cs e @ ret pid # round_answers rs) = Some (Ask (waitpid_request pid c))"
      using run_line_waits(1) [OF pid rs] by (simp add: r)
    show "user_shell pi (entered cs e @ ret pid # round_answers rs @ [a]) = Some (Ask (plain_request U_SYSCALL_YIELD))" if "a_ret a = - 2" for a
      using run_line_waits(2) [OF pid rs that] by (simp add: r)
    fix code ws
    assume "pid \<noteq> - 2"
    note rep = run_line_reports [OF pid this rs, where code = code and ws = ws and pi = pi and line = line]
    show "user_shell pi (entered cs e @ ret pid # round_answers rs @ child_exit pid code # ws) = Some (Ask (write_request (exit_message pid code ! length ws)))"
      if "length ws < length (exit_message pid code)" using rep(1) [OF that] by (simp add: r)
    show "user_shell pi (entered cs e @ ret pid # round_answers rs @ child_exit pid code # ws) = Some (Ask (write_request (str ''p0lar1s@os:~# '')))"
      if "length ws = length (exit_message pid code)" using rep(2) [OF that, of "[]"] by (simp add: r prompt_request)
    show "user_shell pi (entered cs e @ ret pid # round_answers rs @ child_exit pid code # ws @ w # h) = uloop (shell_step pi) [] h"
      if "length ws = length (exit_message pid code)" for w h using rep(2) [OF that, of "w # h"] by (simp add: r prompt_def)
  qed
qed

theorem shell_runs_line_witness:
  "user_shell (\<lambda>_ _ _. \<lparr>pi_location = None, pi_message = []\<rparr>) (entered (str ''lx'' @ [BS] @ str ''s'') CR @ [ret 0]) =
     Some (Ask \<lparr>rq_id = U_SYSCALL_EXEC, rq_args = (Addr, Val 0, Val 0), rq_data = str ''ls'' @ [0]\<rparr>)"
proof -
  let ?cs = "str ''lx'' @ [BS] @ str ''s''"
  have k: "\<forall>c \<in> set ?cs. c \<notin> {LF, CR}" "CR \<in> {LF, CR}" "foldl edit [] ?cs = str ''ls''" "str ''ls'' \<noteq> []"
    by (simp_all add: str_def LF_def CR_def BS_def DL_def edit_def)
  from shell_runs_line [OF k] show ?thesis by (simp add: as_str_def str_def utf8_char_def)
qed

end
