(* ===== verification/User_Matrix.thy ===== *)
theory User_Matrix
  imports User_Programs
begin

text \<open>
  The matrix program (\<^verbatim>\<open>src/user/src/bin/matrix.rs\<close>): powers of a matrix modulo a prime in 32-bit arithmetic, with
  arrays that are updated in place.
\<close>

subsection \<open>The program\<close>

definition NUM_MATRIX :: nat where "NUM_MATRIX = 30"
definition N_MATRIX :: nat where "N_MATRIX = 10"
definition P_MATRIX :: i32 where "P_MATRIX = 10007"

type_synonym Arr = "i32 list list"

definition get2 :: "Arr \<Rightarrow> nat \<Rightarrow> nat \<Rightarrow> i32" where
  "get2 a i j = a ! i ! j"

definition set2 :: "Arr \<Rightarrow> nat \<Rightarrow> nat \<Rightarrow> i32 \<Rightarrow> Arr" where
  "set2 a i j v = a[i := (a ! i)[j := v]]"

definition Arr_default :: Arr where
  "Arr_default = replicate N_MATRIX (replicate N_MATRIX 0)"

text \<open>The loops of \<open>work\<close>: filling \<open>a\<close> and \<open>b\<close>, one element of the product, the product in \<open>c\<close>, and copying it back.\<close>

definition mat_fill :: "Arr \<times> Arr \<Rightarrow> Arr \<times> Arr" where
  "mat_fill = fold (\<lambda>i. fold (\<lambda>j (a, b). (set2 a i j 1, set2 b i j 1)) [0..<N_MATRIX]) [0..<N_MATRIX]"

definition mat_cell :: "Arr \<Rightarrow> Arr \<Rightarrow> nat \<Rightarrow> nat \<Rightarrow> Arr \<Rightarrow> Arr" where
  "mat_cell a b i j c =
     fold (\<lambda>k c. set2 c i j (irem (get2 c i j + get2 a i k * get2 b k j) P_MATRIX)) [0..<N_MATRIX] (set2 c i j 0)"

definition mat_mul :: "Arr \<Rightarrow> Arr \<Rightarrow> Arr \<Rightarrow> Arr" where
  "mat_mul a b = fold (\<lambda>i. fold (\<lambda>j. mat_cell a b i j) [0..<N_MATRIX]) [0..<N_MATRIX]"

definition mat_copy :: "Arr \<Rightarrow> Arr \<times> Arr \<Rightarrow> Arr \<times> Arr" where
  "mat_copy c = fold (\<lambda>i. fold (\<lambda>j (a, b). (set2 a i j (get2 c i j), set2 b i j (get2 c i j))) [0..<N_MATRIX]) [0..<N_MATRIX]"

definition mat_round :: "Arr \<times> Arr \<times> Arr \<Rightarrow> Arr \<times> Arr \<times> Arr" where
  "mat_round = (\<lambda>(a, b, c). let c = mat_mul a b c in case mat_copy c (a, b) of (a, b) \<Rightarrow> (a, b, c))"

definition mat_init :: "Arr \<times> Arr \<times> Arr" where
  "mat_init = (case mat_fill (Arr_default, Arr_default) of (a, b) \<Rightarrow> (a, b, Arr_default))"

definition work :: "reports \<Rightarrow> isize \<Rightarrow> unit user" where
  "work pi ts =
     (let abc = mat_init
      in ubind yield_u (\<lambda>_.
         ubind getpid_u (\<lambda>p.
         ubind (u_println [Lit ''pid '', Num (sint p), Lit '' is running ('', Num (sint ts), Lit '' times)!.'']) (\<lambda>_.
         let abc = (mat_round ^^ nat (sint ts)) abc
         in ubind getpid_u (\<lambda>p.
            ubind (u_println [Lit ''pid '', Num (sint p), Lit '' done!.'']) (\<lambda>_.
            u_exit pi 0))))))"

definition matrix :: "reports \<Rightarrow> i32 user" where
  "matrix pi =
     ubind (ufor [0..<NUM_MATRIX] (\<lambda>_.
       ubind fork_u (\<lambda>pid.
       if pid = 0 then
         ubind get_time_u (\<lambda>current_time.
         let ts = irem (as_i32 current_time * as_i32 current_time) 1000
         in work pi (ts * 10))
       else ureturn ()))) (\<lambda>_.
     ubind (u_println [Lit ''fork ok.'']) (\<lambda>_.
     ubind (ufold (\<lambda>_ exit_code.
       ubind (wait exit_code) (\<lambda>(r, exit_code).
       if r <s 0 then u_panic (pi ''src/bin/matrix.rs'' 64 []) else ureturn exit_code)) [0..<NUM_MATRIX] 0) (\<lambda>exit_code.
     ubind (wait exit_code) (\<lambda>(r, exit_code).
     ubind (u_assert (r <s 0) (pi ''src/bin/matrix.rs'' 67 [])) (\<lambda>_.
     ubind (u_println [Lit ''matrix passed.'']) (\<lambda>_.
     ureturn 0))))))"

subsection \<open>Loops over arrays\<close>

lemma fold_row: "n \<le> length r \<Longrightarrow> fold (\<lambda>j r. r[j := g j]) [0..<n] r = map g [0..<n] @ drop n r"
  by (induction n) (auto simp: list_update_append Cons_nth_drop_Suc [symmetric])

lemma fold_in_row:
  assumes "i < length c"
  shows "fold (\<lambda>j c. c[i := (c ! i)[j := g j]]) js c = c[i := fold (\<lambda>j r. r[j := g j]) js (c ! i)]"
  using assms by (induction js arbitrary: c) simp_all

definition square :: "Arr \<Rightarrow> bool" where
  "square c \<longleftrightarrow> length c = N_MATRIX \<and> (\<forall>r \<in> set c. length r = N_MATRIX)"

text \<open>A loop that sets every element.\<close>

definition tabulate :: "(nat \<Rightarrow> nat \<Rightarrow> i32) \<Rightarrow> Arr" where
  "tabulate g = map (\<lambda>i. map (g i) [0..<N_MATRIX]) [0..<N_MATRIX]"

lemma square_tabulate [simp]: "square (tabulate g)"
  by (auto simp: square_def tabulate_def)

lemma get2_tabulate [simp]: "i < N_MATRIX \<Longrightarrow> j < N_MATRIX \<Longrightarrow> get2 (tabulate g) i j = g i j"
  by (simp add: get2_def tabulate_def)

lemma tabulate_get2: "square c \<Longrightarrow> tabulate (get2 c) = c"
  by (auto simp: square_def tabulate_def get2_def intro!: nth_equalityI)

lemma tabulate_cong: "(\<And>i j. i < N_MATRIX \<Longrightarrow> j < N_MATRIX \<Longrightarrow> g i j = h i j) \<Longrightarrow> tabulate g = tabulate h"
  by (simp add: tabulate_def)

lemma fold_square:
  assumes c: "square c" and step: "\<And>i j c. i < N_MATRIX \<Longrightarrow> j < N_MATRIX \<Longrightarrow> square c \<Longrightarrow> f i j c = set2 c i j (g i j)"
  shows "fold (\<lambda>i. fold (f i) [0..<N_MATRIX]) [0..<N_MATRIX] c = tabulate g"
proof -
  have sq: "square (set2 c i j v)" if "square c" "i < N_MATRIX" for c i j v
    using that by (auto simp: square_def set2_def dest!: set_update_subset_insert [THEN subsetD])
  have inner: "fold (f i) js c = fold (\<lambda>j c. set2 c i j (g i j)) js c" if "i < N_MATRIX" "square c" "\<forall>j \<in> set js. j < N_MATRIX" for i js c
    using that(2,3) by (induction js arbitrary: c) (simp_all add: step sq that(1))
  have row: "fold (f i) [0..<N_MATRIX] c = c[i := map (g i) [0..<N_MATRIX]]" if "i < N_MATRIX" "square c" for i c
  proof -
    have "i < length c" "length (c ! i) = N_MATRIX" using that by (auto simp: square_def)
    then show ?thesis using inner [OF that] fold_in_row [of i c "g i" "[0..<N_MATRIX]"] fold_row [of N_MATRIX "c ! i" "g i"]
      by (simp add: set2_def)
  qed
  have "fold (\<lambda>i. fold (f i) [0..<N_MATRIX]) js c = fold (\<lambda>i c. c[i := map (g i) [0..<N_MATRIX]]) js c \<and>
      square (fold (\<lambda>i c. c[i := map (g i) [0..<N_MATRIX]]) js c)" if "square c" "\<forall>j \<in> set js. j < N_MATRIX" for js c
    using that
  proof (induction js arbitrary: c)
    case (Cons i js)
    have "square (c[i := map (g i) [0..<N_MATRIX]])"
      using Cons.prems by (auto simp: square_def dest!: set_update_subset_insert [THEN subsetD])
    then show ?case using Cons row by simp
  qed simp
  from this [OF c, of "[0..<N_MATRIX]"] fold_row [of N_MATRIX c "\<lambda>i. map (g i) [0..<N_MATRIX]"] c
  show ?thesis by (simp add: square_def tabulate_def)
qed

lemma fold_pair: "fold (\<lambda>x (a, b). (F x a, G x b)) xs (a, b) = (fold F xs a, fold G xs b)"
  by (induction xs arbitrary: a b) simp_all

lemma fold_pair2:
  "fold (\<lambda>i. fold (\<lambda>j (a, b). (F i j a, G i j b)) ys) xs (a, b) = (fold (\<lambda>i. fold (F i) ys) xs a, fold (\<lambda>i. fold (G i) ys) xs b)"
  by (induction xs arbitrary: a b) (simp_all add: fold_pair)

lemma mat_fill_eq: "square a \<Longrightarrow> square b \<Longrightarrow> mat_fill (a, b) = (tabulate (\<lambda>_ _. 1), tabulate (\<lambda>_ _. 1))"
  unfolding mat_fill_def fold_pair2 by (simp add: fold_square)

lemma mat_copy_eq: "square a \<Longrightarrow> square b \<Longrightarrow> square c \<Longrightarrow> mat_copy c (a, b) = (c, c)"
  unfolding mat_copy_def fold_pair2 by (simp add: fold_square [where g = "get2 c"] tabulate_get2)

subsection \<open>Arithmetic\<close>

text \<open>A matrix of integers as an array of 32-bit words.\<close>

definition words :: "(nat \<Rightarrow> nat \<Rightarrow> int) \<Rightarrow> Arr" where
  "words A = tabulate (\<lambda>i j. word_of_int (A i j))"

definition residues :: "(nat \<Rightarrow> nat \<Rightarrow> int) \<Rightarrow> bool" where
  "residues A \<longleftrightarrow> (\<forall>i < N_MATRIX. \<forall>j < N_MATRIX. 0 \<le> A i j \<and> A i j < 10007)"

text \<open>No step overflows: the sum is below \<open>10007 ^ 2\<close>, which is less than \<open>2 ^ 31\<close>.\<close>

lemma irem_step:
  assumes v: "0 \<le> v" "v < 10007" and x: "0 \<le> x" "x < 10007" and y: "0 \<le> y" "y < 10007"
  shows "irem (word_of_int v + word_of_int x * word_of_int y) P_MATRIX = (word_of_int ((v + x * y) mod 10007) :: i32)"
proof -
  have "x * y \<le> 10006 * 10006" using x y by (intro mult_mono) auto
  moreover have nn: "0 \<le> x * y" using x(1) y(1) by (rule mult_nonneg_nonneg)
  ultimately have b: "0 \<le> v + x * y" "v + x * y < 2 ^ 31" using v by auto
  have "word_of_int v + word_of_int x * word_of_int y = (word_of_int (v + x * y) :: i32)" by simp
  moreover have "sint (word_of_int (v + x * y) :: i32) = v + x * y"
    unfolding sint_sbintrunc' using b by (simp add: signed_take_bit_int_eq_self)
  moreover have "sint P_MATRIX = 10007" by (simp add: P_MATRIX_def)
  moreover have "(v + x * y) smod 10007 = (v + x * y) mod 10007" using b(1) by (cases "v + x * y = 0") (simp_all add: signed_modulo_int_def)
  ultimately show ?thesis by (simp add: irem_def)
qed

lemma dot_fold:
  assumes "residues A" and "residues B" and "i < N_MATRIX" and "j < N_MATRIX" and "n \<le> N_MATRIX"
  shows "fold (\<lambda>k v. irem (v + get2 (words A) i k * get2 (words B) k j) P_MATRIX) [0..<n] 0 = word_of_int ((\<Sum>k<n. A i k * B k j) mod 10007)"
  using assms(5)
proof (induction n)
  case (Suc n)
  then have "0 \<le> A i n" "A i n < 10007" "0 \<le> B n j" "B n j < 10007" using assms by (auto simp: residues_def)
  from irem_step [OF _ _ this, of "(\<Sum>k<n. A i k * B k j) mod 10007"] Suc show ?case
    using assms(3,4) by (simp add: words_def mod_add_left_eq)
qed simp

lemma mat_cell_eq:
  assumes "square c" and "i < N_MATRIX" and "j < N_MATRIX"
  shows "mat_cell a b i j c = set2 c i j (fold (\<lambda>k v. irem (v + get2 a i k * get2 b k j) P_MATRIX) [0..<N_MATRIX] 0)"
proof -
  have ij: "i < length c" "j < length (c ! i)" using assms by (auto simp: square_def)
  have "fold (\<lambda>k c. set2 c i j (irem (get2 c i j + get2 a i k * get2 b k j) P_MATRIX)) ks (set2 c i j v) =
      set2 c i j (fold (\<lambda>k v. irem (v + get2 a i k * get2 b k j) P_MATRIX) ks v)" for ks v
    using ij by (induction ks arbitrary: v) (simp_all add: set2_def get2_def)
  then show ?thesis by (simp add: mat_cell_def)
qed

lemma mat_mul_words:
  assumes "residues A" and "residues B" and "square c"
  shows "mat_mul (words A) (words B) c = words (\<lambda>i j. (\<Sum>k<N_MATRIX. A i k * B k j) mod 10007)"
  unfolding mat_mul_def words_def [of "\<lambda>i j. (\<Sum>k<N_MATRIX. A i k * B k j) mod 10007"]
  by (rule fold_square [OF assms(3)]) (simp add: mat_cell_eq dot_fold [OF assms(1,2)])

lemma square_words [simp]: "square (words A)"
  by (simp add: words_def)

lemma square_default [simp]: "square Arr_default"
  by (auto simp: square_def Arr_default_def)

lemma mat_round_words:
  assumes "residues A" and "square c"
  shows "mat_round (words A, words A, c) =
    (let C = words (\<lambda>i j. (\<Sum>k<N_MATRIX. A i k * A k j) mod 10007) in (C, C, C))"
  using mat_mul_words [OF assms(1,1,2)] by (simp add: mat_round_def Let_def mat_copy_eq)

lemma mat_init_words: "mat_init = (words (\<lambda>_ _. 1), words (\<lambda>_ _. 1), Arr_default)"
  by (simp add: mat_init_def mat_fill_eq words_def)

lemma mat_rounds_words:
  "\<exists>c. square c \<and> (mat_round ^^ n) mat_init = (words (\<lambda>_ _. 10 ^ (2 ^ n - 1) mod 10007), words (\<lambda>_ _. 10 ^ (2 ^ n - 1) mod 10007), c)"
proof (induction n)
  case 0
  then show ?case by (auto simp: mat_init_words)
next
  case (Suc n)
  then obtain c where c: "square c"
    "(mat_round ^^ n) mat_init = (words (\<lambda>_ _. 10 ^ (2 ^ n - 1) mod 10007), words (\<lambda>_ _. 10 ^ (2 ^ n - 1) mod 10007), c)" by blast
  have "residues (\<lambda>_ _. 10 ^ (2 ^ n - 1) mod 10007)" by (simp add: residues_def)
  note r = mat_round_words [OF this c(1)]
  have "Suc m = 2 ^ n \<Longrightarrow> 2 ^ Suc n - 1 = Suc (m + m)" for m :: nat by simp
  from this [of "2 ^ n - 1"] have e: "2 ^ Suc n - 1 = Suc ((2 ^ n - 1) + (2 ^ n - 1) :: nat)" by simp
  have sq: "(10 * ((x mod 10007) * (x mod 10007))) mod 10007 = 10 * (x * x) mod 10007" for x :: int
    using mod_mult_right_eq [of 10 "(x mod 10007) * (x mod 10007)" 10007] mod_mult_right_eq [of 10 "x * x" 10007] by (simp only: mod_mult_eq)
  have "(10 * ((10 ^ (2 ^ n - 1) mod 10007) * (10 ^ (2 ^ n - 1) mod 10007))) mod 10007 = (10 :: int) ^ (2 ^ Suc n - 1) mod 10007"
    unfolding e by (simp only: power_Suc power_add sq)
  then have "(\<Sum>k<N_MATRIX. (10 ^ (2 ^ n - 1) mod 10007) * (10 ^ (2 ^ n - 1) mod 10007)) mod 10007 = (10 :: int) ^ (2 ^ Suc n - 1) mod 10007"
    by (simp add: N_MATRIX_def)
  then show ?case using r c(2) by (auto simp: Let_def)
qed

subsection \<open>Properties\<close>

text \<open>
  C23: the product of the matrix program is exact.  For matrices of residues modulo 10007, the loops that update the
  array in place, with a remainder of 32-bit numbers after every addition, give the product of the integer
  matrices modulo 10007, whatever the array held before; nothing overflows.  In \<open>work\<close>, after \<open>n\<close> rounds every element of
  both factors is \<open>10 ^ (2 ^ n - 1)\<close> modulo 10007.
\<close>

theorem matrix_product_exact:
  assumes "residues A" and "residues B" and "square c"
  shows "mat_mul (words A) (words B) c = words (\<lambda>i j. (\<Sum>k<10. A i k * B k j) mod 10007) \<and>
    (let F = words (\<lambda>_ _. 10 ^ (2 ^ n - 1) mod 10007) in \<exists>c. (mat_round ^^ n) mat_init = (F, F, c))"
  using mat_mul_words [OF assms] mat_rounds_words [of n] by (auto simp: N_MATRIX_def Let_def)

theorem matrix_product_exact_witness:
  "mat_mul (words (\<lambda>i j. int (i + j))) (words (\<lambda>i j. int i)) Arr_default =
     words (\<lambda>i j. (\<Sum>k<10. int (i + k) * int k) mod 10007)"
proof -
  have "residues (\<lambda>i j. int (i + j))" "residues (\<lambda>i j. int i)" by (auto simp: residues_def N_MATRIX_def)
  from matrix_product_exact [OF this square_default] show ?thesis by simp
qed

end
