(* ===== verification/User_Apps.thy ===== *)
theory User_Apps
  imports User_Shell User_Matrix Syscall
begin

text \<open>
  The programs of the repository together, and the kernel that serves them.
\<close>

subsection \<open>All programs\<close>

text \<open>\<open>a0\<close> is what two of the programs leave in the register of the result.\<close>

definition user_apps :: "reports \<Rightarrow> i32 \<Rightarrow> (string \<times> i32 user) list" where
  "user_apps pi a0 =
     [(''exit'', exit_main pi), (''fantastic_text'', fantastic_text), (''forktest'', forktest pi), (''forktest2'', forktest2 pi),
      (''forktest_simple'', forktest_simple pi), (''forktree'', forktree pi), (''hello_world'', hello_world), (''initproc'', initproc),
      (''matrix'', matrix pi), (''sleep'', sleep_main pi), (''sleep_simple'', sleep_simple), (''stack_overflow'', stack_overflow),
      (''uname'', uname a0), (''user_shell'', user_shell pi), (''usertests'', usertests pi), (''whoami'', whoami a0), (''yield'', yield_main)]"

lemma asks_case_prod [asks_intros]: "(\<And>x y. asks P (f x y)) \<Longrightarrow> asks P (case z of (x, y) \<Rightarrow> f x y)"
  by (cases z) simp

lemma asks_printing:
  "asks well_formed hello_world" "asks well_formed (uname a0)" "asks well_formed (whoami a0)" "asks well_formed fantastic_text"
  "asks well_formed stack_overflow"
  unfolding hello_world_def uname_def whoami_def fantastic_text_def stack_overflow_def stack_overflow_f_def Let_def
  by (intro asks_intros)+

lemma asks_alone: "asks well_formed yield_main" "asks well_formed sleep_simple"
  unfolding yield_main_def sleep_simple_def by (intro asks_intros)+

lemma asks_forking:
  "asks well_formed (exit_main pi)" "asks well_formed (forktest pi)" "asks well_formed (forktest2 pi)" "asks well_formed (forktest_simple pi)"
  "asks well_formed (sleep_main pi)"
  unfolding exit_main_def forktest_def forktest2_def forktest_simple_def sleep_main_def sleepy_def Let_def
  by (intro asks_intros)+

lemma asks_fork_tree: "asks well_formed (fork_child pi cur branch)" "asks well_formed (fork_tree pi cur')"
proof (induction pi cur branch and pi cur' rule: fork_child_fork_tree.induct)
  case (1 pi cur branch)
  then show ?case by (subst fork_child.simps) (auto simp: Let_def intro!: asks_intros)
next
  case (2 pi cur)
  then show ?case by (subst fork_tree.simps) (auto intro!: asks_intros)
qed

lemma zstr_ends: "zstr s \<noteq> []" "last (zstr s) = 0"
  by (simp_all add: zstr_def)

lemma asks_ufor_in: "(\<And>x. x \<in> set xs \<Longrightarrow> asks P (body x)) \<Longrightarrow> asks P (ufor xs body)"
  by (induction xs) (simp_all add: asks_ureturn asks_ubind)

lemma asks_starting:
  "asks well_formed initproc" "asks well_formed (usertests pi)" "asks well_formed (forktree pi)" "asks well_formed (matrix pi)"
proof -
  show "asks well_formed initproc" unfolding initproc_def initproc_step_def by (intro asks_intros zstr_ends)
  have "test \<noteq> [] \<and> last test = 0" if "test \<in> set TESTS" for test using that by (auto simp: TESTS_def zstr_ends)
  then show "asks well_formed (usertests pi)" unfolding usertests_def
    by (intro asks_ubind asks_ufor_in) (intro asks_intros; simp)+
  show "asks well_formed (forktree pi)" unfolding forktree_def by (intro asks_intros asks_fork_tree)
  show "asks well_formed (matrix pi)" unfolding matrix_def work_def Let_def by (intro asks_intros)
qed

lemma asks_user_apps: "(name, m) \<in> set (user_apps pi a0) \<Longrightarrow> asks well_formed m"
  by (auto simp: user_apps_def asks_printing asks_alone asks_forking asks_starting asks_user_shell)

subsection \<open>Serving requests\<close>

text \<open>What the kernel does with a request when the buffer of the program is at \<open>ptr\<close>.\<close>

definition reg :: "usize \<Rightarrow> uarg \<Rightarrow> usize" where
  "reg ptr a = (case a of Val v \<Rightarrow> v | Addr \<Rightarrow> ptr)"

definition serve :: "kernel_env \<Rightarrow> answers \<Rightarrow> usize \<Rightarrow> request \<Rightarrow> kernel \<Rightarrow> isize flow result option" where
  "serve env ans ptr q k = (case rq_args q of (x, y, z) \<Rightarrow> syscall env ans (rq_id q) (reg ptr x) (reg ptr y) (reg ptr z) k)"

lemma ucast_scast_i32: "ucast (scast (c :: i32) :: usize) = c"
  by (rule bit_word_eqI) (auto simp: bit_unsigned_iff bit_signed_iff min_def less_Suc_eq_le [of _ 31, simplified] dest!: le_antisym)

text \<open>
  A well-formed request gets past the checks of the kernel, to the operation that it stands for, with the
  arguments the program meant.
\<close>

definition served_well :: "kernel_env \<Rightarrow> answers \<Rightarrow> usize \<Rightarrow> request \<Rightarrow> kernel \<Rightarrow> bool" where
  "served_well env ans ptr q k \<longleftrightarrow>
     serve env ans ptr q k =
       (if rq_id q = U_SYSCALL_READ then read_loop (ans_char ans) FD_STDIN ptr 1 k
        else if rq_id q = U_SYSCALL_WRITE then
          (let len = of_nat (length (rq_data q))
           in obind (Some (current_user_token k)) (\<lambda>(tok, k).
              obind (translated_byte_buffer (mm_mem (mm k)) tok ptr len) (\<lambda>buffers.
              Some (bind (for_each write_buffer buffers k) (\<lambda>k. Inr (Returns len k))))))
        else if rq_id q = U_SYSCALL_YIELD then Some (sys_yield k)
        else if rq_id q = U_SYSCALL_GET_TIME then Some (Inr (sys_get_time ans k))
        else if rq_id q = U_SYSCALL_GETPID then Some (sys_getpid k)
        else if rq_id q = U_SYSCALL_FORK then Some (sys_fork env k)
        else if rq_id q = U_SYSCALL_EXEC then sys_exec env ptr k
        else if rq_id q = U_SYSCALL_EXIT then
          (case rq_args q of (Val v, _, _) \<Rightarrow> sys_exit env (ucast v) k)
        else (case rq_args q of (Val pid, _, _) \<Rightarrow> Some (sys_waitpid pid ptr k)))"

lemma well_formed_served: "well_formed q \<Longrightarrow> served_well env ans ptr q k"
  unfolding well_formed_def
  by (elim disjE conjE exE insertE emptyE)
    (simp_all add: served_well_def serve_def reg_def syscall_def sys_read_def sys_write_def STDIN_def STDOUT_def Let_def obind_simps)

subsection \<open>\<open>initproc\<close> stays\<close>

lemma write_str_asks: "u_write_str s [] = Some (Ask \<lparr>rq_id = U_SYSCALL_WRITE, rq_args = (Val STDOUT, Addr, Val (of_nat (length s))), rq_data = s\<rparr>)"
  by (simp add: u_write_str_def u_write_def u_sys_write_def call_simps)

text \<open>Printing asks for writes until all answers are there, and then goes on.\<close>

lemma ufor_write_cases:
  "(\<exists>q. ufor xs u_write_str h = Some (Ask q) \<and> rq_id q = U_SYSCALL_WRITE) \<or> (\<exists>h'. ufor xs u_write_str h = Some (Done () h') \<and> length h' \<le> length h)"
proof (induction xs arbitrary: h)
  case (Cons x xs)
  show ?case
  proof (cases h)
    case Nil
    then show ?thesis by (simp add: write_str_asks)
  next
    case (Cons a h')
    then show ?thesis using Cons.IH [of h'] by fastforce
  qed
qed (simp add: ureturn_def)

lemma println_cases:
  "(\<exists>q. u_println args h = Some (Ask q) \<and> rq_id q = U_SYSCALL_WRITE) \<or> (\<exists>h'. u_println args h = Some (Done () h') \<and> length h' \<le> length h)"
  unfolding u_println_def u_print_def by (rule ufor_write_cases)

definition reaper_request :: "request \<Rightarrow> bool" where
  "reaper_request q \<longleftrightarrow> rq_id q \<in> {U_SYSCALL_WAITPID, U_SYSCALL_YIELD, U_SYSCALL_WRITE}"

lemma yield_simps: "yield_u [] = Some (Ask (plain_request U_SYSCALL_YIELD))" "yield_u (a # h) = Some (Done (a_ret a) h)"
  by (simp_all add: yield_u_def u_sys_yield_def plain_request_def call_simps)

lemma initproc_step_cases:
  "(\<exists>q. initproc_step () h = Some (Ask q) \<and> reaper_request q) \<or> (\<exists>h'. initproc_step () h = Some (Done (Inl ()) h') \<and> length h' < length h)"
proof (cases rule: waiting.rounds_cases [of 0 h])
  case (1 ws c)
  then have "wait 0 h = Some (Ask (waitpid_request (- 1) c))" by (simp add: wait_def waiting.after_rounds)
  then show ?thesis by (simp add: initproc_step_def reaper_request_def waitpid_request_def)
next
  case (2 ws c a)
  then have "wait 0 h = Some (Ask (plain_request U_SYSCALL_YIELD))" by (simp add: wait_def waiting.after_rounds)
  then show ?thesis by (simp add: initproc_step_def reaper_request_def plain_request_def)
next
  case (3 ws c a h')
  then have w: "wait 0 h = Some (Done (a_ret a, code_after c a) h')" and l: "length h' < length h" by (simp_all add: wait_def waiting.after_rounds)
  show ?thesis
  proof (cases "a_ret a = - 1")
    case True
    then show ?thesis using w l by (cases h') (simp_all add: initproc_step_def yield_simps ureturn_def reaper_request_def plain_request_def)
  next
    case False
    let ?args = "[Lit ''[initproc] Released a zombie process, pid='', Num (sint (a_ret a)), Lit '', exit_code='', Num (sint (code_after c a))]"
    have s: "initproc_step () h = ubind (u_println ?args) (\<lambda>_. ureturn (Inl ())) h'" using w False by (simp add: initproc_step_def)
    from println_cases [of ?args h'] show ?thesis
    proof (elim disjE exE conjE)
      fix q
      assume "u_println ?args h' = Some (Ask q)" "rq_id q = U_SYSCALL_WRITE"
      then show ?thesis by (simp add: s reaper_request_def)
    next
      fix h''
      assume "u_println ?args h' = Some (Done () h'')" "length h'' \<le> length h'"
      then show ?thesis using l by (simp add: s ureturn_def)
    qed
  qed
qed

lemma initproc_loop: "\<exists>q. uloop initproc_step () h = Some (Ask q) \<and> reaper_request q"
proof (induction h rule: length_induct)
  case (1 h)
  from initproc_step_cases [of h] show ?case
  proof (elim disjE exE conjE)
    fix h'
    assume "initproc_step () h = Some (Done (Inl ()) h')" "length h' < length h"
    then show ?thesis using 1 by (subst uloop_unfold) simp
  qed (subst uloop_unfold, simp)
qed

subsection \<open>Properties\<close>

text \<open>
  C17: the kernel understands every request of every program.  Whatever answers a program has had, its next request
  has one of the nine forms that the kernel serves: a known number, standard input with a buffer of
  one byte, standard output with the length of the buffer, a name with a final zero, and an exit
  code that is the same on both sides.  The kernel never refuses it as an unknown call, file or length, but takes
  the arm of that call, whatever its state and wherever the buffer lies.
\<close>

theorem user_requests_served:
  assumes "(name, m) \<in> set (user_apps pi a0)" and "start_u pi m h = Some (Ask q)"
  shows "well_formed q \<and> served_well env ans ptr q k \<and> (rq_id q = U_SYSCALL_EXIT \<longrightarrow> (\<exists>c. serve env ans ptr q k = sys_exit env c k \<and> rq_args q = (Val (scast c), Val 0, Val 0)))"
proof -
  have wf: "well_formed q" using asks_start [OF asks_user_apps [OF assms(1)], of pi] assms(2) by (auto simp: asks_def)
  have "\<exists>c. serve env ans ptr q k = sys_exit env c k \<and> rq_args q = (Val (scast c), Val 0, Val 0)" if e: "rq_id q = U_SYSCALL_EXIT"
  proof -
    obtain c :: i32 where c: "rq_args q = (Val (scast c), Val 0, Val 0)" using wf e by (auto simp: well_formed_def)
    then show ?thesis using e by (intro exI [of _ c]) (simp add: serve_def reg_def syscall_def ucast_scast_i32)
  qed
  then show ?thesis using wf well_formed_served by blast
qed

theorem user_requests_served_witness:
  "\<exists>q. start_u (\<lambda>_ _ _. \<lparr>pi_location = None, pi_message = []\<rparr>) hello_world [] = Some (Ask q) \<and> well_formed q"
proof -
  let ?pi = "\<lambda>_ _ _. \<lparr>pi_location = None, pi_message = []\<rparr>"
  have m: "(''hello_world'', hello_world) \<in> set (user_apps ?pi 0)" by (simp add: user_apps_def)
  have "\<exists>q. start_u ?pi hello_world [] = Some (Ask q)"
    by (simp add: start_u_def hello_world_def u_println_def u_print_def write_str_asks)
  then show ?thesis using user_requests_served [OF m] by blast
qed

text \<open>
  C21: \<open>initproc\<close> never ends.  Once its call of \<open>fork\<close> has returned in the parent, whatever the kernel answers, it
  always has a next request, and this is one to wait, to yield or to print, never one to exit.  So the panic of
  the kernel at an exit of \<open>initproc\<close> does not come from its program.
\<close>

theorem initproc_never_exits:
  assumes "a_ret a \<noteq> 0"
  shows "\<exists>q. start_u pi initproc (a # h) = Some (Ask q) \<and> rq_id q \<in> {U_SYSCALL_WAITPID, U_SYSCALL_YIELD, U_SYSCALL_WRITE}"
proof -
  from initproc_loop [of h] obtain q where q: "uloop initproc_step () h = Some (Ask q)" "reaper_request q" by blast
  then have "start_u pi initproc (a # h) = Some (Ask q)" using assms by (simp add: start_u_def initproc_def fork_request)
  with q(2) show ?thesis by (auto simp: reaper_request_def)
qed

theorem initproc_never_exits_witness:
  "\<exists>q. start_u (\<lambda>_ _ _. \<lparr>pi_location = None, pi_message = []\<rparr>) initproc [ret 1] = Some (Ask q) \<and> rq_id q \<in> {U_SYSCALL_WAITPID, U_SYSCALL_YIELD, U_SYSCALL_WRITE}"
  using initproc_never_exits [of "ret 1" _ "[]"] by (simp add: ret_def)

end
