(* ===== verification/Link_App.thy ===== *)
theory Link_App
  imports Loader Decimal "HOL-Library.List_Lexorder" "HOL-Library.Char_ord"
begin

text \<open>
  The build script (\<^verbatim>\<open>src/os/build.rs\<close>) writes \<^verbatim>\<open>link_app.S\<close>, the assembly file with the table of applications.  The
  file is a list of directives here, \<open>render\<close> is its text, for names without quotes and backslashes.  \<open>assemble\<close> is what an assembler makes of the
  directives in the data section, and the result is the table that the loader reads.
\<close>

subsection \<open>Directives\<close>

datatype label = NumApp | AppNames | AppStart nat | AppEnd nat

fun label_text :: "label \<Rightarrow> string" where
  "label_text NumApp = ''_num_app''"
| "label_text AppNames = ''_app_names''"
| "label_text (AppStart i) = ''app_'' @ dec i @ ''_start''"
| "label_text (AppEnd i) = ''app_'' @ dec i @ ''_end''"

datatype directive =
    Blank | Align nat | SectionData | Global label | Def label | Quad nat | QuadOf label | Str string | Incbin string

fun render :: "directive \<Rightarrow> string" where
  "render Blank = ''''"
| "render (Align n) = ''    .align '' @ dec n"
| "render SectionData = ''    .section .data''"
| "render (Global l) = ''    .global '' @ label_text l"
| "render (Def l) = label_text l @ '':''"
| "render (Quad n) = ''    .quad '' @ dec n"
| "render (QuadOf l) = ''    .quad '' @ label_text l"
| "render (Str s) = ''    .string '' @ [CHR 0x22] @ s @ [CHR 0x22]"
| "render (Incbin f) = ''    .incbin '' @ [CHR 0x22] @ f @ [CHR 0x22]"

definition asm_text :: "directive list \<Rightarrow> string" where
  "asm_text ds = concat (map (\<lambda>d. render d @ [CHR 0x0A]) ds)"

subsection \<open>The build script\<close>

definition TARGET_PATH :: string where
  "TARGET_PATH = ''../user/target/riscv64gc-unknown-none-elf/release/''"

datatype build_panic = NoExtension string

text \<open>The name of a program: the part of the file name before the first dot.\<close>

definition app_name :: "string \<Rightarrow> build_panic + string" where
  "app_name f = (if CHR ''.'' \<in> set f then Inr (takeWhile (\<lambda>c. c \<noteq> CHR ''.'') f) else Inl (NoExtension f))"

fun app_names :: "string list \<Rightarrow> build_panic + string list" where
  "app_names [] = Inr []"
| "app_names (f # fs) =
     (case app_name f of
        Inl e \<Rightarrow> Inl e
      | Inr a \<Rightarrow> (case app_names fs of Inl e \<Rightarrow> Inl e | Inr as \<Rightarrow> Inr (a # as)))"

definition app_block :: "nat \<times> string \<Rightarrow> directive list" where
  "app_block = (\<lambda>(idx, app).
     [Blank, SectionData, Global (AppStart idx), Global (AppEnd idx), Align 3, Def (AppStart idx), Incbin (TARGET_PATH @ app), Def (AppEnd idx)])"

text \<open>
  \<open>insert_app_data\<close>: what it writes, for the files that \<open>read_dir\<close> lists.  The release profile does not check
  arithmetic, so \<open>apps.len() - 1\<close> wraps around when there are no programs; the label is not defined then, and the
  kernel does not link.
\<close>

definition last_index :: "nat \<Rightarrow> nat" where
  "last_index n = (if n = 0 then 2 ^ 64 - 1 else n - 1)"

definition insert_app_data :: "string list \<Rightarrow> build_panic + directive list" where
  "insert_app_data fs =
     (case app_names fs of
        Inl e \<Rightarrow> Inl e
      | Inr as \<Rightarrow>
          (let apps = sort as
           in Inr (
                [Blank, Align 3, SectionData, Global NumApp, Def NumApp, Quad (length apps)] @
                map (\<lambda>i. QuadOf (AppStart i)) [0..<length apps] @
                [QuadOf (AppEnd (last_index (length apps)))] @
                [Blank, Global AppNames, Def AppNames] @
                map Str apps @
                concat (map app_block (enumerate 0 apps)))))"

subsection \<open>Assembling\<close>

definition pad :: "nat \<Rightarrow> nat \<Rightarrow> nat" where
  "pad n pos = (2 ^ n - pos mod 2 ^ n) mod 2 ^ n"

text \<open>The bytes of a directive at offset \<open>pos\<close> of the data section; \<open>addr\<close> are the addresses of the labels.\<close>

fun asm_bytes :: "(string \<Rightarrow> u8 list) \<Rightarrow> (label \<Rightarrow> usize) \<Rightarrow> nat \<Rightarrow> directive \<Rightarrow> u8 list" where
  "asm_bytes files addr pos (Align n) = replicate (pad n pos) 0"
| "asm_bytes files addr pos (Quad n) = le_bytes 8 (of_nat n :: usize)"
| "asm_bytes files addr pos (QuadOf l) = le_bytes 8 (addr l)"
| "asm_bytes files addr pos (Str s) = map of_char s @ [0]"
| "asm_bytes files addr pos (Incbin f) = files f"
| "asm_bytes files addr pos _ = []"

text \<open>What comes before the first \<open>.section .data\<close> does not go to the data section.\<close>

fun assemble :: "(string \<Rightarrow> u8 list) \<Rightarrow> (label \<Rightarrow> usize) \<Rightarrow> bool \<Rightarrow> nat \<Rightarrow> directive list \<Rightarrow> u8 list" where
  "assemble files addr data pos [] = []"
| "assemble files addr data pos (d # ds) =
     (let bs = (if data then asm_bytes files addr pos d else [])
      in bs @ assemble files addr (data \<or> d = SectionData) (pos + length bs) ds)"

definition offset_of :: "(string \<Rightarrow> u8 list) \<Rightarrow> directive list \<Rightarrow> label \<Rightarrow> nat" where
  "offset_of files ds l = length (assemble files (\<lambda>_. 0) False 0 (takeWhile (\<lambda>d. d \<noteq> Def l) ds))"

definition link_addr :: "(string \<Rightarrow> u8 list) \<Rightarrow> usize \<Rightarrow> directive list \<Rightarrow> label \<Rightarrow> usize" where
  "link_addr files base ds l = base + of_nat (offset_of files ds l)"

definition link_bytes :: "(string \<Rightarrow> u8 list) \<Rightarrow> usize \<Rightarrow> directive list \<Rightarrow> u8 list" where
  "link_bytes files base ds = assemble files (link_addr files base ds) False 0 ds"

lemma length_asm_bytes: "length (asm_bytes files addr pos d) = length (asm_bytes files addr' pos d)"
  by (cases d) simp_all

lemma length_assemble: "length (assemble files addr data pos ds) = length (assemble files addr' data pos ds)"
  by (induction ds arbitrary: data pos) (simp_all add: Let_def length_asm_bytes [of files addr _ _ addr'])

lemma assemble_append:
  "assemble files addr data pos (xs @ ys) =
     assemble files addr data pos xs @ assemble files addr (data \<or> SectionData \<in> set xs) (pos + length (assemble files addr data pos xs)) ys"
  by (induction xs arbitrary: data pos) (auto simp: Let_def add.assoc eq_commute [of SectionData])

text \<open>Where a label is, and the bytes from there on.\<close>

lemma offset_of_eq:
  assumes "ds = xs @ Def l # ys" and "Def l \<notin> set xs"
  shows "offset_of files ds l = length (assemble files addr False 0 xs)"
proof -
  have "takeWhile (\<lambda>d. d \<noteq> Def l) ds = xs" using assms by (auto simp: takeWhile_append)
  then show ?thesis unfolding offset_of_def using length_assemble by metis
qed

text \<open>Labels are told apart by their text.\<close>

lemma label_text_inject: "label_text l = label_text l' \<longleftrightarrow> l = l'"
proof -
  have "dec i @ ''_start'' \<noteq> dec j @ ''_end''" for i j
  proof
    assume "dec i @ ''_start'' = dec j @ ''_end''"
    then have "last (dec i @ ''_start'') = last (dec j @ ''_end'')" by simp
    then show False by simp
  qed
  from this this [symmetric] show ?thesis by (cases l; cases l') auto
qed

subsection \<open>The image\<close>

text \<open>Memory holds the bytes at \<open>base\<close>.\<close>

definition holds :: "memory \<Rightarrow> usize \<Rightarrow> u8 list \<Rightarrow> bool" where
  "holds m base bs \<longleftrightarrow> read_bytes m base (length bs) = bs"

lemma holds_append: "holds m base (xs @ ys) \<longleftrightarrow> holds m base xs \<and> holds m (base + of_nat (length xs)) ys"
  unfolding holds_def length_append read_bytes_append by (simp add: append_eq_append_conv)

lemma holds_le_bytes: "holds m a (le_bytes 8 (w :: usize)) \<Longrightarrow> read_u64 m a = w"
  by (simp add: holds_def read_u64_def of_le_bytes_le_bytes)

text \<open>The bytes of one part of the directives, in place.\<close>

lemma holds_part:
  assumes "holds m base (link_bytes files base ds)" and "ds = xs @ ys @ zs"
  shows "holds m (base + of_nat (length (assemble files addr False 0 xs)))
    (assemble files (link_addr files base ds) (SectionData \<in> set xs) (length (assemble files addr False 0 xs)) ys)"
proof -
  let ?a = "link_addr files base ds"
  have l: "length (assemble files addr False 0 xs) = length (assemble files ?a False 0 xs)" by (rule length_assemble)
  have "link_bytes files base ds = assemble files ?a False 0 xs @ assemble files ?a (SectionData \<in> set xs) (length (assemble files ?a False 0 xs)) (ys @ zs)"
    unfolding link_bytes_def by (subst (2) assms(2)) (simp add: assemble_append)
  with assms(1) show ?thesis unfolding l by (auto simp: holds_append assemble_append)
qed

text \<open>The table of applications, its names, and the blocks of the programs before the \<open>i\<close>-th.\<close>

definition table_part :: "string list \<Rightarrow> directive list" where
  "table_part apps =
     [Blank, Align 3, SectionData, Global NumApp, Def NumApp, Quad (length apps)] @
     map (\<lambda>i. QuadOf (AppStart i)) [0..<length apps] @ [QuadOf (AppEnd (last_index (length apps)))] @ [Blank, Global AppNames, Def AppNames] @ map Str apps"

definition blocks :: "string list \<Rightarrow> nat \<Rightarrow> directive list" where
  "blocks apps i = concat (map app_block (enumerate 0 (take i apps)))"

definition link_app :: "string list \<Rightarrow> directive list" where
  "link_app apps = table_part apps @ blocks apps (length apps)"

lemma insert_app_data_eq:
  "insert_app_data fs = (case app_names fs of Inl e \<Rightarrow> Inl e | Inr as \<Rightarrow> Inr (link_app (sort as)))"
  by (simp add: insert_app_data_def link_app_def table_part_def blocks_def Let_def split: sum.split)

lemma blocks_Suc: "i < length apps \<Longrightarrow> blocks apps (Suc i) = blocks apps i @ app_block (i, apps ! i)"
  by (simp add: blocks_def take_Suc_conv_app_nth enumerate_append_eq)

lemma blocks_split:
  assumes "i < length apps"
  shows "\<exists>zs. blocks apps (length apps) = blocks apps i @ app_block (i, apps ! i) @ zs"
proof -
  have "apps = take i apps @ apps ! i # drop (Suc i) apps" using assms by (simp add: id_take_nth_drop)
  then have "enumerate 0 apps = enumerate 0 (take i apps) @ (i, apps ! i) # enumerate (Suc i) (drop (Suc i) apps)"
    using assms by (metis enumerate_append_eq enumerate_simps(2) length_take min.absorb4 add_0)
  then show ?thesis by (simp add: blocks_def)
qed

text \<open>The offset at which the block of the \<open>i\<close>-th program begins, and the one of its data.\<close>

definition block_pos :: "(string \<Rightarrow> u8 list) \<Rightarrow> string list \<Rightarrow> nat \<Rightarrow> nat" where
  "block_pos files apps i = length (assemble files (\<lambda>_. 0) False 0 (table_part apps @ blocks apps i))"

definition start_pos :: "(string \<Rightarrow> u8 list) \<Rightarrow> string list \<Rightarrow> nat \<Rightarrow> nat" where
  "start_pos files apps i = block_pos files apps i + pad 3 (block_pos files apps i)"

abbreviation app_file :: "(string \<Rightarrow> u8 list) \<Rightarrow> string list \<Rightarrow> nat \<Rightarrow> u8 list" where
  "app_file files apps i \<equiv> files (TARGET_PATH @ apps ! i)"

lemma section_in_table [simp]: "SectionData \<in> set (table_part apps)"
  by (simp add: table_part_def)

lemma block_pos_Suc: "i < length apps \<Longrightarrow> block_pos files apps (Suc i) = start_pos files apps i + length (app_file files apps i)"
  by (simp add: start_pos_def block_pos_def blocks_Suc assemble_append [of _ _ _ _ "_ @ _"] app_block_def flip: append_assoc)

lemma Def_in_blocks: "Def l \<in> set (blocks apps i) \<Longrightarrow> \<exists>j < i. l = AppStart j \<or> l = AppEnd j"
  by (auto simp: blocks_def app_block_def in_set_enumerate_eq)

lemma Def_in_table: "Def l \<in> set (table_part apps) \<Longrightarrow> l = NumApp \<or> l = AppNames"
  by (auto simp: table_part_def)

subsection \<open>Labels\<close>

lemma label_pos:
  assumes "i < length apps"
  shows "offset_of files (link_app apps) (AppStart i) = start_pos files apps i"
    and "offset_of files (link_app apps) (AppEnd i) = block_pos files apps (Suc i)"
proof -
  obtain zs where zs: "blocks apps (length apps) = blocks apps i @ app_block (i, apps ! i) @ zs" using blocks_split [OF assms] by blast
  let ?P = "table_part apps @ blocks apps i"
  let ?xs = "?P @ [Blank, SectionData, Global (AppStart i), Global (AppEnd i), Align 3]"
  have no: "Def (AppStart i) \<notin> set ?P" "Def (AppEnd i) \<notin> set ?P" using Def_in_blocks Def_in_table by fastforce+
  have "link_app apps = ?xs @ Def (AppStart i) # [Incbin (TARGET_PATH @ apps ! i), Def (AppEnd i)] @ zs"
    by (simp add: link_app_def zs app_block_def)
  from offset_of_eq [OF this, of files "\<lambda>_. 0"] no show "offset_of files (link_app apps) (AppStart i) = start_pos files apps i"
    by (simp add: start_pos_def block_pos_def assemble_append [of _ _ _ _ ?P] del: append_assoc)
  let ?ys = "?P @ [Blank, SectionData, Global (AppStart i), Global (AppEnd i), Align 3, Def (AppStart i), Incbin (TARGET_PATH @ apps ! i)]"
  have "link_app apps = ?ys @ Def (AppEnd i) # zs"
    by (simp add: link_app_def zs app_block_def)
  from offset_of_eq [OF this, of files "\<lambda>_. 0"] no show "offset_of files (link_app apps) (AppEnd i) = block_pos files apps (Suc i)"
    unfolding block_pos_Suc [OF assms] by (simp add: start_pos_def block_pos_def assemble_append [of _ _ _ _ ?P] del: append_assoc)
qed

lemma assemble_quads: "assemble files addr True pos (map (\<lambda>i. QuadOf (f i)) is) = concat (map (\<lambda>i. le_bytes 8 (addr (f i))) is)"
  by (induction "is" arbitrary: pos) (simp_all add: Let_def)

lemma length_quads [simp]: "length (concat (map (\<lambda>i. le_bytes 8 (g i :: usize)) is)) = 8 * length is"
  by (induction "is") simp_all

lemma assemble_names: "assemble files addr True pos (map Str apps) = name_bytes (map (map of_char) apps)"
  by (induction apps arbitrary: pos) (simp_all add: Let_def name_bytes_def)

text \<open>The quads of the table, and what comes before and after them.\<close>

definition table_quads :: "string list \<Rightarrow> directive list" where
  "table_quads apps = Quad (length apps) # map (\<lambda>i. QuadOf (AppStart i)) [0..<length apps] @ [QuadOf (AppEnd (last_index (length apps)))]"

lemma table_part_eq:
  "table_part apps = [Blank, Align 3, SectionData, Global NumApp, Def NumApp] @ table_quads apps @ [Blank, Global AppNames, Def AppNames] @ map Str apps"
  by (simp add: table_part_def table_quads_def)

lemma assemble_table_quads:
  "assemble files addr True pos (table_quads apps) =
     le_bytes 8 (of_nat (length apps) :: usize) @ concat (map (\<lambda>i. le_bytes 8 (addr (AppStart i))) [0..<length apps]) @ le_bytes 8 (addr (AppEnd (last_index (length apps))))"
  by (simp add: table_quads_def Let_def assemble_append assemble_quads)

lemma table_pos:
  "offset_of files (link_app apps) NumApp = 0" "offset_of files (link_app apps) AppNames = 8 * (length apps + 2)"
proof -
  have "link_app apps = [Blank, Align 3, SectionData, Global NumApp] @ Def NumApp # table_quads apps @ [Blank, Global AppNames, Def AppNames] @ map Str apps @ blocks apps (length apps)"
    by (simp add: link_app_def table_part_eq)
  from offset_of_eq [OF this, of files "\<lambda>_. 0"] show "offset_of files (link_app apps) NumApp = 0" by simp
  let ?xs = "[Blank, Align 3, SectionData, Global NumApp, Def NumApp] @ table_quads apps @ [Blank, Global AppNames]"
  have "link_app apps = ?xs @ Def AppNames # map Str apps @ blocks apps (length apps)" by (simp add: link_app_def table_part_eq)
  moreover have "Def AppNames \<notin> set ?xs" by (auto simp: table_quads_def)
  ultimately have "offset_of files (link_app apps) AppNames = length (assemble files (\<lambda>_. 0) False 0 ?xs)" by (rule offset_of_eq)
  then show "offset_of files (link_app apps) AppNames = 8 * (length apps + 2)"
    by (simp add: assemble_append assemble_table_quads)
qed

subsection \<open>The loader's table\<close>

text \<open>The bytes that the loader gives for a program: its file, and for all but the last one the padding up to the next.\<close>

definition app_data :: "(string \<Rightarrow> u8 list) \<Rightarrow> string list \<Rightarrow> nat \<Rightarrow> u8 list" where
  "app_data files apps i =
     app_file files apps i @ (if Suc i < length apps then replicate (pad 3 (block_pos files apps (Suc i))) 0 else [])"

lemma held_block:
  assumes held: "holds m base (link_bytes files base (link_app apps))" and i: "i < length apps"
  shows "holds m (base + of_nat (block_pos files apps i)) (replicate (pad 3 (block_pos files apps i)) 0)"
    and "holds m (base + of_nat (start_pos files apps i)) (app_file files apps i)"
proof -
  obtain zs where "blocks apps (length apps) = blocks apps i @ app_block (i, apps ! i) @ zs" using blocks_split [OF i] by blast
  then have "link_app apps = (table_part apps @ blocks apps i) @ app_block (i, apps ! i) @ zs" by (simp add: link_app_def)
  from holds_part [OF held this, of "\<lambda>_. 0"]
  have "holds m (base + of_nat (block_pos files apps i)) (replicate (pad 3 (block_pos files apps i)) 0 @ app_file files apps i)"
    by (simp add: block_pos_def [symmetric] app_block_def)
  then show "holds m (base + of_nat (block_pos files apps i)) (replicate (pad 3 (block_pos files apps i)) 0)"
    "holds m (base + of_nat (start_pos files apps i)) (app_file files apps i)"
    by (simp_all add: holds_append start_pos_def add.assoc)
qed

lemma held_data:
  assumes held: "holds m base (link_bytes files base (link_app apps))" and i: "i < length apps"
  shows "holds m (base + of_nat (start_pos files apps i)) (app_data files apps i)"
proof (cases "Suc i < length apps")
  case True
  have "holds m (base + of_nat (start_pos files apps i) + of_nat (length (app_file files apps i))) (replicate (pad 3 (block_pos files apps (Suc i))) 0)"
    using held_block(1) [OF held True] by (simp add: block_pos_Suc [OF i] add.assoc)
  then show ?thesis using held_block(2) [OF held i] True by (simp add: app_data_def holds_append)
next
  case False
  then show ?thesis using held_block(2) [OF held i] by (simp add: app_data_def)
qed

lemma held_quads:
  assumes held: "holds m base (link_bytes files base (link_app apps))"
  defines "addr \<equiv> link_addr files base (link_app apps)"
  shows "read_u64 m base = of_nat (length apps)"
    and "i < length apps \<Longrightarrow> read_u64 m (base + 8 + 8 * of_nat i) = addr (AppStart i)"
    and "read_u64 m (base + 8 + 8 * of_nat (length apps)) = addr (AppEnd (last_index (length apps)))"
proof -
  let ?q = "\<lambda>is. concat (map (\<lambda>i. le_bytes 8 (addr (AppStart i))) is)"
  have "link_app apps = [Blank, Align 3, SectionData, Global NumApp, Def NumApp] @ table_quads apps @ [Blank, Global AppNames, Def AppNames] @ map Str apps @ blocks apps (length apps)"
    by (simp add: link_app_def table_part_eq)
  from holds_part [OF held this, of "\<lambda>_. 0"]
  have h: "holds m base (le_bytes 8 (of_nat (length apps) :: usize))" "holds m (base + 8) (?q [0..<length apps])"
    "holds m (base + 8 + of_nat (8 * length apps)) (le_bytes 8 (addr (AppEnd (last_index (length apps)))))"
    by (simp_all add: assemble_table_quads holds_append addr_def [symmetric])
  show "read_u64 m base = of_nat (length apps)" using h(1) by (rule holds_le_bytes)
  show "read_u64 m (base + 8 + 8 * of_nat (length apps)) = addr (AppEnd (last_index (length apps)))"
    using holds_le_bytes [OF h(3)] by simp
  show "read_u64 m (base + 8 + 8 * of_nat i) = addr (AppStart i)" if "i < length apps"
  proof -
    have "[0..<length apps] = [0..<i] @ i # [Suc i..<length apps]" using that upt_add_eq_append [of 0 i "length apps - i"] by (simp add: upt_conv_Cons)
    then have "holds m (base + 8 + of_nat (8 * i)) (le_bytes 8 (addr (AppStart i)))" using h(2) by (simp add: holds_append)
    from holds_le_bytes [OF this] show ?thesis by simp
  qed
qed

lemma held_names:
  assumes held: "holds m base (link_bytes files base (link_app apps))"
  shows "holds m (link_addr files base (link_app apps) AppNames) (name_bytes (map (map of_char) apps))"
proof -
  have "link_app apps = ([Blank, Align 3, SectionData, Global NumApp, Def NumApp] @ table_quads apps @ [Blank, Global AppNames, Def AppNames]) @ map Str apps @ blocks apps (length apps)"
    by (simp add: link_app_def table_part_eq)
  from holds_part [OF held this, of "\<lambda>_. 0"] show ?thesis
    by (simp add: link_addr_def table_pos assemble_append assemble_table_quads assemble_names)
qed

lemma addr_next:
  assumes "i < length apps"
  shows "(if Suc i < length apps then link_addr files base (link_app apps) (AppStart (Suc i)) else link_addr files base (link_app apps) (AppEnd i)) =
    link_addr files base (link_app apps) (AppStart i) + of_nat (length (app_data files apps i))"
  using assms by (simp add: link_addr_def label_pos app_data_def start_pos_def [of _ _ "Suc i"] block_pos_Suc add.assoc)

text \<open>The names of programs as the loader wants them.\<close>

definition name_ok :: "string \<Rightarrow> bool" where
  "name_ok s \<longleftrightarrow> (\<forall>c \<in> set s. 0 < (of_char c :: nat) \<and> (of_char c :: nat) < 128)"

lemma name_ok_bytes:
  assumes "name_ok s"
  shows "0 \<notin> set (map of_char s :: u8 list)" and "from_utf8 (map of_char s) = Some (map of_char s)"
proof -
  have u: "unat (of_char c :: u8) = of_char c" for c
  proof -
    have "(of_char c :: u8) = of_nat (of_char c)" by (simp only: of_nat_of_char)
    moreover have "(of_char c :: nat) < 2 ^ 8" using of_char_of [of "of_char c :: nat"] by simp
    ultimately show ?thesis by (simp only: unsigned_of_nat) (simp add: take_bit_nat_eq_self)
  qed
  have "(of_char c :: u8) \<noteq> 0" if "c \<in> set s" for c using assms that u [of c] by (metis name_ok_def unat_0 less_irrefl)
  then show "0 \<notin> set (map of_char s :: u8 list)" by (metis imageE list.set_map)
  show "from_utf8 (map of_char s) = Some (map of_char s)"
    using assms by (subst from_utf8_ascii) (auto simp: u name_ok_def)
qed

text \<open>Every part is shorter than the whole.\<close>

lemma length_link_bytes: "length (link_bytes files base (link_app apps)) = block_pos files apps (length apps)"
  unfolding link_bytes_def block_pos_def link_app_def by (rule length_assemble)

lemma block_pos_mono: "i \<le> j \<Longrightarrow> j \<le> length apps \<Longrightarrow> block_pos files apps i \<le> block_pos files apps j"
proof (induction j rule: dec_induct)
  case (step j)
  then have "block_pos files apps j \<le> block_pos files apps (Suc j)" by (simp add: block_pos_Suc start_pos_def)
  then show ?case using step by simp
qed simp

lemma block_pos_0: "block_pos files apps 0 = 8 * (length apps + 2) + length (name_bytes (map (map of_char) apps))"
  by (simp add: block_pos_def blocks_def table_part_eq assemble_append assemble_table_quads assemble_names)

lemma start_pos_le: "start_pos files apps i \<le> block_pos files apps i + 7"
proof -
  have "pad 3 (block_pos files apps i) < 8" by (simp add: pad_def)
  then show ?thesis by (simp add: start_pos_def)
qed

lemma table_length: "8 * (length apps + 2) + length (name_bytes (map (map of_char) apps)) \<le> length (link_bytes files base (link_app apps))"
proof -
  have "block_pos files apps 0 \<le> length (link_bytes files base (link_app apps))" unfolding length_link_bytes by (rule block_pos_mono) simp_all
  then show ?thesis by (simp add: block_pos_0)
qed

lemma length_app_data:
  assumes i: "i < length apps"
  shows "length (app_data files apps i) \<le> length (link_bytes files base (link_app apps))"
proof (cases "Suc i < length apps")
  case True
  have "length (app_data files apps i) \<le> start_pos files apps (Suc i)"
    using True by (simp add: app_data_def start_pos_def [of _ _ "Suc i"] block_pos_Suc [OF i])
  also have "\<dots> \<le> block_pos files apps (Suc (Suc i))" by (simp add: block_pos_Suc [OF True])
  also have "\<dots> \<le> length (link_bytes files base (link_app apps))" unfolding length_link_bytes using True by (intro block_pos_mono) simp_all
  finally show ?thesis .
next
  case False
  have "length (app_data files apps i) \<le> block_pos files apps (Suc i)" using False by (simp add: app_data_def block_pos_Suc [OF i])
  also have "\<dots> \<le> length (link_bytes files base (link_app apps))" unfolding length_link_bytes using i by (intro block_pos_mono) simp_all
  finally show ?thesis .
qed

lemma link_app_image_ok:
  assumes ok: "\<forall>a \<in> set apps. name_ok a" and size: "length (link_bytes files base (link_app apps)) < 2 ^ 64"
    and held: "holds m base (link_bytes files base (link_app apps))"
  defines "addr \<equiv> link_addr files base (link_app apps)"
  shows "app_image (addr NumApp) (addr AppNames) (map (map of_char) apps) (map (app_data files apps) [0..<length apps]) m"
proof -
  let ?n = "length apps"
  note q = held_quads [OF held, folded addr_def]
  have base: "addr NumApp = base" by (simp add: addr_def link_addr_def table_pos)
  have "read_u64 m (base + 8 + 8 * of_nat (i + 1)) = addr (AppStart i) + of_nat (length (app_data files apps i))" if i: "i < ?n" for i
  proof (cases "Suc i < ?n")
    case True
    then show ?thesis using q(2) [OF True] addr_next [OF i, of files base] by (simp add: addr_def)
  next
    case False
    then have n: "i + 1 = ?n" "last_index ?n = i" using i by (auto simp: last_index_def)
    show ?thesis unfolding n(1) using q(3) addr_next [OF i, of files base] False by (simp add: addr_def n(2))
  qed
  moreover have "read_bytes m (addr (AppStart i)) (length (app_data files apps i)) = app_data files apps i" if i: "i < ?n" for i
    using held_data [OF held i] by (simp add: holds_def addr_def link_addr_def label_pos [OF i])
  moreover have "read_bytes m (addr AppNames) (length (name_bytes (map (map of_char) apps))) = name_bytes (map (map of_char) apps)"
    using held_names [OF held] by (simp add: holds_def addr_def)
  moreover have len: "length (app_data files apps i) < 2 ^ 64" if "i < ?n" for i
    using length_app_data [OF that, of files base] size by (rule le_less_trans)
  moreover have "?n + 1 < 2 ^ 64" "length (name_bytes (map (map of_char) apps)) < 2 ^ 64" using table_length [of apps files base] size by simp_all
  moreover have "\<forall>n \<in> set (map (map of_char) apps). 0 \<notin> set n \<and> from_utf8 n \<noteq> None" using ok name_ok_bytes by auto
  ultimately show ?thesis
    unfolding app_image_def using q(1,2) len by (auto simp: base)
qed

lemma find_map: "find P (map f xs) = map_option f (find (P \<circ> f) xs)"
  by (induction xs) simp_all

subsection \<open>Properties\<close>

text \<open>
  C19: the table of applications that the build script lays out is the one the loader reads.  From the names of
  the source files the script writes its assembly file; when memory holds what an assembler makes of
  it, the loader finds, for the name of every program, the contents of its executable, with less
  than eight zero bytes after it, and nothing for any other name.
\<close>

theorem build_script_feeds_loader:
  assumes script: "insert_app_data fs = Inr ds" and names: "app_names fs = Inr as" "\<forall>a \<in> set as. name_ok a"
    and size: "length (link_bytes files base ds) < 2 ^ 64" and mem: "holds m base (link_bytes files base ds)"
  defines "addr \<equiv> link_addr files base ds"
  shows "(\<forall>a \<in> set as. \<exists>p < 8. get_app_data_by_name (addr NumApp) (addr AppNames) (map of_char a) m = Some (Inr (Some (files (TARGET_PATH @ a) @ replicate p 0)))) \<and>
    (\<forall>a. name_ok a \<longrightarrow> a \<notin> set as \<longrightarrow> get_app_data_by_name (addr NumApp) (addr AppNames) (map of_char a) m = Some (Inr None))"
proof -
  define apps where "apps = sort as"
  have ds: "ds = link_app apps" using script names(1) by (simp add: insert_app_data_eq apps_def split: if_splits)
  have set: "set apps = set as" by (simp add: apps_def)
  have img: "app_image (addr NumApp) (addr AppNames) (map (map of_char) apps) (map (app_data files apps) [0..<length apps]) m"
    unfolding addr_def ds by (rule link_app_image_ok) (use names set size mem ds in auto)
  note look = get_app_data_by_name_eq [OF img]
  have eq: "from_utf8 (map of_char b) = Some (map of_char a) \<longleftrightarrow> b = a" if "b \<in> set apps" for a b
    using names(2) set that name_ok_bytes(2) [of b] by (auto simp: inj_map_eq_map inj_of_char)
  have z: "zip (map (map of_char) apps) (map (app_data files apps) [0..<length apps]) = map (\<lambda>i. (map of_char (apps ! i), app_data files apps i)) [0..<length apps]"
    by (rule nth_equalityI) simp_all
  have found: "get_app_data_by_name (addr NumApp) (addr AppNames) (map of_char a) m =
      Some (Inr (map_option (app_data files apps) (find (\<lambda>i. apps ! i = a) [0..<length apps])))" for a
  proof -
    have "find (\<lambda>i. from_utf8 (map of_char (apps ! i)) = Some (map of_char a)) [0..<length apps] = find (\<lambda>i. apps ! i = a) [0..<length apps]"
      by (rule find_cong) (simp_all add: eq)
    then show ?thesis unfolding look z find_map comp_def by (simp add: option.map_comp comp_def)
  qed
  show ?thesis
  proof (intro conjI ballI allI impI)
    fix a
    assume "a \<in> set as"
    then have "find (\<lambda>i. apps ! i = a) [0..<length apps] \<noteq> None" by (auto simp: find_None_iff in_set_conv_nth simp flip: set)
    then obtain i where i: "find (\<lambda>i. apps ! i = a) [0..<length apps] = Some i" by blast
    then have a: "apps ! i = a" by (auto simp: find_Some_iff)
    have "\<exists>p < 8. app_data files apps i = files (TARGET_PATH @ a) @ replicate p 0"
      by (intro exI [of _ "if Suc i < length apps then pad 3 (block_pos files apps (Suc i)) else 0"]) (simp add: app_data_def a pad_def)
    then show "\<exists>p < 8. get_app_data_by_name (addr NumApp) (addr AppNames) (map of_char a) m = Some (Inr (Some (files (TARGET_PATH @ a) @ replicate p 0)))"
      by (simp add: found i)
  next
    fix a
    assume "a \<notin> set as"
    then have "find (\<lambda>i. apps ! i = a) [0..<length apps] = None" by (auto simp: find_None_iff simp flip: set)
    then show "get_app_data_by_name (addr NumApp) (addr AppNames) (map of_char a) m = Some (Inr None)" by (simp add: found)
  qed
qed

text \<open>Two programs of one and nine bytes, at address 4096.\<close>

definition ex_files :: "string \<Rightarrow> u8 list" where
  "ex_files f = (if f = TARGET_PATH @ ''a'' then [7] else [1, 2, 3, 4, 5, 6, 7, 8, 9])"

definition ex_link :: memory where
  "ex_link = write_bytes (\<lambda>_. 0) 4096 (link_bytes ex_files 4096 (link_app [''a'', ''b'']))"

lemma holds_write: "length bs < 2 ^ 64 \<Longrightarrow> holds (write_bytes m a bs) a bs"
  unfolding holds_def by (rule nth_equalityI) (auto simp: write_bytes_def unat_of_nat_less)

theorem build_script_feeds_loader_witness:
  "\<exists>ds p. insert_app_data [''b.rs'', ''a.rs''] = Inr ds \<and> p < 8 \<and>
     get_app_data_by_name (link_addr ex_files 4096 ds NumApp) (link_addr ex_files 4096 ds AppNames) (map of_char ''a'') ex_link = Some (Inr (Some ([7] @ replicate p 0)))"
proof -
  have n: "app_names [''b.rs'', ''a.rs''] = Inr [''b'', ''a'']" by (simp add: app_name_def)
  then have s: "insert_app_data [''b.rs'', ''a.rs''] = Inr (link_app [''a'', ''b''])" by (simp add: insert_app_data_eq)
  have ok: "\<forall>a \<in> set [''b'', ''a'']. name_ok a" by (simp add: name_ok_def)
  have "block_pos ex_files [''a'', ''b''] 2 = start_pos ex_files [''a'', ''b''] 1 + 9" "block_pos ex_files [''a'', ''b''] 1 = start_pos ex_files [''a'', ''b''] 0 + 1"
    using block_pos_Suc [of 0 "[''a'', ''b'']" ex_files] block_pos_Suc [of 1 "[''a'', ''b'']" ex_files] by (simp_all add: ex_files_def numeral_2_eq_2)
  moreover have "block_pos ex_files [''a'', ''b''] 0 = 36" by (simp add: block_pos_0 name_bytes_def)
  moreover have "length (link_bytes ex_files 4096 (link_app [''a'', ''b''])) = block_pos ex_files [''a'', ''b''] 2" by (simp add: length_link_bytes numeral_2_eq_2)
  ultimately have "length (link_bytes ex_files 4096 (link_app [''a'', ''b''])) < 2 ^ 64"
    using start_pos_le [of ex_files "[''a'', ''b'']" 0] start_pos_le [of ex_files "[''a'', ''b'']" 1] by simp
  from build_script_feeds_loader [OF s n ok this holds_write [OF this, where m = "\<lambda>_. 0" and a = 4096], folded ex_link_def] s show ?thesis
    by (auto simp: ex_files_def)
qed

end
