(* ===== verification/Os_Invariant.thy ===== *)
theory Os_Invariant
  imports Os_Spec
begin

text \<open>
  What holds in every state that the specification of processes reaches, and so in the abstraction of every
  state of the kernel; and what the events leave as it is.
\<close>

definition kids :: "os \<Rightarrow> usize \<Rightarrow> usize list" where
  "kids s q = (case procs s q of None \<Rightarrow> [] | Some P \<Rightarrow> p_children P)"

definition state_of :: "os \<Rightarrow> usize \<Rightarrow> pstate option" where
  "state_of s q = map_option p_state (procs s q)"

lemma state_of_None_iff: "state_of s q = None \<longleftrightarrow> procs s q = None"
  by (simp add: state_of_def)

text \<open>
  The queue holds the ready processes, the hart the running one; a process is the child of at most one
  other; zombies have no children; the initial process has not exited.
\<close>

definition os_wf :: "os \<Rightarrow> bool" where
  "os_wf s \<longleftrightarrow>
     state_of s (init_pid s) \<noteq> None \<and> (\<forall>c. state_of s (init_pid s) \<noteq> Some (PZombie c)) \<and>
     distinct (runq s) \<and> (\<forall>q. q \<in> set (runq s) \<longleftrightarrow> state_of s q = Some PReady) \<and>
     (\<forall>q. on_hart s = Some q \<longleftrightarrow> state_of s q = Some PRunning) \<and>
     (\<forall>q. distinct (kids s q)) \<and> (\<forall>q. \<forall>c \<in> set (kids s q). state_of s c \<noteq> None) \<and>
     (\<forall>q q' c. c \<in> set (kids s q) \<longrightarrow> c \<in> set (kids s q') \<longrightarrow> q = q') \<and>
     (\<forall>q c. state_of s q = Some (PZombie c) \<longrightarrow> kids s q = [])"

subsection \<open>The events on children and states\<close>

lemma run_effect:
  assumes "os_next ORun s = Some s'"
  obtains p q where "on_hart s = None" and "runq s = p # q" and "kids s' = kids s" and "state_of s' = (state_of s)(p := Some PRunning)"
    and "runq s' = q" and "on_hart s' = Some p" and "init_pid s' = init_pid s" and "procs s p \<noteq> None"
proof -
  obtain p q P where o: "on_hart s = None" "runq s = p # q" and P: "procs s p = Some P" and s': "s' = os_run p q P s"
    using assms by (auto split: option.splits list.splits)
  have "kids s' = kids s" "state_of s' = (state_of s)(p := Some PRunning)" using P by (auto simp: s' os_run_def kids_def state_of_def fun_eq_iff)
  with o P that show ?thesis by (simp add: s' os_run_def)
qed

lemma yield_effect:
  assumes "os_next OYield s = Some s'"
  obtains p where "on_hart s = Some p" and "kids s' = kids s" and "state_of s' = (state_of s)(p := Some PReady)"
    and "runq s' = runq s @ [p]" and "on_hart s' = None" and "init_pid s' = init_pid s" and "procs s p \<noteq> None"
proof -
  obtain p P where o: "on_hart s = Some p" and P: "procs s p = Some P" and s': "s' = os_yield p P s"
    using assms by (auto simp: Option.bind_eq_Some_conv)
  have "kids s' = kids s" "state_of s' = (state_of s)(p := Some PReady)" using P by (auto simp: s' os_yield_def kids_def state_of_def fun_eq_iff)
  with o P that show ?thesis by (simp add: s' os_yield_def)
qed

lemma fork_effect_os:
  assumes "os_next (OFork n) s = Some s'"
  obtains p where "on_hart s = Some p" and "kids s' = (kids s)(p := kids s p @ [n], n := [])" and "state_of s' = (state_of s)(n := Some PReady)"
    and "runq s' = runq s @ [n]" and "on_hart s' = on_hart s" and "init_pid s' = init_pid s" and "procs s p \<noteq> None" and "procs s n = None"
proof -
  obtain p P where o: "on_hart s = Some p" and P: "procs s p = Some P" and n: "procs s n = None" and s': "s' = os_fork n p P s"
    using assms by (auto simp: Option.bind_eq_Some_conv split: if_splits)
  have "kids s' = (kids s)(p := kids s p @ [n], n := [])" "state_of s' = (state_of s)(n := Some PReady)"
    using P n by (auto simp: s' os_fork_def kids_def state_of_def fun_eq_iff)
  with o P n that show ?thesis by (simp add: s' os_fork_def)
qed

lemma exit_effect_os:
  assumes "os_next (OExit code) s = Some s'"
  obtains p where "on_hart s = Some p" and "p \<noteq> init_pid s" and "kids s' = (kids s)(p := [], init_pid s := kids s (init_pid s) @ kids s p)"
    and "state_of s' = (state_of s)(p := Some (PZombie code))" and "runq s' = runq s" and "on_hart s' = None" and "init_pid s' = init_pid s"
    and "procs s p \<noteq> None"
proof -
  obtain p P I where o: "on_hart s = Some p" and P: "procs s p = Some P" and I: "procs s (init_pid s) = Some I" and ne: "p \<noteq> init_pid s" and s': "s' = os_exit code p P I s"
    using assms by (auto simp: Option.bind_eq_Some_conv split: if_splits)
  have "kids s' = (kids s)(p := [], init_pid s := kids s (init_pid s) @ kids s p)" "state_of s' = (state_of s)(p := Some (PZombie code))"
    using P I ne by (auto simp: s' os_exit_def kids_def state_of_def fun_eq_iff)
  with o P ne that show ?thesis by (simp add: s' os_exit_def)
qed

text \<open>A wait reaps one zombie child of the caller, and answers its pid and exit code, or changes nothing.\<close>

lemma wait_effect_os:
  assumes "procs s p = Some P" and "os_wait pid p P s = (r, code, s')"
  shows "s' = s \<and> code = None \<and> (r = - 1 \<and> asked pid P = [] \<or> r = - 2 \<and> asked pid P \<noteq> [] \<and> (\<forall>n \<in> set (asked pid P). \<not> is_pzombie s n)) \<or>
    (\<exists>n c. n \<in> set (asked pid P) \<and> state_of s n = Some (PZombie c) \<and> r = n \<and> code = Some c \<and> kids s' = (kids s)(p := remove1 n (kids s p), n := []) \<and>
       state_of s' = (state_of s)(n := None) \<and> runq s' = runq s \<and> on_hart s' = on_hart s \<and> init_pid s' = init_pid s)"
proof (cases "asked pid P = [] \<or> filter (is_pzombie s) (asked pid P) = []")
  case True
  then show ?thesis using assms(2) by (auto simp: os_wait_def filter_empty_conv split: if_splits list.splits)
next
  case False
  then obtain n ns where f: "filter (is_pzombie s) (asked pid P) = n # ns" by (cases "filter (is_pzombie s) (asked pid P)") auto
  then have "n \<in> set (filter (is_pzombie s) (asked pid P))" by simp
  then have n: "n \<in> set (asked pid P)" "is_pzombie s n" by simp_all
  then obtain c where c: "state_of s n = Some (PZombie c)" by (auto simp: is_pzombie_def state_of_def split: option.splits pstate.splits)
  have s': "s' = s\<lparr>procs := (procs s)(p := Some (P\<lparr>p_children := remove1 n (p_children P)\<rparr>), n := None)\<rparr>" "r = n" "code = Some (exit_code_of s n)"
    using assms(2) False f by (auto simp: os_wait_def)
  have "exit_code_of s n = c" using c by (auto simp: exit_code_of_def state_of_def)
  moreover have "kids s' = (kids s)(p := remove1 n (kids s p), n := [])" "state_of s' = (state_of s)(n := None)"
    using assms(1) by (auto simp: s'(1) kids_def state_of_def fun_eq_iff)
  ultimately show ?thesis using n(1) c s' by auto
qed

lemma asked_kids: "procs s p = Some P \<Longrightarrow> set (asked pid P) \<subseteq> set (kids s p)"
  by (auto simp: asked_def kids_def)

subsection \<open>The invariant\<close>

lemma os_wf_boot: "os_wf os_boot"
  by (auto simp: os_wf_def os_boot_def kids_def state_of_def)

lemma os_wf_next:
  assumes wf: "os_wf s" and e: "os_next e s = Some s'"
  shows "os_wf s'"
proof (cases e)
  case ORun
  from e [unfolded ORun] show ?thesis
  proof (rule run_effect)
    fix p q
    assume r: "on_hart s = None" "runq s = p # q" and k: "kids s' = kids s" "state_of s' = (state_of s)(p := Some PRunning)"
      "runq s' = q" "on_hart s' = Some p" "init_pid s' = init_pid s" "procs s p \<noteq> None"
    have "state_of s p = Some PReady" using wf r(2) unfolding os_wf_def by (metis list.set_intros(1))
    with wf r show ?thesis unfolding os_wf_def k by (auto split: if_splits)
  qed
next
  case OYield
  from e [unfolded OYield] show ?thesis
  proof (rule yield_effect)
    fix p
    assume r: "on_hart s = Some p" and k: "kids s' = kids s" "state_of s' = (state_of s)(p := Some PReady)"
      "runq s' = runq s @ [p]" "on_hart s' = None" "init_pid s' = init_pid s" "procs s p \<noteq> None"
    have "state_of s p = Some PRunning" using wf r unfolding os_wf_def by blast
    with wf r show ?thesis unfolding os_wf_def k by auto
  qed
next
  case (OFork n)
  from e [unfolded OFork] show ?thesis
  proof (rule fork_effect_os)
    fix p
    assume r: "on_hart s = Some p" and k: "kids s' = (kids s)(p := kids s p @ [n], n := [])" "state_of s' = (state_of s)(n := Some PReady)"
      "runq s' = runq s @ [n]" "on_hart s' = on_hart s" "init_pid s' = init_pid s" and pn: "procs s p \<noteq> None" "procs s n = None"
    have n: "state_of s n = None" "p \<noteq> n" using pn by (auto simp: state_of_def)
    then have "n \<notin> set (kids s q)" for q using wf unfolding os_wf_def by blast
    moreover have "state_of s p = Some PRunning" using wf r unfolding os_wf_def by blast
    ultimately show ?thesis using wf n unfolding os_wf_def k by (auto split: if_splits)
  qed
next
  case (OExit code)
  from e [unfolded OExit] show ?thesis
  proof (rule exit_effect_os)
    fix p
    assume r: "on_hart s = Some p" "p \<noteq> init_pid s" and k: "kids s' = (kids s)(p := [], init_pid s := kids s (init_pid s) @ kids s p)"
      "state_of s' = (state_of s)(p := Some (PZombie code))" "runq s' = runq s" "on_hart s' = None" "init_pid s' = init_pid s" and pn: "procs s p \<noteq> None"
    have "state_of s p = Some PRunning" using wf r unfolding os_wf_def by blast
    moreover have "set (kids s (init_pid s)) \<inter> set (kids s p) = {}" using wf r(2) unfolding os_wf_def by blast
    ultimately show ?thesis using wf r unfolding os_wf_def k by (auto split: if_splits)
  qed
next
  case (OWait pid)
  then obtain p P where o: "on_hart s = Some p" "procs s p = Some P" and s': "s' = snd (snd (os_wait pid p P s))"
    using e by (auto simp: Option.bind_eq_Some_conv)
  obtain r code where w: "os_wait pid p P s = (r, code, s')" using s' by (cases "os_wait pid p P s") auto
  from wait_effect_os [OF o(2) w] show ?thesis
  proof (elim disjE exE conjE)
    fix n c
    assume n: "n \<in> set (asked pid P)" "state_of s n = Some (PZombie c)" and k: "kids s' = (kids s)(p := remove1 n (kids s p), n := [])"
      "state_of s' = (state_of s)(n := None)" "runq s' = runq s" "on_hart s' = on_hart s" "init_pid s' = init_pid s"
    have n': "n \<in> set (kids s p)" using n(1) asked_kids [OF o(2)] by blast
    have "distinct (kids s p)" using wf unfolding os_wf_def by blast
    then have "set (remove1 n (kids s p)) = set (kids s p) - {n}" "distinct (remove1 n (kids s p))" by (simp_all add: set_remove1_eq distinct_remove1)
    moreover have "n \<notin> set (kids s q)" if "q \<noteq> p" for q using wf n' that unfolding os_wf_def by blast
    moreover have "kids s n = []" using wf n(2) unfolding os_wf_def by blast
    ultimately show ?thesis using wf n(2) n' unfolding os_wf_def k by (auto split: if_splits)
  qed (use wf in simp_all)
qed

end
