(* ===== verification/User_System.thy ===== *)
theory User_System
  imports User_Apps Os_Invariant
begin

text \<open>
  Programs and the specification of processes together: processes run programs, their requests are events, the answers
  are those of the specification.  The next process is the one the specification says; a timer interrupt may
  come between any two calls, time and typed characters are arbitrary.
\<close>

subsection \<open>Systems\<close>

record uproc =
  image :: "unit user"
  past :: "answer list"

record system =
  sys_os :: os
  uprocs :: "usize \<Rightarrow> uproc option"
  screen :: "u8 list"

text \<open>What is left of the program of a process.\<close>

definition rest :: "uproc \<Rightarrow> unit user" where
  "rest u = (\<lambda>h. image u (past u @ h))"

definition told :: "answer \<Rightarrow> uproc \<Rightarrow> uproc" where
  "told a u = u\<lparr>past := past u @ [a]\<rparr>"

lemma rest_told: "rest (told a u) = (\<lambda>h. rest u (a # h))"
  by (simp add: rest_def told_def)

text \<open>Calls that answer their caller and make no new process, and what they do to the processes.\<close>

definition answers_to :: "os \<Rightarrow> usize \<Rightarrow> proc \<Rightarrow> request \<Rightarrow> answer \<Rightarrow> os \<Rightarrow> bool" where
  "answers_to s p P q a s' \<longleftrightarrow>
     rq_id q = U_SYSCALL_WRITE \<and> a = wrote (length (rq_data q)) \<and> s' = s \<or>
     rq_id q = U_SYSCALL_READ \<and> (\<exists>c. a = typed c) \<and> s' = s \<or>
     rq_id q = U_SYSCALL_GET_TIME \<and> (\<exists>t. a = ret t) \<and> s' = s \<or>
     rq_id q = U_SYSCALL_GETPID \<and> a = ret p \<and> s' = s \<or>
     rq_id q = U_SYSCALL_YIELD \<and> a = ret 0 \<and> os_next OYield s = Some s' \<or>
     rq_id q = U_SYSCALL_WAITPID \<and> (\<exists>pid y z r code. rq_args q = (Val pid, y, z) \<and> os_wait pid p P s = (r, code, s') \<and>
       a = \<lparr>a_ret = r, a_byte = None, a_code = code\<rparr>)"

definition written :: "request \<Rightarrow> u8 list" where
  "written q = (if rq_id q = U_SYSCALL_WRITE then rq_data q else [])"

text \<open>A step of a system whose programs are \<open>progs\<close>, by name.\<close>

inductive sys_step :: "(u8 list \<Rightarrow> unit user option) \<Rightarrow> system \<Rightarrow> system \<Rightarrow> bool" for progs where
  sched: "os_next ORun (sys_os S) = Some s' \<Longrightarrow> sys_step progs S (S\<lparr>sys_os := s'\<rparr>)"
| timer: "os_next OYield (sys_os S) = Some s' \<Longrightarrow> sys_step progs S (S\<lparr>sys_os := s'\<rparr>)"
| answered: "on_hart (sys_os S) = Some p \<Longrightarrow> procs (sys_os S) p = Some P \<Longrightarrow> uprocs S p = Some u \<Longrightarrow> rest u [] = Some (Ask q) \<Longrightarrow>
    answers_to (sys_os S) p P q a s' \<Longrightarrow>
    sys_step progs S (S\<lparr>sys_os := s', uprocs := (uprocs S)(p := Some (told a u)), screen := screen S @ written q\<rparr>)"
| forked: "on_hart (sys_os S) = Some p \<Longrightarrow> uprocs S p = Some u \<Longrightarrow> rest u [] = Some (Ask q) \<Longrightarrow> rq_id q = U_SYSCALL_FORK \<Longrightarrow>
    os_next (OFork n) (sys_os S) = Some s' \<Longrightarrow> 0 <s n \<Longrightarrow>
    sys_step progs S (S\<lparr>sys_os := s', uprocs := (uprocs S)(p := Some (told (ret n) u), n := Some (told (ret 0) u))\<rparr>)"
| execed: "on_hart (sys_os S) = Some p \<Longrightarrow> uprocs S p = Some u \<Longrightarrow> rest u [] = Some (Ask q) \<Longrightarrow> rq_id q = U_SYSCALL_EXEC \<Longrightarrow>
    u' = (case progs (takeWhile (\<lambda>b. b \<noteq> 0) (rq_data q)) of None \<Rightarrow> told (ret (- 1)) u | Some m \<Rightarrow> \<lparr>image = m, past = []\<rparr>) \<Longrightarrow>
    sys_step progs S (S\<lparr>uprocs := (uprocs S)(p := Some u')\<rparr>)"
| exited: "on_hart (sys_os S) = Some p \<Longrightarrow> uprocs S p = Some u \<Longrightarrow> rest u [] = Some (Ask q) \<Longrightarrow> rq_id q = U_SYSCALL_EXIT \<Longrightarrow>
    rq_args q = (Val v, y, z) \<Longrightarrow> os_next (OExit (ucast v)) (sys_os S) = Some s' \<Longrightarrow>
    sys_step progs S (S\<lparr>sys_os := s'\<rparr>)"

declare os_next.simps [simp del]

subsection \<open>Other processes\<close>

definition zombie :: "os \<Rightarrow> usize \<Rightarrow> bool" where
  "zombie s q \<longleftrightarrow> (\<exists>c. state_of s q = Some (PZombie c))"

text \<open>What a process asks for, if it asks.\<close>

definition asking :: "system \<Rightarrow> usize \<Rightarrow> request \<Rightarrow> bool" where
  "asking S p q \<longleftrightarrow> (\<exists>u. uprocs S p = Some u \<and> rest u [] = Some (Ask q))"

lemma answers_to_next:
  assumes "on_hart s = Some p" and "procs s p = Some P" and "answers_to s p P q a s'"
  shows "s' = s \<or> os_next OYield s = Some s' \<or> (\<exists>pid. rq_id q = U_SYSCALL_WAITPID \<and> os_next (OWait pid) s = Some s')"
proof -
  have "os_next (OWait pid) s = Some s'" if "os_wait pid p P s = (r, code, s')" for pid r code
    using assms(1,2) that by (simp add: os_next.simps)
  then show ?thesis using assms(3) unfolding answers_to_def by blast
qed

lemma sys_step_wf: "sys_step progs S S' \<Longrightarrow> os_wf (sys_os S) \<Longrightarrow> os_wf (sys_os S')"
proof (induction rule: sys_step.induct)
  case (answered S p P u q a s')
  from answers_to_next [OF answered(1,2,5)] answered(6) show ?case by (auto intro: os_wf_next)
qed (auto intro: os_wf_next)

text \<open>An event of another process leaves the children of \<open>x\<close>, and its state but for the switch to it.\<close>

lemma event_other:
  assumes wf: "os_wf s" and e: "os_next e s = Some s'" and x: "on_hart s \<noteq> Some x" "x \<noteq> init_pid s" "procs s x \<noteq> None"
    and z: "\<forall>q pid. e = OWait pid \<longrightarrow> on_hart s = Some q \<longrightarrow> zombie s x \<longrightarrow> x \<notin> set (kids s q)"
  shows "kids s' x = kids s x \<and> init_pid s' = init_pid s \<and> (state_of s' x = state_of s x \<or> state_of s x = Some PReady \<and> state_of s' x = Some PRunning)"
proof (cases e)
  case ORun
  from e [unfolded ORun] show ?thesis
  proof (rule run_effect)
    fix p q
    assume "runq s = p # q" "kids s' = kids s" "state_of s' = (state_of s)(p := Some PRunning)" "init_pid s' = init_pid s"
    then show ?thesis using wf unfolding os_wf_def by (metis fun_upd_apply list.set_intros(1))
  qed
next
  case OYield
  from e [unfolded OYield] show ?thesis by (rule yield_effect) (use x in auto)
next
  case (OFork n)
  from e [unfolded OFork] show ?thesis by (rule fork_effect_os) (use x in auto)
next
  case (OExit c)
  from e [unfolded OExit] show ?thesis by (rule exit_effect_os) (use x in auto)
next
  case (OWait pid)
  then obtain p P where o: "on_hart s = Some p" "procs s p = Some P" and s': "s' = snd (snd (os_wait pid p P s))"
    using e by (auto simp: os_next.simps Option.bind_eq_Some_conv)
  obtain r code where w: "os_wait pid p P s = (r, code, s')" using s' by (cases "os_wait pid p P s") auto
  from wait_effect_os [OF o(2) w] show ?thesis
  proof (elim disjE exE conjE)
    fix n c
    assume n: "n \<in> set (asked pid P)" "state_of s n = Some (PZombie c)" and k: "kids s' = (kids s)(p := remove1 n (kids s p), n := [])"
      "state_of s' = (state_of s)(n := None)" "init_pid s' = init_pid s"
    have "n \<in> set (kids s p)" using n(1) asked_kids [OF o(2)] by blast
    then have "n \<noteq> x" using z OWait o(1) n(2) unfolding zombie_def by blast
    moreover have "p \<noteq> x" using o(1) x(1) by auto
    ultimately show ?thesis using k by simp
  qed simp_all
qed

lemma step_other:
  assumes wf: "os_wf (sys_os S)" and st: "sys_step progs S S'" and x: "on_hart (sys_os S) \<noteq> Some x" "x \<noteq> init_pid (sys_os S)" "procs (sys_os S) x \<noteq> None"
    and z: "\<forall>p q. on_hart (sys_os S) = Some p \<longrightarrow> asking S p q \<longrightarrow> rq_id q = U_SYSCALL_WAITPID \<longrightarrow> zombie (sys_os S) x \<longrightarrow> x \<notin> set (kids (sys_os S) p)"
  shows "kids (sys_os S') x = kids (sys_os S) x \<and> init_pid (sys_os S') = init_pid (sys_os S) \<and> uprocs S' x = uprocs S x \<and>
    (state_of (sys_os S') x = state_of (sys_os S) x \<or> state_of (sys_os S) x = Some PReady \<and> state_of (sys_os S') x = Some PRunning)"
  using st
proof cases
  case (sched s')
  then show ?thesis using event_other [OF wf sched(2) x] by simp
next
  case (timer s')
  then show ?thesis using event_other [OF wf timer(2) x] by simp
next
  case (answered p P u q a s')
  have k: "kids s' x = kids (sys_os S) x \<and> init_pid s' = init_pid (sys_os S) \<and>
      (state_of s' x = state_of (sys_os S) x \<or> state_of (sys_os S) x = Some PReady \<and> state_of s' x = Some PRunning)"
    using answers_to_next [OF answered(2,3,6)]
  proof (elim disjE exE conjE)
    assume y: "os_next OYield (sys_os S) = Some s'"
    show ?thesis using event_other [OF wf y x] by simp
  next
    fix pid
    assume w: "rq_id q = U_SYSCALL_WAITPID" "os_next (OWait pid) (sys_os S) = Some s'"
    have "asking S p q" using answered(4,5) by (auto simp: asking_def)
    then show ?thesis using event_other [OF wf w(2) x] z w(1) answered(2) by (metis option.inject)
  qed simp
  then show ?thesis using answered x(1) by auto
next
  case (forked p u q n s')
  have "n \<noteq> x" using forked(6) x(3) by (auto elim!: fork_effect_os)
  then show ?thesis using forked event_other [OF wf forked(6) x] x(1) by auto
next
  case (execed p u q u')
  then show ?thesis using x(1) by auto
next
  case (exited p u q v y z' s')
  then show ?thesis using event_other [OF wf exited(7) x] by simp
qed

end
