(* ===== verification/Fork_Test.thy ===== *)
theory Fork_Test
  imports User_System
begin

text \<open>
  The program \<open>forktest_simple\<close> in a system: whatever the other processes do and in whatever order processes run,
  it passes.
\<close>

subsection \<open>Stretches without effect on processes\<close>

definition harmless :: "request \<Rightarrow> bool" where
  "harmless q \<longleftrightarrow> rq_id q \<in> {U_SYSCALL_WRITE, U_SYSCALL_GETPID, U_SYSCALL_GET_TIME, U_SYSCALL_YIELD}"

text \<open>The program comes to a point with \<open>Q\<close>, through calls that do not concern other processes, whatever their answers are.\<close>

inductive quiet :: "(unit user \<Rightarrow> bool) \<Rightarrow> unit user \<Rightarrow> bool" for Q where
  here: "Q r \<Longrightarrow> quiet Q r"
| call: "harmless q \<Longrightarrow> (\<And>a. quiet Q (k a)) \<Longrightarrow> quiet Q (ubind (ask q) k)"

lemma ubind_ask: "ubind (ask q) k [] = Some (Ask q)" "(\<lambda>h. ubind (ask q) k (a # h)) = k a"
  by simp_all

lemma quiet_cases:
  assumes "quiet Q r"
  obtains "Q r" | q where "r [] = Some (Ask q)" and "harmless q" and "\<And>a. quiet Q (\<lambda>h. r (a # h))"
  using assms by (cases rule: quiet.cases) (simp_all add: ubind_ask)

lemma write_str_ask: "ubind (u_write_str s) k = ubind (ask \<lparr>rq_id = U_SYSCALL_WRITE, rq_args = (Val STDOUT, Addr, Val (of_nat (length s))), rq_data = s\<rparr>) (\<lambda>_. k ())"
  by (simp add: u_write_str_def u_write_def u_sys_write_def u_syscall_def ubind_assoc)

lemma quiet_println:
  assumes "quiet Q k"
  shows "quiet Q (ubind (u_println args) (\<lambda>_. k))"
proof -
  have "quiet Q (ubind (ufor xs u_write_str) (\<lambda>_. k))" for xs
    using assms by (induction xs) (simp_all add: ubind_assoc write_str_ask harmless_def quiet.call)
  then show ?thesis by (simp add: u_println_def u_print_def)
qed

lemma getpid_ask: "ubind getpid_u k = ubind (ask (plain_request U_SYSCALL_GETPID)) (\<lambda>a. k (a_ret a))"
  by (simp add: getpid_u_def u_sys_getpid_def u_syscall_def plain_request_def ubind_assoc)

lemma quiet_getpid: "(\<And>p. quiet Q (k p)) \<Longrightarrow> quiet Q (ubind getpid_u k)"
  unfolding getpid_ask by (rule quiet.call) (simp_all add: harmless_def plain_request_def)

subsection \<open>Points of the program\<close>

definition go :: "reports \<Rightarrow> unit user" where
  "go pi = start_u pi (forktest_simple pi)"

text \<open>After the call of \<open>fork\<close>, and after the wait for the child.\<close>

definition waited :: "reports \<Rightarrow> isize \<Rightarrow> isize \<times> i32 \<Rightarrow> unit user" where
  "waited pi pid = (\<lambda>(r, exit_code).
     ubind (u_assert (pid = r) (pi ''src/bin/forktest_simple.rs'' 23 [pid, r])) (\<lambda>_.
     ubind (u_assert (exit_code = 100) (pi ''src/bin/forktest_simple.rs'' 24 [scast exit_code, 100])) (\<lambda>_.
     ubind (u_println [Lit ''child process pid = '', Num (sint pid), Lit '', exit code = '', Num (sint exit_code)]) (\<lambda>_.
     u_exit pi 0))))"

definition after_fork :: "reports \<Rightarrow> isize \<Rightarrow> unit user" where
  "after_fork pi pid =
     (if pid = 0 then ubind (u_println [Lit ''hello child process!'']) (\<lambda>_. u_exit pi 100)
      else ubind (u_println [Lit ''ready waiting on parent process!'']) (\<lambda>_. ubind (wait 0) (waited pi pid)))"

abbreviation at_fork :: "reports \<Rightarrow> unit user \<Rightarrow> bool" where
  "at_fork pi r \<equiv> r = ubind fork_u (after_fork pi)"

abbreviation at_wait :: "reports \<Rightarrow> isize \<Rightarrow> unit user \<Rightarrow> bool" where
  "at_wait pi pid r \<equiv> \<exists>c. r = ubind (wait c) (waited pi pid)"

abbreviation at_exit :: "reports \<Rightarrow> i32 \<Rightarrow> unit user \<Rightarrow> bool" where
  "at_exit pi code r \<equiv> r = u_exit pi code"

lemma ubind_exit: "ubind (u_exit pi c) k = (u_exit pi c :: unit user)"
  by (rule ext) (simp add: u_exit_def u_sys_exit_def u_syscall_def u_panic_def Let_def ubind_def ask_def spin_def split: list.split option.split ustep.split)

lemma go_eq:
  "go pi = ubind (wait 0) (\<lambda>(r, _).
     ubind (u_assert (r = - 1) (pi ''src/bin/forktest_simple.rs'' 11 [r, - 1])) (\<lambda>_.
     ubind (u_println [Lit ''sys_wait without child process test passed!'']) (\<lambda>_.
     ubind getpid_u (\<lambda>p.
     ubind (u_println [Lit ''parent start, pid = '', Num (sint p), Lit ''!'']) (\<lambda>_.
     ubind fork_u (after_fork pi))))))"
proof -
  have "after_fork pi = (\<lambda>pid. ubind (if pid = 0 then ubind (u_println [Lit ''hello child process!'']) (\<lambda>_. ureturn 100)
     else
       ubind (u_println [Lit ''ready waiting on parent process!'']) (\<lambda>_.
       ubind (wait 0) (\<lambda>(r, exit_code).
       ubind (u_assert (pid = r) (pi ''src/bin/forktest_simple.rs'' 23 [pid, r])) (\<lambda>_.
       ubind (u_assert (exit_code = 100) (pi ''src/bin/forktest_simple.rs'' 24 [scast exit_code, 100])) (\<lambda>_.
       ubind (u_println [Lit ''child process pid = '', Num (sint pid), Lit '', exit code = '', Num (sint exit_code)]) (\<lambda>_.
       ureturn 0)))))) (u_exit pi))"
    by (rule ext) (simp add: after_fork_def waited_def ubind_assoc case_prod_unfold)
  then show ?thesis by (simp add: go_def start_u_def forktest_simple_def ubind_assoc case_prod_unfold)
qed

lemma yield_ask: "ubind yield_u k = ubind (ask (plain_request U_SYSCALL_YIELD)) (\<lambda>a. k (a_ret a))"
  by (simp add: yield_u_def u_sys_yield_def u_syscall_def plain_request_def ubind_assoc)

lemma wait_ask:
  "ubind (wait c) k = ubind (ask (waitpid_request (- 1) c)) (\<lambda>a.
     if a_ret a = - 2 then ubind (ask (plain_request U_SYSCALL_YIELD)) (\<lambda>_. ubind (wait (code_after c a)) k)
     else k (a_ret a, code_after c a))"
proof -
  have "ubind (wait c) k = ubind (ask (waitpid_request (- 1) c)) (\<lambda>a. ubind (if a_ret a = - 2 then ubind (ask (plain_request U_SYSCALL_YIELD)) (\<lambda>_. wait (code_after c a))
      else ureturn (a_ret a, code_after c a)) k)"
    unfolding wait_def
    by (subst uloop_unfold)
      (simp add: wait_step_def u_sys_waitpid_def u_syscall_def waitpid_request_def ubind_assoc code_after_def yield_ask if_distrib [of "\<lambda>m. ubind m _"] cong: if_cong)
  also have "\<dots> = ubind (ask (waitpid_request (- 1) c)) (\<lambda>a.
     if a_ret a = - 2 then ubind (ask (plain_request U_SYSCALL_YIELD)) (\<lambda>_. ubind (wait (code_after c a)) k)
     else k (a_ret a, code_after c a))"
    by (rule arg_cong [of _ _ "ubind _"]) (auto simp: ubind_assoc fun_eq_iff)
  finally show ?thesis .
qed

lemma fork_ask: "ubind fork_u k = ubind (ask (plain_request U_SYSCALL_FORK)) (\<lambda>a. k (a_ret a))"
  by (simp add: fork_u_def u_sys_fork_def u_syscall_def plain_request_def ubind_assoc)

lemma exit_ask: "u_exit pi c [] = Some (Ask \<lparr>rq_id = U_SYSCALL_EXIT, rq_args = (Val (scast c), Val 0, Val 0), rq_data = []\<rparr>)"
  by (simp add: u_exit_def u_sys_exit_def u_syscall_def)

text \<open>From one point to the next.\<close>

lemma wait_points:
  "ubind (wait c) k [] = Some (Ask (waitpid_request (- 1) c))"
  "a_ret a = - 2 \<Longrightarrow> (\<lambda>h. ubind (wait c) k (a # h)) = ubind (ask (plain_request U_SYSCALL_YIELD)) (\<lambda>_. ubind (wait (code_after c a)) k)"
  "a_ret a \<noteq> - 2 \<Longrightarrow> (\<lambda>h. ubind (wait c) k (a # h)) = k (a_ret a, code_after c a)"
  by (subst wait_ask, simp)+

lemma go_waits: "go pi [] = Some (Ask (waitpid_request (- 1) 0))"
  unfolding go_eq by (rule wait_points)

lemma go_on:
  assumes "a_ret a = - 1"
  shows "quiet (at_fork pi) (\<lambda>h. go pi (a # h))"
  unfolding go_eq using assms
  by (subst wait_points) (simp_all add: u_assert_def quiet_println quiet_getpid quiet.here)

lemma parent_goes_on: "pid \<noteq> 0 \<Longrightarrow> quiet (at_wait pi pid) (after_fork pi pid)"
  unfolding after_fork_def by (simp, rule quiet_println, rule quiet.here, blast)

lemma child_goes_on: "quiet (at_exit pi 100) (after_fork pi 0)"
  unfolding after_fork_def by (simp, intro quiet_println quiet.here refl)

lemma waited_goes_on: "quiet (at_exit pi 0) (waited pi pid (pid, 100))"
  unfolding waited_def by (simp add: u_assert_def) (intro quiet_println quiet.here refl)

lemma waits_again:
  assumes "a_ret a = - 2"
  shows "quiet (at_wait pi pid) (\<lambda>h. ubind (wait c) (waited pi pid) (a # h))"
  unfolding wait_points(2) [OF assms] by (rule quiet.call) (auto simp: harmless_def plain_request_def intro: quiet.here)

lemma wait_ends:
  assumes "a_ret a = pid" "pid \<noteq> - 2" "a_code a = Some code"
  shows "(\<lambda>h. ubind (wait c) (waited pi pid) (a # h)) = waited pi pid (pid, code)"
  using wait_points(3) [of a c "waited pi pid"] assms by (simp add: code_after_def)

lemma at_requests:
  "at_fork pi r \<Longrightarrow> r [] = Some (Ask (plain_request U_SYSCALL_FORK))"
  "at_fork pi r \<Longrightarrow> (\<lambda>h. r (a # h)) = after_fork pi (a_ret a)"
  "r = ubind (wait c) (waited pi pid) \<Longrightarrow> r [] = Some (Ask (waitpid_request (- 1) c))"
  by (simp_all add: fork_ask ubind_ask wait_points(1))

subsection \<open>The invariant of the test\<close>

abbreviation live :: "os \<Rightarrow> usize \<Rightarrow> bool" where
  "live s p \<equiv> state_of s p = Some PReady \<or> state_of s p = Some PRunning"

definition child_ok :: "reports \<Rightarrow> usize \<Rightarrow> system \<Rightarrow> bool" where
  "child_ok pi n S \<longleftrightarrow> n \<noteq> init_pid (sys_os S) \<and> kids (sys_os S) n = [] \<and>
     (state_of (sys_os S) n = Some (PZombie 100) \<or>
      live (sys_os S) n \<and> (\<exists>u. uprocs S n = Some u \<and> quiet (at_exit pi 100) (rest u)))"

text \<open>The four phases: before the first wait, before the fork, with a child, and after the child was reaped.\<close>

definition phase :: "reports \<Rightarrow> usize \<Rightarrow> uproc \<Rightarrow> system \<Rightarrow> bool" where
  "phase pi p u S \<longleftrightarrow>
     rest u = go pi \<and> kids (sys_os S) p = [] \<or>
     quiet (at_fork pi) (rest u) \<and> kids (sys_os S) p = [] \<or>
     (\<exists>n. 0 <s n \<and> n \<noteq> p \<and> kids (sys_os S) p = [n] \<and> child_ok pi n S \<and> quiet (at_wait pi n) (rest u)) \<or>
     quiet (at_exit pi 0) (rest u) \<and> kids (sys_os S) p = []"

definition test_inv :: "reports \<Rightarrow> usize \<Rightarrow> system \<Rightarrow> bool" where
  "test_inv pi p S \<longleftrightarrow> os_wf (sys_os S) \<and> p \<noteq> init_pid (sys_os S) \<and> live (sys_os S) p \<and> (\<exists>u. uprocs S p = Some u \<and> phase pi p u S)"

subsection \<open>Steps of one process\<close>

text \<open>Process \<open>p\<close> goes on with \<open>u\<close> and nothing else changes.\<close>

definition stays :: "usize \<Rightarrow> uproc \<Rightarrow> system \<Rightarrow> system \<Rightarrow> bool" where
  "stays p u S S' \<longleftrightarrow> uprocs S' = (uprocs S)(p := Some u) \<and> kids (sys_os S') = kids (sys_os S) \<and> init_pid (sys_os S') = init_pid (sys_os S) \<and>
     (\<exists>st \<in> {PReady, PRunning}. state_of (sys_os S') = (state_of (sys_os S))(p := Some st))"

lemma yield_stays:
  assumes "os_next OYield (sys_os S) = Some (sys_os S')" and "on_hart (sys_os S) = Some p" and "uprocs S' = (uprocs S)(p := Some u)"
  shows "stays p u S S'"
  using assms by (auto simp: stays_def elim!: yield_effect)

lemma same_stays:
  assumes "sys_os S' = sys_os S" and "state_of (sys_os S) p = Some PRunning" and "uprocs S' = (uprocs S)(p := Some u)"
  shows "stays p u S S'"
  using assms by (auto simp: stays_def)

text \<open>A step when \<open>p\<close> is on the hart and asks for \<open>q\<close>.\<close>

lemma self_cases:
  assumes wf: "os_wf (sys_os S)" and st: "sys_step progs S S'" and p: "on_hart (sys_os S) = Some p" "uprocs S p = Some u" "rest u [] = Some (Ask q)"
  obtains "stays p u S S'"
  | P a where "procs (sys_os S) p = Some P" and "answers_to (sys_os S) p P q a (sys_os S')" and "uprocs S' = (uprocs S)(p := Some (told a u))"
  | n where "rq_id q = U_SYSCALL_FORK" and "os_next (OFork n) (sys_os S) = Some (sys_os S')" and "0 <s n"
      and "uprocs S' = (uprocs S)(p := Some (told (ret n) u), n := Some (told (ret 0) u))"
  | "rq_id q = U_SYSCALL_EXEC"
  | v y z where "rq_id q = U_SYSCALL_EXIT" and "rq_args q = (Val v, y, z)" and "os_next (OExit (ucast v)) (sys_os S) = Some (sys_os S')" and "uprocs S' = uprocs S"
  using st
proof cases
  case (sched s')
  then show ?thesis using p(1) by (auto simp: os_next.simps)
next
  case (timer s')
  then have "stays p u S S'" using p by (intro yield_stays) auto
  then show ?thesis by (rule that(1))
next
  case (answered p' P u' q' a s')
  then show ?thesis using p that(2) [of P a] by auto
next
  case (forked p' u' q' n s')
  then show ?thesis using p that(3) [of n] by auto
next
  case (execed p' u' q' u'')
  then show ?thesis using p that(4) by auto
next
  case (exited p' u' q' v y z s')
  then show ?thesis using p that(5) [of v y z] by auto
qed

text \<open>A harmless call.\<close>

lemma harmless_stays:
  assumes wf: "os_wf (sys_os S)" and st: "sys_step progs S S'" and p: "on_hart (sys_os S) = Some p" "uprocs S p = Some u" "rest u [] = Some (Ask q)"
    and q: "harmless q"
  obtains "stays p u S S'" | a where "stays p (told a u) S S'"
proof (cases rule: self_cases [OF wf st p])
  case 1
  then show ?thesis by (rule that(1))
next
  case (2 P a)
  have run: "state_of (sys_os S) p = Some PRunning" using wf p(1) unfolding os_wf_def by blast
  have "sys_os S' = sys_os S \<or> os_next OYield (sys_os S) = Some (sys_os S')" using 2(2) q unfolding answers_to_def harmless_def by auto
  then have "stays p (told a u) S S'" using 2(3) run p(1) by (auto intro: same_stays yield_stays)
  then show ?thesis by (rule that(2))
qed (use q in \<open>auto simp: harmless_def\<close>)

text \<open>So a stretch goes on, until its end.\<close>

lemma quiet_goes_on:
  assumes wf: "os_wf (sys_os S)" and st: "sys_step progs S S'" and p: "on_hart (sys_os S) = Some p" "uprocs S p = Some u" and q: "quiet Q (rest u)"
  obtains "Q (rest u)" | u' where "stays p u' S S'" and "quiet Q (rest u')"
  using q
proof (cases rule: quiet_cases)
  case 1
  then show ?thesis by (rule that(1))
next
  case (2 q)
  from harmless_stays [OF wf st p 2(1,2)] show ?thesis
  proof cases
    case 1
    then show ?thesis using q that(2) by blast
  next
    case (2 a)
    then show ?thesis using \<open>\<And>a. quiet Q (\<lambda>h. rest u (a # h))\<close> that(2) by (simp add: rest_told)
  qed
qed

lemma stays_live: "stays p u S S' \<Longrightarrow> live (sys_os S') p"
  by (auto simp: stays_def)

lemma child_stays: "stays p u S S' \<Longrightarrow> n \<noteq> p \<Longrightarrow> child_ok pi n S \<Longrightarrow> child_ok pi n S'"
  by (auto simp: stays_def child_ok_def)

subsection \<open>The child\<close>

text \<open>Steps of the child, and steps of other processes.\<close>

lemma child_step:
  assumes wf: "os_wf (sys_os S)" and st: "sys_step progs S S'" and n: "on_hart (sys_os S) = Some n" and ok: "child_ok pi n S"
  shows "child_ok pi n S'"
proof -
  have run: "state_of (sys_os S) n = Some PRunning" using wf n unfolding os_wf_def by blast
  then obtain u where u: "uprocs S n = Some u" "quiet (at_exit pi 100) (rest u)" and k: "kids (sys_os S) n = []" "n \<noteq> init_pid (sys_os S)"
    using ok by (auto simp: child_ok_def)
  from quiet_goes_on [OF wf st n u] show ?thesis
  proof cases
    case 1
    have q: "rest u [] = Some (Ask \<lparr>rq_id = U_SYSCALL_EXIT, rq_args = (Val (scast (100 :: i32)), Val 0, Val 0), rq_data = []\<rparr>)"
      unfolding 1 by (rule exit_ask)
    show ?thesis
    proof (cases rule: self_cases [OF wf st n u(1) q])
      case 1
      then show ?thesis using u k stays_live [OF 1] by (auto simp: child_ok_def stays_def)
    next
      case (5 v y z)
      have "ucast v = (100 :: i32)" using 5(2) ucast_scast_i32 [of 100] by simp
      then show ?thesis using 5(3) n k(2) by (auto simp: child_ok_def elim!: exit_effect_os)
    qed (auto simp: answers_to_def)
  next
    case (2 u')
    then show ?thesis using k stays_live [OF 2(1)] by (auto simp: child_ok_def stays_def)
  qed
qed

lemma child_other:
  assumes wf: "os_wf (sys_os S)" and st: "sys_step progs S S'" and n: "on_hart (sys_os S) \<noteq> Some n" and ok: "child_ok pi n S"
    and p: "n \<in> set (kids (sys_os S) p)" "on_hart (sys_os S) \<noteq> Some p"
  shows "child_ok pi n S'"
proof -
  have "procs (sys_os S) n \<noteq> None" "n \<noteq> init_pid (sys_os S)" using ok by (auto simp: child_ok_def state_of_def)
  moreover have "\<forall>p' q. on_hart (sys_os S) = Some p' \<longrightarrow> asking S p' q \<longrightarrow> rq_id q = U_SYSCALL_WAITPID \<longrightarrow> zombie (sys_os S) n \<longrightarrow> n \<notin> set (kids (sys_os S) p')"
    using wf p unfolding os_wf_def by blast
  ultimately show ?thesis using step_other [OF wf st n] ok by (auto simp: child_ok_def)
qed

subsection \<open>The test\<close>

text \<open>A step of another process.\<close>

lemma test_other:
  assumes inv: "test_inv pi p S" and st: "sys_step progs S S'" and p: "on_hart (sys_os S) \<noteq> Some p"
  shows "test_inv pi p S'"
proof -
  obtain u where wf: "os_wf (sys_os S)" and i: "p \<noteq> init_pid (sys_os S)" "live (sys_os S) p" and u: "uprocs S p = Some u" "phase pi p u S"
    using inv by (auto simp: test_inv_def)
  have "procs (sys_os S) p \<noteq> None" "\<not> zombie (sys_os S) p" using i(2) by (auto simp: state_of_def zombie_def)
  then have o: "kids (sys_os S') p = kids (sys_os S) p" "init_pid (sys_os S') = init_pid (sys_os S)" "uprocs S' p = uprocs S p" "live (sys_os S') p"
    using step_other [OF wf st p i(1)] i(2) by auto
  have "child_ok pi n S'" if "child_ok pi n S" "kids (sys_os S) p = [n]" for n
    using child_step [OF wf st _ that(1)] child_other [OF wf st _ that(1), of p] that(2) p by (cases "on_hart (sys_os S) = Some n") auto
  then have "phase pi p u S'" using u(2) unfolding phase_def o(1) by blast
  then show ?thesis using sys_step_wf [OF st wf] i(1) o u(1) by (simp add: test_inv_def)
qed

lemma test_stays:
  assumes inv: "test_inv pi p S" and st: "sys_step progs S S'" and s: "stays p u' S S'" and ph: "phase pi p u' S"
  shows "test_inv pi p S'"
proof -
  have "phase pi p u' S'" using ph child_stays [OF s] s by (auto simp: phase_def stays_def)
  moreover have "uprocs S' p = Some u'" "init_pid (sys_os S') = init_pid (sys_os S)" using s by (auto simp: stays_def)
  ultimately show ?thesis using inv sys_step_wf [OF st] stays_live [OF s] by (auto simp: test_inv_def)
qed

text \<open>The answer of \<open>waitpid\<close> for any child, without children and with one.\<close>

lemma wait_answers:
  assumes P: "procs s p = Some P" and a: "answers_to s p P (waitpid_request (- 1) c) a s'"
  shows "kids s p = [] \<Longrightarrow> s' = s \<and> a_ret a = - 1"
    and "kids s p = [n] \<Longrightarrow> s' = s \<and> a_ret a = - 2 \<or>
      (\<exists>code. state_of s n = Some (PZombie code) \<and> a_ret a = n \<and> a_code a = Some code \<and> kids s' = (kids s)(p := [], n := []) \<and>
         state_of s' = (state_of s)(n := None) \<and> init_pid s' = init_pid s)"
proof -
  obtain r code where w: "os_wait (- 1) p P s = (r, code, s')" "a = \<lparr>a_ret = r, a_byte = None, a_code = code\<rparr>"
    using a by (auto simp: answers_to_def waitpid_request_def)
  have k: "asked (- 1) P = kids s p" using P by (simp add: asked_def kids_def)
  show "kids s p = [] \<Longrightarrow> s' = s \<and> a_ret a = - 1" using wait_effect_os [OF P w(1)] w(2) k by auto
  show "kids s p = [n] \<Longrightarrow> s' = s \<and> a_ret a = - 2 \<or>
      (\<exists>code. state_of s n = Some (PZombie code) \<and> a_ret a = n \<and> a_code a = Some code \<and> kids s' = (kids s)(p := [], n := []) \<and>
         state_of s' = (state_of s)(n := None) \<and> init_pid s' = init_pid s)"
    using wait_effect_os [OF P w(1)] w(2) k by auto
qed

lemma test_self:
  assumes inv: "test_inv pi p S" and st: "sys_step progs S S'" and p: "on_hart (sys_os S) = Some p"
  shows "test_inv pi p S' \<or> state_of (sys_os S') p = Some (PZombie 0)"
proof -
  obtain u where wf: "os_wf (sys_os S)" and i: "p \<noteq> init_pid (sys_os S)" "live (sys_os S) p" and u: "uprocs S p = Some u" "phase pi p u S"
    using inv by (auto simp: test_inv_def)
  have wf': "os_wf (sys_os S')" using sys_step_wf [OF st wf] .
  have run: "state_of (sys_os S) p = Some PRunning" using wf p unfolding os_wf_def by blast
  note stay = test_stays [OF inv st] and self = self_cases [OF wf st p u(1)]
  have same: "test_inv pi p S'" if "stays p u S S'" using stay [OF that u(2)] .
  from u(2) show ?thesis unfolding phase_def
  proof (elim disjE exE conjE)
    assume r: "rest u = go pi" and k: "kids (sys_os S) p = []"
    have q: "rest u [] = Some (Ask (waitpid_request (- 1) 0))" unfolding r by (rule go_waits)
    show ?thesis
    proof (cases rule: self [OF q])
      case (2 P a)
      from wait_answers(1) [OF 2(1,2) k] have a: "sys_os S' = sys_os S" "a_ret a = - 1" by auto
      have "phase pi p (told a u) S" using go_on [OF a(2)] k by (simp add: phase_def rest_told r)
      then show ?thesis using stay same_stays [OF a(1) run 2(3)] by blast
    qed (use same in \<open>auto simp: waitpid_request_def\<close>)
  next
    assume r: "quiet (at_fork pi) (rest u)" and k: "kids (sys_os S) p = []"
    from quiet_goes_on [OF wf st p u(1) r] show ?thesis
    proof cases
      case 1
      note f = at_requests(1,2) [of "rest u", OF 1]
      show ?thesis
      proof (cases rule: self [OF f(1)])
        case (3 n)
        from 3(2) obtain kn: "kids (sys_os S') = (kids (sys_os S))(p := [n], n := [])" and sn: "state_of (sys_os S') = (state_of (sys_os S))(n := Some PReady)"
          and new: "init_pid (sys_os S') = init_pid (sys_os S)" "procs (sys_os S) n = None"
          using k p by (auto elim!: fork_effect_os)
        have ne: "n \<noteq> p" "n \<noteq> init_pid (sys_os S)" "n \<noteq> 0" using new(2) i(2) wf 3(3) by (auto simp: state_of_def os_wf_def)
        have "child_ok pi n S'" using ne new(1) child_goes_on [of pi] by (simp add: child_ok_def kn sn 3(4) rest_told f(2) ret_def)
        moreover have "quiet (at_wait pi n) (rest (told (ret n) u))" using parent_goes_on [OF ne(3)] by (simp add: rest_told f(2) ret_def)
        ultimately have "phase pi p (told (ret n) u) S'" using ne(1) 3(3) unfolding phase_def by (auto simp: kn)
        then show ?thesis using wf' i run ne(1) new(1) by (simp add: test_inv_def sn 3(4))
      qed (use same in \<open>auto simp: plain_request_def answers_to_def\<close>)
    next
      case (2 u')
      then have "phase pi p u' S" using k by (simp add: phase_def)
      then show ?thesis using stay [OF 2(1)] by blast
    qed
  next
    fix n
    assume n: "0 <s n" "n \<noteq> p" and k: "kids (sys_os S) p = [n]" and ok: "child_ok pi n S" and r: "quiet (at_wait pi n) (rest u)"
    from quiet_goes_on [OF wf st p u(1) r] show ?thesis
    proof cases
      case 1
      then obtain c where c: "rest u = ubind (wait c) (waited pi n)" by blast
      note q = at_requests(3) [OF c]
      show ?thesis
      proof (cases rule: self [OF q])
        case (2 P a)
        from wait_answers(2) [OF 2(1,2) k] show ?thesis
        proof (elim disjE exE conjE)
          assume a: "sys_os S' = sys_os S" "a_ret a = - 2"
          have "phase pi p (told a u) S" unfolding phase_def rest_told c using waits_again [OF a(2), of pi n c] n k ok by blast
          then show ?thesis using stay same_stays [OF a(1) run 2(3)] by blast
        next
          fix code
          assume z: "state_of (sys_os S) n = Some (PZombie code)" "a_ret a = n" "a_code a = Some code" and s: "kids (sys_os S') = (kids (sys_os S))(p := [], n := [])"
            "state_of (sys_os S') = (state_of (sys_os S))(n := None)" "init_pid (sys_os S') = init_pid (sys_os S)"
          have "code = 100" using ok z(1) by (auto simp: child_ok_def)
          moreover have "n \<noteq> - 2" using n(1) by (auto simp: word_sless_alt)
          ultimately have "quiet (at_exit pi 0) (rest (told a u))" using wait_ends [OF z(2) _ z(3), of c pi] waited_goes_on [of pi n] by (simp add: rest_told c)
          then have "phase pi p (told a u) S'" using n(2) by (simp add: phase_def s)
          then show ?thesis using wf' i run n(2) by (simp add: test_inv_def s 2(3))
        qed
      qed (use same in \<open>auto simp: waitpid_request_def\<close>)
    next
      case (2 u')
      then have "phase pi p u' S" using n k ok unfolding phase_def by blast
      then show ?thesis using stay [OF 2(1)] by blast
    qed
  next
    assume r: "quiet (at_exit pi 0) (rest u)" and k: "kids (sys_os S) p = []"
    from quiet_goes_on [OF wf st p u(1) r] show ?thesis
    proof cases
      case 1
      have q: "rest u [] = Some (Ask \<lparr>rq_id = U_SYSCALL_EXIT, rq_args = (Val (scast (0 :: i32)), Val 0, Val 0), rq_data = []\<rparr>)"
        unfolding 1 by (rule exit_ask)
      show ?thesis
      proof (cases rule: self [OF q])
        case (5 v y z)
        have "ucast v = (0 :: i32)" using 5(2) ucast_scast_i32 [of 0] by simp
        then show ?thesis using 5(3) p by (auto elim!: exit_effect_os)
      qed (use same in \<open>auto simp: answers_to_def\<close>)
    next
      case (2 u')
      then have "phase pi p u' S" using k by (simp add: phase_def)
      then show ?thesis using stay [OF 2(1)] by blast
    qed
  qed
qed

subsection \<open>Runs\<close>

text \<open>Steps of the system as long as \<open>p\<close> has not exited: later its parent may reap it and another process get its pid.\<close>

inductive test_run :: "(u8 list \<Rightarrow> unit user option) \<Rightarrow> usize \<Rightarrow> system \<Rightarrow> system \<Rightarrow> bool" for progs p S where
  begins: "test_run progs p S S"
| goes_on: "test_run progs p S S' \<Longrightarrow> live (sys_os S') p \<Longrightarrow> sys_step progs S' S'' \<Longrightarrow> test_run progs p S S''"

lemma quiet_asks:
  assumes "quiet Q r" and "\<And>r'. Q r' \<Longrightarrow> \<exists>q. r' [] = Some (Ask q)"
  shows "\<exists>q. r [] = Some (Ask q)"
  using assms(1) by (cases rule: quiet_cases) (use assms(2) in auto)

lemma test_asks:
  assumes "test_inv pi p S"
  shows "\<exists>q. asking S p q"
proof -
  obtain u where u: "uprocs S p = Some u" "phase pi p u S" using assms by (auto simp: test_inv_def)
  have "\<exists>q. rest u [] = Some (Ask q)" using u(2) unfolding phase_def
  proof (elim disjE exE conjE)
    assume "rest u = go pi"
    then show ?thesis by (simp add: go_waits)
  qed (erule quiet_asks, use at_requests(1,3) exit_ask in blast)+
  then show ?thesis using u(1) by (auto simp: asking_def)
qed

lemma test_run_inv:
  assumes "test_run progs p S S'" and "test_inv pi p S"
  shows "test_inv pi p S' \<or> state_of (sys_os S') p = Some (PZombie 0)"
  using assms(1)
proof induction
  case begins
  then show ?case using assms(2) by simp
next
  case (goes_on S1 S2)
  then have inv: "test_inv pi p S1" by auto
  show ?case using test_other [OF inv goes_on(3)] test_self [OF inv goes_on(3)] by blast
qed

text \<open>
  C18: \<open>forktest_simple\<close> passes, whatever the other processes do and wherever timer interrupts come: in every system
  whose processes are in order, from the moment a process without children starts the program, the process is
  either alive with a next request, so it never hangs or stops on one of its assertions, or it has exited with code 0.
  Since it asserts that its wait finds the pid of the child it made and the code 100, no other process takes the child away
  and no other answer reaches it.
\<close>

theorem forktest_simple_passes:
  assumes "os_wf (sys_os S)" and "p \<noteq> init_pid (sys_os S)" and "live (sys_os S) p" and "kids (sys_os S) p = []"
    and "uprocs S p = Some \<lparr>image = start_u pi (forktest_simple pi), past = []\<rparr>" and "test_run progs p S S'"
  shows "live (sys_os S') p \<and> (\<exists>q. asking S' p q) \<or> state_of (sys_os S') p = Some (PZombie 0)"
proof -
  have "test_inv pi p S" using assms(1-5) by (simp add: test_inv_def phase_def rest_def go_def)
  from test_run_inv [OF assms(6) this] show ?thesis using test_asks [of pi p S'] by (auto simp: test_inv_def)
qed

text \<open>A system with the initial process ready and the test on the hart, after a timer interrupt.\<close>

definition test_system :: system where
  "test_system =
     \<lparr>sys_os = \<lparr>procs = [0 \<mapsto> \<lparr>p_children = [1], p_state = PReady\<rparr>, 1 \<mapsto> \<lparr>p_children = [], p_state = PRunning\<rparr>],
        runq = [0], on_hart = Some 1, init_pid = 0\<rparr>,
      uprocs = [1 \<mapsto> \<lparr>image = start_u (\<lambda>_ _ _. \<lparr>pi_location = None, pi_message = []\<rparr>) (forktest_simple (\<lambda>_ _ _. \<lparr>pi_location = None, pi_message = []\<rparr>)), past = []\<rparr>],
      screen = []\<rparr>"

definition test_system' :: system where
  "test_system' = test_system\<lparr>sys_os := \<lparr>procs = [0 \<mapsto> \<lparr>p_children = [1], p_state = PReady\<rparr>, 1 \<mapsto> \<lparr>p_children = [], p_state = PReady\<rparr>],
     runq = [0, 1], on_hart = None, init_pid = 0\<rparr>\<rparr>"

lemma test_system_run: "test_run (\<lambda>_. None) 1 test_system test_system'"
proof -
  have "sys_step (\<lambda>_. None) test_system test_system'"
    unfolding test_system'_def by (rule timer) (simp add: test_system_def os_next.simps os_yield_def fun_eq_iff)
  then show ?thesis by (intro goes_on [OF begins]) (simp_all add: test_system_def state_of_def)
qed

lemma forktest_simple_passes_witness:
  "live (sys_os test_system') 1 \<and> (\<exists>q. asking test_system' 1 q) \<or> state_of (sys_os test_system') 1 = Some (PZombie 0)"
  by (rule forktest_simple_passes [OF _ _ _ _ _ test_system_run, of "\<lambda>_ _ _. \<lparr>pi_location = None, pi_message = []\<rparr>"])
    (auto simp: test_system_def os_wf_def state_of_def kids_def)

end
