(* ===== verification/Spec2Isabelle.thy ===== *)
theory Spec2Isabelle
  imports User_Calls Os_Simulation User_Apps Link_App Fork_Test
begin

text \<open>
  A verification development for ApolloOS, a small RISC-V kernel for one hart with Sv39 paging, processes,
  round-robin scheduling and nine system calls (\<^verbatim>\<open>src/os\<close>), with its user library and programs (\<^verbatim>\<open>src/user\<close>).

  \<^bold>\<open>The program and its parts.\<close>  The build script of the kernel puts the executables of the user programs into
  the kernel image.  At reset \<open>rust_main\<close> clears the bss section, makes the frame
  allocator and the kernel's own address space, loads \<open>initproc\<close> from the table of applications in
  the kernel image, and enters the idle loop \<open>run_tasks\<close>.  The idle loop takes the first task of the
  ready queue and switches to it; a task that is new, or was suspended, returns to user mode; a trap
  brings it back into \<open>trap_handler\<close>, which serves the system call, kills the task or suspends it.
  Memory management owns the physical frames through RAII handles: page tables own their nodes,
  segments own their data frames, and a control block owns an address space, a kernel stack and a
  pid, and shares ownership of its children by reference counts.  A user program is linked with the user library,
  which wraps the system calls; \<open>initproc\<close> starts the shell, which starts the other programs.

  \<^bold>\<open>Theories and sources of the kernel\<close>, from the bottom up; file names are below \<^verbatim>\<open>src/os/src\<close>.
  \<^item> \<open>Prelude\<close>: the result type (a panic is \<open>Inl\<close>), sequencing, loops over lists, and shared lemmas.
  \<^item> \<open>Config\<close>, \<open>Address\<close>, \<open>Phys_Memory\<close>: \<^verbatim>\<open>config.rs\<close> and \<^verbatim>\<open>mm/address.rs\<close>; addresses are 64-bit words
    and wrap around, physical memory is a function from addresses to bytes.
  \<^item> \<open>Frame_Allocator\<close>: \<^verbatim>\<open>mm/frame_allocator.rs\<close>; \<open>mm_state\<close> is the memory with the global allocator.
  \<^item> \<open>Page_Table\<close>, \<open>User_Buffer\<close>: \<^verbatim>\<open>mm/page_table.rs\<close>; tables are read and written word by word in
    physical memory, \<open>pt_lookup\<close> is the map they stand for.
  \<^item> \<open>Map_Area\<close>, \<open>Memory_Set\<close>, \<open>Kernel_Space\<close>, \<open>User_Space\<close>: \<^verbatim>\<open>mm/memory_set.rs\<close>; segments, address
    spaces, \<open>new_kernel\<close> with \<open>remap_test\<close>, \<open>from_elf\<close> and \<open>from_existed_user\<close>.
  \<^item> \<open>Pid\<close>, \<open>UP_Cell\<close>, \<open>Context\<close>, \<open>Task\<close>: \<^verbatim>\<open>task/pid.rs\<close>, \<^verbatim>\<open>sync/up.rs\<close>, \<^verbatim>\<open>task/context.rs\<close>,
    \<^verbatim>\<open>trap/context.rs\<close> and \<^verbatim>\<open>task/task.rs\<close>; the record \<open>kernel\<close> holds all statics, the cells behind
    \<open>Arc\<close> and the registers, and every clone, drop and borrow of the code is written out.
  \<^item> \<open>Loader\<close>, \<open>Utf8\<close>, \<open>Timer\<close>: \<^verbatim>\<open>loader.rs\<close>, \<open>core::str::from_utf8\<close>, and \<^verbatim>\<open>timer.rs\<close> on the QEMU board.
  \<^item> \<open>Link_App\<close>: the build script \<^verbatim>\<open>src/os/build.rs\<close>; the assembly file it writes is a list of directives,
    \<open>asm_text\<close> is its text and \<open>assemble\<close> its contents in the data section.  \<open>Decimal\<close>: decimal numerals.
  \<^item> \<open>Process\<close>, \<open>Syscall\<close>, \<open>Trap\<close>: \<^verbatim>\<open>task/manager.rs\<close>, \<^verbatim>\<open>task/processor.rs\<close>, \<^verbatim>\<open>task/mod.rs\<close>, \<^verbatim>\<open>syscall/\<close>
    and \<^verbatim>\<open>trap/mod.rs\<close>.
  \<^item> \<open>Machine\<close>: \<^verbatim>\<open>main.rs\<close> and \<^verbatim>\<open>mm/mod.rs\<close>, and the kernel as a step relation \<open>kstep\<close> with its
    reachable states.

  \<^bold>\<open>The specification of processes.\<close>  \<open>Os_Spec\<close> says what the kernel promises about processes: who is whose child,
  who is ready, running or has exited with which code, and the order of the queue, with five events.
  \<open>Os_Refinement\<close> and \<open>Os_Simulation\<close> show that the kernel implements it; \<open>Os_Invariant\<close> has what holds in all its
  states.

  \<^bold>\<open>Theories and sources of the user side\<close>; file names are below \<^verbatim>\<open>src/user/src\<close>.
  \<^item> \<open>User_Io\<close>: a program is a function from the answers it has had so far to its next request, its result or
    its end, with \<open>ubind\<close> for sequencing, \<open>ufor\<close> and \<open>ufold\<close> for loops over lists and \<open>uloop\<close>, a partial function, for
    the loops that may go on forever.
  \<^item> \<open>User_Lib\<close>: \<^verbatim>\<open>lib.rs\<close>, \<^verbatim>\<open>syscall.rs\<close>, \<^verbatim>\<open>console.rs\<close> and \<^verbatim>\<open>lang_items.rs\<close>; \<open>Polling\<close> is the contract of its loops.
  \<^item> \<open>User_Programs\<close>, \<open>User_Shell\<close>, \<open>User_Matrix\<close>, \<open>User_Apps\<close>: the programs under \<^verbatim>\<open>bin\<close>, and all of them by name.
  \<^item> \<open>User_System\<close>, \<open>Fork_Test\<close>: programs running together on the specification of processes, and the test
    program \<^verbatim>\<open>bin/forktest_simple.rs\<close> among others.

  \<^bold>\<open>Interfaces.\<close>  Five contracts are locales.  \<open>recycling_allocator\<close> (\<open>Allocator_Spec\<close>) is that of the frame
  allocator, of its RAII handles and of the pid allocator, and gives what owners of handles rely on
  when they drop them.  \<open>page_map\<close> (\<open>Page_Map_Spec\<close>) is that of a page table towards segments and
  address spaces.  \<open>fifo_queue\<close> (\<open>Queue_Spec\<close>) is that of the ready queue.  \<open>os_implementation\<close> (\<open>Os_Spec\<close>) is that of
  the kernel towards programs.  \<open>polling\<close> (\<open>Polling\<close>) is that of the loops of the user library that ask until the
  answer is good.  Each is interpreted on the definitions of the model.

  \<^bold>\<open>What is shown.\<close>
  \<^item> Frames and pids: no frame or pid is handed out twice, a double free panics, a new frame is zero,
    and the allocator refines one that only keeps a set.
  \<^item> Page tables: \<open>map\<close> and \<open>unmap\<close> change exactly one entry, restore each other, never disturb another
    table, and a token stands for its table.
  \<^item> Address spaces: the kernel space is the identity with the right permissions; \<open>from_elf\<close> loads a
    file; a copy has the same contents in other frames; giving a space back restores the allocator.
  \<^item> User memory: buffers and strings are the translated bytes of the program, and the cases where the
    translation goes wrong.
  \<^item> Applications: the loader finds in the image what the build script has put there.
  \<^item> Processes: every reachable state has a process table in order (\<open>Process_Table\<close>, \<open>Process_Inv\<close>,
    \<open>Schedule\<close>), with exact reference counts, so that the assertion in \<open>waitpid\<close> never fails; every task
    descends from \<open>initproc\<close>; the idle loop never starves, tasks run in the order of the queue and go
    on from the point and with the registers they were suspended with; the kernel refines the specification of
    processes, each trap is the event that its cause says and each system call the event of its name.
  \<^item> Operations: \<open>waitpid\<close> and \<open>exit\<close> (\<open>Process_Laws\<close>), start-up (\<open>Task_Memory\<close>, \<open>Boot\<close>), \<open>fork\<close> (\<open>Fork\<close>), \<open>exec\<close>
    (\<open>Exec\<close>), and calls from the \<open>ecall\<close> to the return to user mode (\<open>User_Calls\<close>).
  \<^item> Programs: every request of every program is one the kernel serves; \<open>wait\<close> and \<open>sleep\<close> return when and only when
    they should; \<open>initproc\<close> never exits; the shell runs the line that was typed; \<open>matrix\<close> computes the product it
    means to; \<open>forktest_simple\<close> passes whatever other processes do.

  \<^bold>\<open>Bounds, loops and hypotheses.\<close>
  \<^item> Loops that may not end (\<open>translated_byte_buffer\<close>, \<open>translated_str\<close>, the scan of a name in the loader) are
    partial functions into \<open>option\<close>; the theorems say when they return, and one shows a case where
    the loop does not.  \<open>run_tasks\<close> and the loop in \<open>sys_read\<close> are one step per iteration.
  \<^item> The drop of an \<open>Arc\<close> may nest; its recursion is bounded by one more than the number of cells, which
    is enough since each level frees a cell.
  \<^item> Where an operation allocates, the theorems ask for enough free frames; the numbers count the
    worst case of new page-table nodes.  A step of the machine asks that the pid counter does not wrap
    around (\<open>pida_room\<close>), which takes \<open>2 ^ 64\<close> allocations.
  \<^item> Between two traps user code may change memory and registers in any way, so the invariant of the
    process table and the refinement do not rest on the programs; theorems about memory are about one operation, from a
    state whose spaces are in order (\<open>task_memory\<close>).
  \<^item> A panic ends the machine.  The addresses of the linker script satisfy \<open>syms_ok\<close>, the table of
    applications \<open>app_image\<close>, an ELF file \<open>elf_ok\<close>.
  \<^item> Programs in a system (\<open>User_System\<close>) meet the specification of processes, not the model of the kernel: memory and
    registers of user mode are not part of a program here, and calls that the kernel would answer with a panic do
    not happen.  A timer interrupt may come between any two calls.

  \<^bold>\<open>Parameters.\<close>  The ELF parser (\<^verbatim>\<open>xmas_elf\<close>) is a function from bytes to the values of its accessors, the
  initial \<open>sstatus\<close> (\<^verbatim>\<open>riscv\<close>) a word, the time and the console input arguments, and the symbols of the
  linker script and of the assembly files fields of \<open>kernel_env\<close>.  The text that the core library makes of a panic is the
  parameter \<open>pi\<close> of user programs.  The files that the build script lists and includes are arguments.

  \<^bold>\<open>Not modelled.\<close>  The heaps of the kernel (\<^verbatim>\<open>mm/heap_allocator.rs\<close>) and of user programs, whose allocator is a crate:
  allocation succeeds.  The SBI calls (\<^verbatim>\<open>sbi.rs\<close>), the \<open>ecall\<close> of the user library and the assembly of \<^verbatim>\<open>entry.asm\<close>,
  \<^verbatim>\<open>trap.S\<close> and \<^verbatim>\<open>switch.S\<close>: inline or plain assembly; \<open>__switch\<close> is modelled by its effect on the saved registers.
  The formatting of messages in the kernel (\<^verbatim>\<open>console.rs\<close>, \<^verbatim>\<open>lang_items.rs\<close>), the messages the kernel prints itself, and
  the \<open>Debug\<close> instances.  The K210 board, which is off by default.  The stack of a user program, so that
  \<open>stack_overflow\<close> goes on without the fault that ends it.
\<close>

subsection \<open>The kernel under programs\<close>

text \<open>
  The systems of \<open>User_System\<close> start from states in order; the states that the kernel reaches are, since the events
  keep the order and the kernel implements them.
\<close>

lemma kernel_processes_in_order:
  assumes "reachable env s"
  shows "os_wf (abs_os (mstate s))"
proof -
  from assms obtain s0 where "booted env s0" "(kstep env)\<^sup>*\<^sup>* s0 s" unfolding reachable_run by blast
  then show ?thesis by (rule apollo.invariant) (use os_wf_boot os_wf_next in blast)+
qed

end
